(* ===== verification/Prelude.thy ===== *)
theory Prelude
  imports Main "HOL-Library.Word" "HOL-Library.Monad_Syntax"
begin

text \<open>
  Shared vocabulary of the development: the Go types the packages use, reads of a slice that
  can panic, loops whose body can panic, and the list facts every component needs.

  \<^item> A Go \<open>byte\<close>, \<open>uint16\<close>, \<open>uint64\<close> and \<open>int64\<close> is a word of that width. Addition and
    subtraction wrap as they do in Go; a signed reading of an \<open>int64\<close> is \<open>sint\<close>.
  \<^item> A run-time panic (index out of range) is the value \<open>None\<close> of an option; \<open>nth_opt\<close> is the
    slice read that can panic and \<open>foldM\<close> is a \<open>for\<close> loop whose body can.
\<close>

section \<open>Go types\<close>

type_synonym byte = "8 word"
type_synonym u16 = "16 word"
type_synonym u64 = "64 word"
type_synonym i64 = "64 word"
type_synonym mac = "byte list"
type_synonym frame = "byte list"

named_theorems wf_intros "introduction rules for well-formedness of states"
named_theorems frame_simps "fields and ports an operation leaves alone"

section \<open>Slice reads and loops that can panic\<close>

definition nth_opt :: "'a list \<Rightarrow> nat \<Rightarrow> 'a option" where
  "nth_opt xs i = (if i < length xs then Some (xs ! i) else None)"

lemma nth_opt_Some_iff [simp]: "nth_opt xs i = Some x \<longleftrightarrow> i < length xs \<and> xs ! i = x"
  by (simp add: nth_opt_def)

lemma nth_opt_None_iff [simp]: "nth_opt xs i = None \<longleftrightarrow> length xs \<le> i"
  by (simp add: nth_opt_def)

primrec foldM :: "('a \<Rightarrow> 's \<Rightarrow> 's option) \<Rightarrow> 'a list \<Rightarrow> 's \<Rightarrow> 's option" where
  "foldM f [] s = Some s"
| "foldM f (x # xs) s = (case f x s of None \<Rightarrow> None | Some s' \<Rightarrow> foldM f xs s')"

lemma foldM_append:
  "foldM f (xs @ ys) s = (case foldM f xs s of None \<Rightarrow> None | Some s' \<Rightarrow> foldM f ys s')"
  by (induction xs arbitrary: s) (auto split: option.splits)

text \<open>A loop whose body skips some elements is the loop over the elements it keeps.\<close>

lemma foldM_skip:
  "foldM (\<lambda>x s. if P x then Some s else f x s) xs s = foldM f (filter (\<lambda>x. \<not> P x) xs) s"
  by (induction xs arbitrary: s) (auto split: option.splits)

lemma foldM_invariant:
  assumes "\<And>x s s'. x \<in> set xs \<Longrightarrow> I s \<Longrightarrow> f x s = Some s' \<Longrightarrow> I s'"
    and "I s" and "foldM f xs s = Some s'"
  shows "I s'"
  using assms by (induction xs arbitrary: s) (auto split: option.splits)

lemma foldM_total:
  assumes "\<And>x s. x \<in> set xs \<Longrightarrow> I s \<Longrightarrow> \<exists>s'. f x s = Some s' \<and> I s'" and "I s"
  shows "\<exists>s'. foldM f xs s = Some s' \<and> I s'"
  using assms
proof (induction xs arbitrary: s)
  case Nil
  then show ?case by simp
next
  case (Cons x xs)
  obtain s1 where s1: "f x s = Some s1" "I s1"
    using Cons.prems(1)[of x s] Cons.prems(2) by auto
  have "\<exists>s'. foldM f xs s1 = Some s' \<and> I s'"
    by (rule Cons.IH) (use Cons.prems(1) s1(2) in auto)
  with s1 show ?case by simp
qed

section \<open>Lists\<close>

lemma nth_list_update_if:
  "i < length xs \<Longrightarrow> xs[j := x] ! i = (if i = j then x else xs ! i)"
  by (auto simp: nth_list_update)

lemma filter_upt_distinct [simp]: "distinct (filter P [a..<b])"
  by simp

lemma filter_upt_Suc:
  "filter P [0..<Suc n] = filter P [0..<n] @ (if P n then [n] else [])"
  by simp

lemma length_filter_neq:
  "distinct xs \<Longrightarrow> x \<in> set xs \<Longrightarrow> length (filter (\<lambda>y. y \<noteq> x) xs) = length xs - 1"
proof (induction xs)
  case Nil
  then show ?case by simp
next
  case (Cons a xs)
  show ?case
  proof (cases "a = x")
    case True
    with Cons.prems have "filter (\<lambda>y. y \<noteq> x) xs = xs" by (auto intro!: filter_True)
    with True show ?thesis by simp
  next
    case False
    with Cons have "x \<in> set xs" and "length (filter (\<lambda>y. y \<noteq> x) xs) = length xs - 1" by auto
    moreover from \<open>x \<in> set xs\<close> have "0 < length xs" by (cases xs) auto
    ultimately show ?thesis using False by simp
  qed
qed

lemma sum_list_map_update:
  fixes f :: "'a \<Rightarrow> 'b::ab_group_add"
  assumes "i < length xs"
  shows "sum_list (map f (xs[i := x])) = sum_list (map f xs) - f (xs ! i) + f x"
  using assms by (induction xs arbitrary: i) (auto simp: algebra_simps split: nat.splits)

lemma map_update_same: "f x = f (xs ! i) \<Longrightarrow> map f (xs[i := x]) = map f xs"
  by (intro nth_equalityI) (auto simp: nth_list_update_if)

section \<open>Fixed-size byte arrays\<close>

text \<open>
  \<open>var d [n]byte; copy(d[:], src)\<close>: the first \<open>n\<close> bytes of the source, the rest zero.
\<close>

definition copy_array :: "nat \<Rightarrow> byte list \<Rightarrow> byte list" where
  "copy_array n src = take n src @ replicate (n - length src) 0"

lemma length_copy_array [simp]: "length (copy_array n src) = n"
  by (simp add: copy_array_def)

lemma copy_array_exact [simp]: "length src = n \<Longrightarrow> copy_array n src = src"
  by (simp add: copy_array_def)

end
