(* ===== verification/Fdb.thy ===== *)
theory Fdb
  imports Prelude
begin

text \<open>
  The forwarding database, \<open>internal/goswitch/fdb.go\<close>, with each method as one atomic state
  transformation (\<open>FdbRace\<close> splits them at the lock operations). The Go map from keys to entry
  pointers is a partial map to entry values: no two keys ever share an entry, which \<open>FdbRace\<close>
  proves of the pointer-level model. Time stamps and the ageing duration are \<open>int64\<close>, compared
  after a subtraction that wraps.

  \<open>learning_table\<close> is the contract the engine relies on; the lemmas inside it follow an entry
  through any run of operations. The rest of the theory is about ageing: the background \<open>reap\<close>
  is invisible to \<open>Lookup\<close> as long as the ageing duration is not negative.
\<close>

section \<open>State and operations\<close>

record macKey =
  key_vid :: u16
  key_mac :: mac

record fdb_entry =
  portIdx :: nat
  seenAt :: i64

record FDB =
  table :: "macKey \<rightharpoonup> fdb_entry"
  ageing :: i64

definition macKey_of :: "u16 \<Rightarrow> mac \<Rightarrow> macKey" where
  "macKey_of v m = \<lparr>key_vid = v, key_mac = m\<rparr>"

definition newFDB :: FDB where
  "newFDB = \<lparr>table = Map.empty, ageing = 0\<rparr>"

definition Learn :: "FDB \<Rightarrow> u16 \<Rightarrow> mac \<Rightarrow> nat \<Rightarrow> i64 \<Rightarrow> FDB" where
  "Learn f vid mac port now =
     (let k = macKey_of vid mac;
          slow = (case table f k of
                    Some e \<Rightarrow> f\<lparr>table := (table f)(k \<mapsto> e\<lparr>portIdx := port, seenAt := now\<rparr>)\<rparr>
                  | None \<Rightarrow> f\<lparr>table := (table f)(k \<mapsto> \<lparr>portIdx = port, seenAt = now\<rparr>)\<rparr>)
      in case table f k of
           Some e \<Rightarrow>
             (if portIdx e = port then f\<lparr>table := (table f)(k \<mapsto> e\<lparr>seenAt := now\<rparr>)\<rparr> else slow)
         | None \<Rightarrow> slow)"

text \<open>\<open>now - seenAt > age\<close> on \<open>int64\<close>.\<close>

definition older_than :: "i64 \<Rightarrow> i64 \<Rightarrow> i64 \<Rightarrow> bool" where
  "older_than now seen age \<longleftrightarrow> sint age < sint (now - seen)"

definition Lookup :: "FDB \<Rightarrow> u16 \<Rightarrow> mac \<Rightarrow> i64 \<Rightarrow> nat option" where
  "Lookup f vid mac now =
     (case table f (macKey_of vid mac) of
        None \<Rightarrow> None
      | Some e \<Rightarrow>
          (let age = ageing f
           in if 0 < sint age \<and> older_than now (seenAt e) age then None
              else Some (portIdx e)))"

definition reap :: "FDB \<Rightarrow> i64 \<Rightarrow> FDB" where
  "reap f now =
     (let age = ageing f
      in if age = 0 then f
         else f\<lparr>table := (\<lambda>k. case table f k of
                               None \<Rightarrow> None
                             | Some e \<Rightarrow> if older_than now (seenAt e) age then None else Some e)\<rparr>)"

definition set_ageing :: "FDB \<Rightarrow> i64 \<Rightarrow> FDB" where
  "set_ageing f d = f\<lparr>ageing := d\<rparr>"

section \<open>Elementary facts\<close>

lemma macKey_of_eq [simp]: "macKey_of v m = macKey_of v' m' \<longleftrightarrow> v = v' \<and> m = m'"
  by (simp add: macKey_of_def)

lemma macKey_of_sel [simp]: "key_vid (macKey_of v m) = v" "key_mac (macKey_of v m) = m"
  by (simp_all add: macKey_of_def)

lemma table_newFDB [simp]: "table newFDB k = None"
  by (simp add: newFDB_def)

text \<open>Fast path and slow path agree: the entry becomes exactly (port, now).\<close>

lemma table_Learn:
  "table (Learn f v m p now) = (table f)(macKey_of v m \<mapsto> \<lparr>portIdx = p, seenAt = now\<rparr>)"
  by (auto simp: Learn_def Let_def fun_eq_iff split: option.splits)

lemma ageing_Learn [simp]: "ageing (Learn f v m p now) = ageing f"
  by (simp add: Learn_def Let_def split: option.splits)

lemma ageing_reap [simp]: "ageing (reap f now) = ageing f"
  by (simp add: reap_def Let_def)

lemma table_reap:
  "table (reap f now) k =
     (case table f k of
        None \<Rightarrow> None
      | Some e \<Rightarrow> if ageing f \<noteq> 0 \<and> older_than now (seenAt e) (ageing f) then None else Some e)"
  by (simp add: reap_def Let_def split: option.splits)

lemma Lookup_Some_iff:
  "Lookup f v m now = Some p \<longleftrightarrow>
     (\<exists>e. table f (macKey_of v m) = Some e \<and> portIdx e = p \<and>
          \<not> (0 < sint (ageing f) \<and> older_than now (seenAt e) (ageing f)))"
  by (auto simp: Lookup_def Let_def split: option.splits)

lemma not_older_than_self [simp]: "0 \<le> sint age \<Longrightarrow> \<not> older_than t t age"
  by (simp add: older_than_def)

definition bound_port :: "FDB \<Rightarrow> u16 \<Rightarrow> mac \<Rightarrow> nat option" where
  "bound_port f v m = map_option portIdx (table f (macKey_of v m))"

section \<open>The contract of a learning table\<close>

datatype fdb_op = OpLearn u16 mac nat i64 | OpReap i64

locale learning_table =
  fixes learn :: "'t \<Rightarrow> u16 \<Rightarrow> mac \<Rightarrow> nat \<Rightarrow> i64 \<Rightarrow> 't"
    and lookup :: "'t \<Rightarrow> u16 \<Rightarrow> mac \<Rightarrow> i64 \<Rightarrow> nat option"
    and expire :: "'t \<Rightarrow> i64 \<Rightarrow> 't"
    and binding :: "'t \<Rightarrow> u16 \<Rightarrow> mac \<Rightarrow> nat option"
    and invar :: "'t \<Rightarrow> bool"
  assumes binding_learn:
      "invar t \<Longrightarrow> binding (learn t v m p n) v' m' = (if v' = v \<and> m' = m then Some p else binding t v' m')"
    and lookup_learn: "invar t \<Longrightarrow> lookup (learn t v m p n) v m n = Some p"
    and lookup_binding: "invar t \<Longrightarrow> lookup t v m n = Some p \<Longrightarrow> binding t v m = Some p"
    and binding_expire: "invar t \<Longrightarrow> binding (expire t n) v m = Some p \<Longrightarrow> binding t v m = Some p"
    and invar_learn: "invar t \<Longrightarrow> invar (learn t v m p n)"
    and invar_expire: "invar t \<Longrightarrow> invar (expire t n)"
begin

definition apply_op :: "'t \<Rightarrow> fdb_op \<Rightarrow> 't" where
  "apply_op t op = (case op of OpLearn v m p n \<Rightarrow> learn t v m p n | OpReap n \<Rightarrow> expire t n)"

lemma invar_apply_op: "invar t \<Longrightarrow> invar (apply_op t op)"
  by (simp add: apply_op_def invar_learn invar_expire split: fdb_op.split)

lemma invar_run: "invar t \<Longrightarrow> invar (foldl apply_op t ops)"
  by (induction ops arbitrary: t) (simp_all add: invar_apply_op)

lemma binding_apply_op:
  assumes "invar t" and "binding (apply_op t op) v m = Some p"
  shows "(\<exists>n. op = OpLearn v m p n) \<or> binding t v m = Some p"
  using assms
  by (auto simp: apply_op_def binding_learn dest: binding_expire split: fdb_op.splits if_splits)

text \<open>Nothing is ever looked up that was not learned for exactly this VLAN and address.\<close>

lemma binding_origin:
  assumes "invar t" and "binding (foldl apply_op t ops) v m = Some p"
  shows "(\<exists>n. OpLearn v m p n \<in> set ops) \<or> binding t v m = Some p"
  using assms
proof (induction ops arbitrary: t)
  case Nil
  then show ?case by simp
next
  case (Cons op ops)
  have "(\<exists>n. OpLearn v m p n \<in> set ops) \<or> binding (apply_op t op) v m = Some p"
    using Cons.IH [of "apply_op t op"] Cons.prems by (simp add: invar_apply_op)
  then show ?case
    using binding_apply_op [OF Cons.prems(1), of op v m p] by auto
qed

lemma lookup_origin:
  assumes "invar t" and "lookup (foldl apply_op t ops) v m n = Some p"
  shows "(\<exists>n'. OpLearn v m p n' \<in> set ops) \<or> binding t v m = Some p"
  using binding_origin [OF assms(1)] lookup_binding [OF invar_run [OF assms(1)] assms(2)] by blast

text \<open>
  Confinement: a predicate on (VLAN, port) pairs that holds of all bindings is kept by learning
  a pair that satisfies it, and holds of every result of a lookup.
\<close>

definition confined :: "(u16 \<Rightarrow> nat \<Rightarrow> bool) \<Rightarrow> 't \<Rightarrow> bool" where
  "confined P t \<longleftrightarrow> (\<forall>v m p. binding t v m = Some p \<longrightarrow> P v p)"

lemma confined_learn: "invar t \<Longrightarrow> confined P t \<Longrightarrow> P v p \<Longrightarrow> confined P (learn t v m p n)"
  by (simp add: confined_def binding_learn)

lemma confined_expire: "invar t \<Longrightarrow> confined P t \<Longrightarrow> confined P (expire t n)"
  unfolding confined_def using binding_expire by blast

lemma confined_lookup: "invar t \<Longrightarrow> confined P t \<Longrightarrow> lookup t v m n = Some p \<Longrightarrow> P v p"
  unfolding confined_def using lookup_binding by blast

end

interpretation ft: learning_table Learn Lookup reap bound_port "\<lambda>_. True"
proof unfold_locales
  show "Lookup (Learn t v m p n) v m n = Some p" for t v m p n
    by (simp add: Lookup_Some_iff table_Learn)
  show "bound_port (reap t n) v m = Some p \<Longrightarrow> bound_port t v m = Some p" for t n v m p
    by (auto simp: bound_port_def table_reap split: option.splits if_splits)
qed (auto simp: bound_port_def table_Learn Lookup_Some_iff)

lemma bound_port_set_ageing [simp]: "bound_port (set_ageing f d) = bound_port f"
  by (simp add: bound_port_def set_ageing_def fun_eq_iff)

lemma bound_port_newFDB [simp]: "bound_port newFDB v m = None"
  by (simp add: bound_port_def)

section \<open>Ageing\<close>

lemma sint_minus_nonneg:
  fixes a b :: i64
  assumes "0 \<le> sint a" and "0 \<le> sint b"
  shows "sint (a - b) = sint a - sint b"
proof -
  have "sint a < 2 ^ 63" "sint b < 2 ^ 63"
    using sint_lt [of a] sint_lt [of b] by simp_all
  then have "signed_take_bit 63 (sint a - sint b) = sint a - sint b"
    using assms by (simp add: signed_take_bit_int_eq_self_iff)
  then show ?thesis by (simp add: sint_word_ariths)
qed

lemma older_than_nonneg:
  "0 \<le> sint now \<Longrightarrow> 0 \<le> sint seen \<Longrightarrow> older_than now seen age \<longleftrightarrow> sint age < sint now - sint seen"
  by (simp add: older_than_def sint_minus_nonneg)

definition expired :: "FDB \<Rightarrow> i64 \<Rightarrow> fdb_entry \<Rightarrow> bool" where
  "expired f now e \<longleftrightarrow> 0 < sint (ageing f) \<and> older_than now (seenAt e) (ageing f)"

lemma Lookup_eq:
  "Lookup f v m now =
     (case table f (macKey_of v m) of
        None \<Rightarrow> None
      | Some e \<Rightarrow> if expired f now e then None else Some (portIdx e))"
  by (simp add: Lookup_def Let_def expired_def split: option.splits)

text \<open>A learned address is found on its port until the ageing duration has passed.\<close>

lemma Lookup_after_Learn:
  assumes "0 \<le> sint t" and "sint t \<le> sint now"
  shows "Lookup (Learn f v m p t) v m now =
           (if 0 < sint (ageing f) \<and> sint (ageing f) < sint now - sint t then None else Some p)"
  using assms by (simp add: Lookup_def table_Learn older_than_nonneg Let_def)

text \<open>
  The clock of a run: every time stamp of the table is non-negative and not in the future.
\<close>

definition clock_ok :: "i64 \<Rightarrow> FDB \<Rightarrow> bool" where
  "clock_ok t f \<longleftrightarrow>
     (\<forall>k e. table f k = Some e \<longrightarrow> 0 \<le> sint (seenAt e) \<and> sint (seenAt e) \<le> sint t)"

lemma expired_later:
  assumes "clock_ok t f" and "table f k = Some e" and "sint t \<le> sint t'" and "expired f t e"
  shows "expired f t' e"
proof -
  have s: "0 \<le> sint (seenAt e)" "sint (seenAt e) \<le> sint t"
    using assms(1,2) by (auto simp: clock_ok_def)
  then have "0 \<le> sint t" "0 \<le> sint t'" using assms(3) by auto
  then show ?thesis
    using s assms(3,4) by (auto simp: expired_def older_than_nonneg)
qed

text \<open>
  \<open>swept t f g\<close>: the table \<open>f\<close> is \<open>g\<close> without some of the entries that are expired at \<open>t\<close>.
\<close>

definition swept :: "i64 \<Rightarrow> FDB \<Rightarrow> FDB \<Rightarrow> bool" where
  "swept t f g \<longleftrightarrow> ageing f = ageing g \<and>
     (\<forall>k. table f k = table g k \<or>
          table f k = None \<and> (\<exists>e. table g k = Some e \<and> expired g t e))"

lemma swept_refl [simp]: "swept t f f"
  by (simp add: swept_def)

lemma swept_Lookup:
  assumes "swept t f g"
  shows "Lookup f v m t = Lookup g v m t"
proof -
  have "\<And>e. expired f t e = expired g t e"
    using assms by (simp add: swept_def expired_def)
  moreover have "table f (macKey_of v m) = table g (macKey_of v m) \<or>
      table f (macKey_of v m) = None \<and> (\<exists>e. table g (macKey_of v m) = Some e \<and> expired g t e)"
    using assms unfolding swept_def by blast
  ultimately show ?thesis
    by (elim disjE conjE exE) (simp_all add: Lookup_eq split: option.split)
qed

lemma swept_later:
  assumes "swept t f g" and "clock_ok t g" and "sint t \<le> sint t'"
  shows "swept t' f g"
  using assms expired_later [OF assms(2) _ assms(3)] unfolding swept_def by metis

lemma swept_Learn: "swept t f g \<Longrightarrow> swept t (Learn f v m p n) (Learn g v m p n)"
  by (auto simp: swept_def table_Learn expired_def)

lemma swept_reap_left:
  assumes "swept t f g" and "0 \<le> sint (ageing g)"
  shows "swept t (reap f t) g"
proof -
  have age: "ageing f = ageing g" using assms(1) by (simp add: swept_def)
  show ?thesis
    unfolding swept_def
  proof (intro conjI allI)
    show "ageing (reap f t) = ageing g" by (simp add: age)
    fix k
    have "table f k = table g k \<or> table f k = None \<and> (\<exists>e. table g k = Some e \<and> expired g t e)"
      using assms(1) unfolding swept_def by blast
    moreover have "0 < sint (ageing g)" if "ageing g \<noteq> 0"
      using that assms(2) by (metis order_le_less sint_0 signed_word_eqI)
    ultimately show "table (reap f t) k = table g k \<or>
        table (reap f t) k = None \<and> (\<exists>e. table g k = Some e \<and> expired g t e)"
      by (auto simp: table_reap age expired_def split: option.split)
  qed
qed

lemma clock_ok_Learn: "clock_ok t f \<Longrightarrow> sint t \<le> sint n \<Longrightarrow> 0 \<le> sint n \<Longrightarrow> clock_ok n (Learn f v m p n)"
  by (fastforce simp: clock_ok_def table_Learn)

lemma clock_ok_reap: "clock_ok t f \<Longrightarrow> sint t \<le> sint n \<Longrightarrow> clock_ok n (reap f n)"
  by (fastforce simp: clock_ok_def table_reap split: option.splits if_splits)

lemma clock_ok_later: "clock_ok t f \<Longrightarrow> sint t \<le> sint n \<Longrightarrow> clock_ok n f"
  by (fastforce simp: clock_ok_def)

section \<open>Runs: the collector is invisible\<close>

definition fdb_run :: "FDB \<Rightarrow> fdb_op list \<Rightarrow> FDB" where
  "fdb_run f ops =
     foldl (\<lambda>f op. case op of OpLearn v m p n \<Rightarrow> Learn f v m p n | OpReap n \<Rightarrow> reap f n) f ops"

lemma fdb_run_simps [simp]:
  "fdb_run f [] = f"
  "fdb_run f (OpLearn v m p n # ops) = fdb_run (Learn f v m p n) ops"
  "fdb_run f (OpReap n # ops) = fdb_run (reap f n) ops"
  by (simp_all add: fdb_run_def)

fun op_time :: "fdb_op \<Rightarrow> int" where
  "op_time (OpLearn v m p n) = sint n"
| "op_time (OpReap n) = sint n"

fun is_learn :: "fdb_op \<Rightarrow> bool" where
  "is_learn (OpLearn v m p n) = True"
| "is_learn (OpReap n) = False"

lemma swept_run:
  assumes "swept t f g" and "clock_ok t g" and "0 \<le> sint t" and "0 \<le> sint (ageing g)"
    and "sorted (sint t # map op_time ops)" and "\<forall>op \<in> set ops. op_time op \<le> sint now"
    and "sint t \<le> sint now"
  shows "swept now (fdb_run f ops) (fdb_run g (filter is_learn ops))"
  using assms
proof (induction ops arbitrary: t f g)
  case Nil
  then show ?case by (simp add: swept_later)
next
  case (Cons op ops)
  show ?case
  proof (cases op)
    case (OpLearn v m p n)
    have n: "sint t \<le> sint n" "0 \<le> sint n" "sint n \<le> sint now"
      using Cons.prems OpLearn by auto
    have "swept n (Learn f v m p n) (Learn g v m p n)"
      by (rule swept_Learn, rule swept_later [OF Cons.prems(1,2) n(1)])
    then have "swept now (fdb_run (Learn f v m p n) ops) (fdb_run (Learn g v m p n) (filter is_learn ops))"
      by (rule Cons.IH) (use Cons.prems OpLearn n in \<open>auto intro: clock_ok_Learn\<close>)
    then show ?thesis using OpLearn by simp
  next
    case (OpReap n)
    have n: "sint t \<le> sint n" "0 \<le> sint n" "sint n \<le> sint now"
      using Cons.prems OpReap by auto
    have "swept n (reap f n) g"
      by (rule swept_reap_left) (use swept_later [OF Cons.prems(1,2) n(1)] Cons.prems in auto)
    then have "swept now (fdb_run (reap f n) ops) (fdb_run g (filter is_learn ops))"
      by (rule Cons.IH) (use Cons.prems OpReap n in \<open>auto intro: clock_ok_later\<close>)
    then show ?thesis using OpReap by simp
  qed
qed

text \<open>
  C26: Collecting in time is the same as expiring on lookup, as long as the clock and the ageing
  duration stand still or go forward. From any table whose entries were seen at time t or before, for
  a sequence of Learn and reap calls made one after the other at non-decreasing times from t on,
  under one ageing duration that is not negative, a later Lookup gives the answer it would give had no
  reap been made. The three conditions are needed: see the two lemmas below for a longer ageing
  duration and for a clock that steps back, and theory FdbRace for calls that overlap.
\<close>

theorem reap_transparent:
  fixes t now :: i64
  assumes "0 \<le> sint (ageing f)"
    and "\<forall>k e. table f k = Some e \<longrightarrow> 0 \<le> sint (seenAt e) \<and> sint (seenAt e) \<le> sint t" and "0 \<le> sint t"
    and "sorted (sint t # map op_time ops @ [sint now])"
  shows "Lookup (fdb_run f ops) v m now = Lookup (fdb_run f (filter is_learn ops)) v m now"
  by (rule swept_Lookup, rule swept_run [where t = t])
     (use assms in \<open>auto simp: clock_ok_def sorted_append\<close>)

theorem reap_transparent_witness:
  "Lookup (fdb_run (Learn (set_ageing newFDB 10) 1 [2,0,0,0,0,1] 3 100)
      [OpReap 105, OpLearn 1 [2,0,0,0,0,2] 4 106, OpReap 112]) 1 [2,0,0,0,0,1] 115 =
   Lookup (fdb_run (Learn (set_ageing newFDB 10) 1 [2,0,0,0,0,1] 3 100)
      (filter is_learn [OpReap 105, OpLearn 1 [2,0,0,0,0,2] 4 106, OpReap 112])) 1 [2,0,0,0,0,1] 115"
  by (rule reap_transparent [where t = 100]) (auto simp: set_ageing_def table_Learn split: if_splits)

lemma collector_visible_after_longer_ageing:
  "Lookup (set_ageing (reap (Learn (set_ageing newFDB 10) 1 m 3 100) 120) 50) 1 m 120 = None \<and>
   Lookup (set_ageing (Learn (set_ageing newFDB 10) 1 m 3 100) 50) 1 m 120 = Some 3"
  by (simp add: Lookup_def set_ageing_def table_reap table_Learn older_than_def)

lemma collector_visible_when_clock_steps_back:
  "Lookup (reap (Learn (set_ageing newFDB 10) 1 m 3 100) 120) 1 m 105 = None \<and>
   Lookup (Learn (set_ageing newFDB 10) 1 m 3 100) 1 m 105 = Some 3"
  by (simp add: Lookup_def set_ageing_def table_reap table_Learn older_than_def)

text \<open>
  With a negative ageing duration, which nothing rejects, the two halves of ageing
  disagree: Lookup never expires an entry, but reap deletes every entry that is not from
  the future, a moment-old one included.
\<close>

theorem negative_ageing_disagrees:
  assumes "sint (ageing f) < 0" and "table f (macKey_of v m) = Some e"
    and "0 \<le> sint (seenAt e)" and "sint (seenAt e) \<le> sint now"
  shows "Lookup f v m now = Some (portIdx e) \<and> Lookup (reap f now) v m now = None"
proof -
  have "ageing f \<noteq> 0" using assms(1) by auto
  moreover have "older_than now (seenAt e) (ageing f)"
    using assms by (simp add: older_than_nonneg)
  ultimately show ?thesis
    using assms(1,2) by (simp add: Lookup_def table_reap Let_def)
qed

theorem negative_ageing_disagrees_witness:
  "Lookup (Learn (set_ageing newFDB (- 5)) 7 [2,0,0,0,0,9] 1 50) 7 [2,0,0,0,0,9] 50 = Some 1 \<and>
   Lookup (reap (Learn (set_ageing newFDB (- 5)) 7 [2,0,0,0,0,9] 1 50) 50) 7 [2,0,0,0,0,9] 50 = None"
  using negative_ageing_disagrees
    [of "Learn (set_ageing newFDB (- 5)) 7 [2,0,0,0,0,9] 1 50" 7 "[2,0,0,0,0,9]" "\<lparr>portIdx = 1, seenAt = 50\<rparr>" 50]
  by (simp add: set_ageing_def table_Learn)

end
