(* ===== verification/FdbRace.thy ===== *)
theory FdbRace
  imports Fdb
begin

text \<open>
  The forwarding database as concurrent Go code (\<open>internal/goswitch/fdb.go\<close>): an explicit heap of
  entries, a table of pointers to them, one read-write lock, and threads whose steps interleave
  freely. A thread's program counter names the next statement of \<open>Learn\<close>, \<open>Lookup\<close> or \<open>reap\<close>.
  A section under \<open>RLock\<close> is a single map read, so it is one step that needs the writer lock to be
  free; a section under \<open>Lock\<close> is split at every access. Reads and writes of an entry outside
  the lock are steps of their own: this is where the code races.

  Ghost state: \<open>calls\<close> are the (key, port) pairs some Learn was called with so far, \<open>owner\<close> maps
  an allocated entry to the key it was allocated for.
\<close>

section \<open>Threads and steps\<close>

type_synonym addr = nat
type_synonym tid = nat

datatype thread =
    Idle
  | LearnRead macKey nat i64
  | LearnCheck macKey nat i64 "addr option"
  | LearnTouch macKey nat i64 addr
  | LearnLock macKey nat i64
  | LearnLocked macKey nat i64
  | LearnSetPort macKey nat i64 addr
  | LearnSetSeen macKey nat i64 addr
  | LearnInsert macKey nat i64
  | Unlocking
  | LookupRead macKey i64
  | LookupAge macKey i64 "addr option"
  | LookupSeen macKey i64 addr i64
  | LookupPort macKey addr
  | LookupDone macKey "nat option"
  | ReapAge i64
  | ReapLock i64 i64
  | ReapLoop i64 i64 "macKey list"

record shared =
  ptable :: "macKey \<rightharpoonup> addr"
  heap :: "addr \<rightharpoonup> fdb_entry"
  age_ns :: i64
  writer :: "tid option"
  threads :: "tid \<Rightarrow> thread"
  calls :: "(macKey \<times> nat) set"
  owner :: "addr \<rightharpoonup> macKey"

definition goto :: "tid \<Rightarrow> thread \<Rightarrow> shared \<Rightarrow> shared" where
  "goto t th s = s\<lparr>threads := (threads s)(t := th)\<rparr>"

definition set_entry :: "addr \<Rightarrow> fdb_entry \<Rightarrow> shared \<Rightarrow> shared" where
  "set_entry a e s = s\<lparr>heap := (heap s)(a \<mapsto> e)\<rparr>"

definition finished :: "thread \<Rightarrow> bool" where
  "finished th \<longleftrightarrow> (case th of Idle \<Rightarrow> True | LookupDone k r \<Rightarrow> True | _ \<Rightarrow> False)"

inductive fdb_step :: "tid \<Rightarrow> shared \<Rightarrow> shared \<Rightarrow> bool" for t where
  call_learn: "finished (threads s t) \<Longrightarrow>
     fdb_step t s (goto t (LearnRead k p n) (s\<lparr>calls := insert (k, p) (calls s)\<rparr>))"
| call_lookup: "finished (threads s t) \<Longrightarrow> fdb_step t s (goto t (LookupRead k n) s)"
| call_reap: "finished (threads s t) \<Longrightarrow> fdb_step t s (goto t (ReapAge n) s)"
| set_age: "fdb_step t s (s\<lparr>age_ns := d\<rparr>)"
| learn_read: "threads s t = LearnRead k p n \<Longrightarrow> writer s = None \<Longrightarrow>
     fdb_step t s (goto t (LearnCheck k p n (ptable s k)) s)"
| learn_hit: "threads s t = LearnCheck k p n (Some a) \<Longrightarrow> heap s a = Some e \<Longrightarrow> portIdx e = p \<Longrightarrow>
     fdb_step t s (goto t (LearnTouch k p n a) s)"
| learn_moved: "threads s t = LearnCheck k p n (Some a) \<Longrightarrow> heap s a = Some e \<Longrightarrow> portIdx e \<noteq> p \<Longrightarrow>
     fdb_step t s (goto t (LearnLock k p n) s)"
| learn_miss: "threads s t = LearnCheck k p n None \<Longrightarrow> fdb_step t s (goto t (LearnLock k p n) s)"
| learn_touch: "threads s t = LearnTouch k p n a \<Longrightarrow> heap s a = Some e \<Longrightarrow>
     fdb_step t s (goto t Idle (set_entry a (e\<lparr>seenAt := n\<rparr>) s))"
| learn_lock: "threads s t = LearnLock k p n \<Longrightarrow> writer s = None \<Longrightarrow>
     fdb_step t s (goto t (LearnLocked k p n) (s\<lparr>writer := Some t\<rparr>))"
| learn_found: "threads s t = LearnLocked k p n \<Longrightarrow> ptable s k = Some a \<Longrightarrow>
     fdb_step t s (goto t (LearnSetPort k p n a) s)"
| learn_absent: "threads s t = LearnLocked k p n \<Longrightarrow> ptable s k = None \<Longrightarrow>
     fdb_step t s (goto t (LearnInsert k p n) s)"
| learn_set_port: "threads s t = LearnSetPort k p n a \<Longrightarrow> heap s a = Some e \<Longrightarrow>
     fdb_step t s (goto t (LearnSetSeen k p n a) (set_entry a (e\<lparr>portIdx := p\<rparr>) s))"
| learn_set_seen: "threads s t = LearnSetSeen k p n a \<Longrightarrow> heap s a = Some e \<Longrightarrow>
     fdb_step t s (goto t Unlocking (set_entry a (e\<lparr>seenAt := n\<rparr>) s))"
| learn_insert: "threads s t = LearnInsert k p n \<Longrightarrow> heap s a = None \<Longrightarrow>
     fdb_step t s (goto t Unlocking
       ((set_entry a \<lparr>portIdx = p, seenAt = n\<rparr> s)\<lparr>ptable := (ptable s)(k \<mapsto> a), owner := (owner s)(a \<mapsto> k)\<rparr>))"
| unlock: "threads s t = Unlocking \<Longrightarrow> fdb_step t s (goto t Idle (s\<lparr>writer := None\<rparr>))"
| lookup_read: "threads s t = LookupRead k n \<Longrightarrow> writer s = None \<Longrightarrow>
     fdb_step t s (goto t (LookupAge k n (ptable s k)) s)"
| lookup_miss: "threads s t = LookupAge k n None \<Longrightarrow> fdb_step t s (goto t (LookupDone k None) s)"
| lookup_aged: "threads s t = LookupAge k n (Some a) \<Longrightarrow> 0 < sint (age_ns s) \<Longrightarrow>
     fdb_step t s (goto t (LookupSeen k n a (age_ns s)) s)"
| lookup_ageless: "threads s t = LookupAge k n (Some a) \<Longrightarrow> \<not> 0 < sint (age_ns s) \<Longrightarrow>
     fdb_step t s (goto t (LookupPort k a) s)"
| lookup_expired: "threads s t = LookupSeen k n a d \<Longrightarrow> heap s a = Some e \<Longrightarrow> older_than n (seenAt e) d \<Longrightarrow>
     fdb_step t s (goto t (LookupDone k None) s)"
| lookup_fresh: "threads s t = LookupSeen k n a d \<Longrightarrow> heap s a = Some e \<Longrightarrow> \<not> older_than n (seenAt e) d \<Longrightarrow>
     fdb_step t s (goto t (LookupPort k a) s)"
| lookup_port: "threads s t = LookupPort k a \<Longrightarrow> heap s a = Some e \<Longrightarrow>
     fdb_step t s (goto t (LookupDone k (Some (portIdx e))) s)"
| reap_off: "threads s t = ReapAge n \<Longrightarrow> age_ns s = 0 \<Longrightarrow> fdb_step t s (goto t Idle s)"
| reap_on: "threads s t = ReapAge n \<Longrightarrow> age_ns s \<noteq> 0 \<Longrightarrow> fdb_step t s (goto t (ReapLock n (age_ns s)) s)"
| reap_lock: "threads s t = ReapLock n d \<Longrightarrow> writer s = None \<Longrightarrow> set ks = dom (ptable s) \<Longrightarrow> distinct ks \<Longrightarrow>
     fdb_step t s (goto t (ReapLoop n d ks) (s\<lparr>writer := Some t\<rparr>))"
| reap_delete: "threads s t = ReapLoop n d (k # ks) \<Longrightarrow> ptable s k = Some a \<Longrightarrow> heap s a = Some e \<Longrightarrow>
     older_than n (seenAt e) d \<Longrightarrow>
     fdb_step t s (goto t (ReapLoop n d ks) (s\<lparr>ptable := (ptable s)(k := None)\<rparr>))"
| reap_keep: "threads s t = ReapLoop n d (k # ks) \<Longrightarrow> ptable s k = Some a \<Longrightarrow> heap s a = Some e \<Longrightarrow>
     \<not> older_than n (seenAt e) d \<Longrightarrow> fdb_step t s (goto t (ReapLoop n d ks) s)"
| reap_end: "threads s t = ReapLoop n d [] \<Longrightarrow> fdb_step t s (goto t Unlocking s)"

definition init_shared :: shared where
  "init_shared = \<lparr>ptable = Map.empty, heap = Map.empty, age_ns = 0, writer = None,
     threads = (\<lambda>_. Idle), calls = {}, owner = Map.empty\<rparr>"

inductive fdb_reach :: "shared \<Rightarrow> bool" where
  init: "fdb_reach init_shared"
| step: "fdb_reach s \<Longrightarrow> fdb_step t s s' \<Longrightarrow> fdb_reach s'"

section \<open>The invariant\<close>

text \<open>What a thread knows: the calls it stands for were made, its pointers belong to its key.\<close>

fun thread_ok :: "(addr \<rightharpoonup> macKey) \<Rightarrow> (macKey \<times> nat) set \<Rightarrow> thread \<Rightarrow> bool" where
  "thread_ok ow cs (LearnRead k p n) = ((k, p) \<in> cs)"
| "thread_ok ow cs (LearnCheck k p n r) = ((k, p) \<in> cs \<and> (\<forall>a. r = Some a \<longrightarrow> ow a = Some k))"
| "thread_ok ow cs (LearnTouch k p n a) = ((k, p) \<in> cs \<and> ow a = Some k)"
| "thread_ok ow cs (LearnLock k p n) = ((k, p) \<in> cs)"
| "thread_ok ow cs (LearnLocked k p n) = ((k, p) \<in> cs)"
| "thread_ok ow cs (LearnSetPort k p n a) = ((k, p) \<in> cs \<and> ow a = Some k)"
| "thread_ok ow cs (LearnSetSeen k p n a) = ((k, p) \<in> cs \<and> ow a = Some k)"
| "thread_ok ow cs (LearnInsert k p n) = ((k, p) \<in> cs)"
| "thread_ok ow cs (LookupAge k n r) = (\<forall>a. r = Some a \<longrightarrow> ow a = Some k)"
| "thread_ok ow cs (LookupSeen k n a d) = (ow a = Some k)"
| "thread_ok ow cs (LookupPort k a) = (ow a = Some k)"
| "thread_ok ow cs (LookupDone k r) = (\<forall>p. r = Some p \<longrightarrow> (k, p) \<in> cs)"
| "thread_ok ow cs th = True"

fun critical :: "thread \<Rightarrow> bool" where
  "critical (LearnLocked k p n) = True"
| "critical (LearnSetPort k p n a) = True"
| "critical (LearnSetSeen k p n a) = True"
| "critical (LearnInsert k p n) = True"
| "critical Unlocking = True"
| "critical (ReapLoop n d ks) = True"
| "critical th = False"

lemma finished_cases: "finished th \<Longrightarrow> th = Idle \<or> (\<exists>k r. th = LookupDone k r)"
  by (cases th) (simp_all add: finished_def)

lemma finished_not_critical: "finished th \<Longrightarrow> \<not> critical th"
  by (cases th) (simp_all add: finished_def)

lemma thread_ok_mono:
  assumes "thread_ok ow cs th" and "\<And>a k. ow a = Some k \<Longrightarrow> ow' a = Some k" and "cs \<subseteq> cs'"
  shows "thread_ok ow' cs' th"
  using assms by (cases th) auto

definition heap_ok :: "shared \<Rightarrow> bool" where
  "heap_ok s \<longleftrightarrow> dom (heap s) = dom (owner s) \<and>
     (\<forall>a e k. heap s a = Some e \<longrightarrow> owner s a = Some k \<longrightarrow> (k, portIdx e) \<in> calls s) \<and>
     (\<forall>k a. ptable s k = Some a \<longrightarrow> owner s a = Some k)"

definition lock_ok :: "shared \<Rightarrow> bool" where
  "lock_ok s \<longleftrightarrow> (\<forall>t. critical (threads s t) \<longleftrightarrow> writer s = Some t)"

definition race_inv :: "shared \<Rightarrow> bool" where
  "race_inv s \<longleftrightarrow> heap_ok s \<and> lock_ok s \<and> (\<forall>t. thread_ok (owner s) (calls s) (threads s t))"

lemma goto_sel [simp]:
  "ptable (goto t th s) = ptable s" "heap (goto t th s) = heap s" "age_ns (goto t th s) = age_ns s"
  "writer (goto t th s) = writer s" "calls (goto t th s) = calls s" "owner (goto t th s) = owner s"
  "threads (goto t th s) u = (if u = t then th else threads s u)"
  by (simp_all add: goto_def)

lemma set_entry_sel [simp]:
  "ptable (set_entry a e s) = ptable s" "heap (set_entry a e s) = (heap s)(a \<mapsto> e)"
  "age_ns (set_entry a e s) = age_ns s" "writer (set_entry a e s) = writer s"
  "calls (set_entry a e s) = calls s" "owner (set_entry a e s) = owner s"
  "threads (set_entry a e s) = threads s"
  by (simp_all add: set_entry_def)

lemma race_inv_thread: "race_inv s \<Longrightarrow> threads s t = th \<Longrightarrow> thread_ok (owner s) (calls s) th"
  by (auto simp: race_inv_def)

lemma race_inv_goto [wf_intros]:
  "race_inv s \<Longrightarrow> thread_ok (owner s) (calls s) th \<Longrightarrow> critical th = critical (threads s t) \<Longrightarrow>
     race_inv (goto t th s)"
  by (auto simp: race_inv_def heap_ok_def lock_ok_def)

lemma race_inv_call [wf_intros]: "race_inv s \<Longrightarrow> race_inv (s\<lparr>calls := insert c (calls s)\<rparr>)"
  by (auto simp: race_inv_def heap_ok_def lock_ok_def intro: thread_ok_mono)

lemma race_inv_age [wf_intros]: "race_inv s \<Longrightarrow> race_inv (s\<lparr>age_ns := d\<rparr>)"
  by (auto simp: race_inv_def heap_ok_def lock_ok_def)

lemma race_inv_acquire [wf_intros]:
  "race_inv s \<Longrightarrow> writer s = None \<Longrightarrow> critical th \<Longrightarrow> thread_ok (owner s) (calls s) th \<Longrightarrow>
     race_inv (goto t th (s\<lparr>writer := Some t\<rparr>))"
  by (auto simp: race_inv_def heap_ok_def lock_ok_def)

lemma race_inv_release [wf_intros]:
  "race_inv s \<Longrightarrow> critical (threads s t) \<Longrightarrow> race_inv (goto t Idle (s\<lparr>writer := None\<rparr>))"
  by (auto simp: race_inv_def heap_ok_def lock_ok_def)

lemma race_inv_set_entry [wf_intros]:
  assumes "race_inv s" and "heap s a = Some e"
    and "\<And>k. owner s a = Some k \<Longrightarrow> portIdx e' = portIdx e \<or> (k, portIdx e') \<in> calls s"
  shows "race_inv (set_entry a e' s)"
  using assms by (fastforce simp: race_inv_def heap_ok_def lock_ok_def)

lemma race_inv_insert [wf_intros]:
  assumes inv: "race_inv s" and fresh: "heap s a = None" and call: "(k, p) \<in> calls s"
  shows "race_inv ((set_entry a \<lparr>portIdx = p, seenAt = n\<rparr> s)
           \<lparr>ptable := (ptable s)(k \<mapsto> a), owner := (owner s)(a \<mapsto> k)\<rparr>)"
proof -
  have none: "owner s a = None" using inv fresh unfolding race_inv_def heap_ok_def by (metis domIff)
  have "thread_ok ((owner s)(a \<mapsto> k)) (calls s) th" if "thread_ok (owner s) (calls s) th" for th
    by (rule thread_ok_mono [OF that]) (use none in \<open>auto split: if_splits\<close>)
  then show ?thesis
    using inv none call by (auto simp: race_inv_def heap_ok_def lock_ok_def)
qed

lemma race_inv_delete [wf_intros]: "race_inv s \<Longrightarrow> race_inv (s\<lparr>ptable := (ptable s)(k := None)\<rparr>)"
  by (auto simp: race_inv_def heap_ok_def lock_ok_def)

lemma race_inv_owner: "race_inv s \<Longrightarrow> ptable s k = Some a \<Longrightarrow> owner s a = Some k"
  by (simp add: race_inv_def heap_ok_def)

lemma race_inv_entry:
  "race_inv s \<Longrightarrow> owner s a = Some k \<Longrightarrow> \<exists>e. heap s a = Some e \<and> (k, portIdx e) \<in> calls s"
  unfolding race_inv_def heap_ok_def by (metis domD domI)

lemma fdb_step_inv: "fdb_step t s s' \<Longrightarrow> race_inv s \<Longrightarrow> race_inv s'"
proof (induction rule: fdb_step.induct)
  case (lookup_port s k a e)
  then have "owner s a = Some k" using race_inv_thread by fastforce
  then have "(k, portIdx e) \<in> calls s"
    using race_inv_entry [OF lookup_port(3), of a k] lookup_port(2) by auto
  with lookup_port show ?case by (auto intro!: wf_intros)
next
  case (learn_read s k p n)
  then have "(k, p) \<in> calls s" using race_inv_thread by fastforce
  with learn_read show ?case by (auto intro!: race_inv_goto dest: race_inv_owner)
next
  case (learn_found s k p n a)
  then have "(k, p) \<in> calls s" using race_inv_thread by fastforce
  with learn_found show ?case by (auto intro!: race_inv_goto dest: race_inv_owner)
next
  case (learn_lock s k p n)
  then have "(k, p) \<in> calls s" using race_inv_thread by fastforce
  with learn_lock show ?case by (intro race_inv_acquire) auto
next
  case (reap_lock s n d ks)
  then show ?case by (intro race_inv_acquire) auto
next
  case (learn_insert s k p n a)
  then have "(k, p) \<in> calls s" using race_inv_thread by fastforce
  with learn_insert show ?case by (auto intro!: wf_intros)
next
  case (learn_set_port s k p n a e)
  then have "(k, p) \<in> calls s" "owner s a = Some k" using race_inv_thread by fastforce+
  with learn_set_port show ?case by (auto intro!: wf_intros)
qed (auto intro!: wf_intros race_inv_owner dest: race_inv_thread finished_not_critical)

lemma fdb_reach_inv: "fdb_reach s \<Longrightarrow> race_inv s"
proof (induction rule: fdb_reach.induct)
  case init
  show ?case by (simp add: race_inv_def heap_ok_def lock_ok_def init_shared_def)
next
  case (step s t s')
  then show ?case by (blast intro: fdb_step_inv)
qed

section \<open>Refinement of the atomic model\<close>

text \<open>
  \<open>fdb_abs\<close> forgets pointers. A thread that runs undisturbed (\<open>own_step\<close>: it takes all the steps
  and moves in each of them) transforms it as the atomic operation of theory \<open>Fdb\<close> does, and
  it returns: \<open>rank\<close> bounds its remaining steps.
\<close>

definition fdb_abs :: "shared \<Rightarrow> FDB" where
  "fdb_abs s = \<lparr>table = (\<lambda>k. Option.bind (ptable s k) (heap s)), ageing = age_ns s\<rparr>"

definition own_step :: "tid \<Rightarrow> shared \<Rightarrow> shared \<Rightarrow> bool" where
  "own_step t s s' \<longleftrightarrow> fdb_step t s s' \<and> \<not> finished (threads s t) \<and> threads s' t \<noteq> threads s t"

lemma fdb_abs_goto [simp]: "fdb_abs (goto t th s) = fdb_abs s"
  by (simp add: fdb_abs_def)

lemma fdb_abs_writer [simp]: "fdb_abs (s\<lparr>writer := w\<rparr>) = fdb_abs s"
  by (simp add: fdb_abs_def)

lemma fdb_abs_calls [simp]: "fdb_abs (s\<lparr>calls := cs\<rparr>) = fdb_abs s"
  by (simp add: fdb_abs_def)

lemma ptable_inj: "race_inv s \<Longrightarrow> ptable s k = Some a \<Longrightarrow> ptable s k' = Some a \<Longrightarrow> k' = k"
  using race_inv_owner [of s k a] race_inv_owner [of s k' a] by simp

lemma fdb_abs_set_entry:
  assumes "race_inv s" and "ptable s k = Some a"
  shows "fdb_abs (set_entry a e s) = (fdb_abs s)\<lparr>table := (table (fdb_abs s))(k \<mapsto> e)\<rparr>"
proof -
  have "Option.bind (ptable s k') ((heap s)(a \<mapsto> e)) =
        ((\<lambda>k. Option.bind (ptable s k) (heap s))(k \<mapsto> e)) k'" for k'
  proof (cases "k' = k")
    case True
    then show ?thesis using assms(2) by simp
  next
    case False
    then have "ptable s k' \<noteq> Some a" using ptable_inj [OF assms] by blast
    with False show ?thesis by (cases "ptable s k'") auto
  qed
  then show ?thesis by (simp add: fdb_abs_def fun_eq_iff)
qed

lemma seenAt_update [simp]: "portIdx e = p \<Longrightarrow> e\<lparr>seenAt := n\<rparr> = \<lparr>portIdx = p, seenAt = n\<rparr>"
  by (cases e) simp

lemma fdb_abs_insert:
  assumes "race_inv s" and "heap s a = None"
  shows "fdb_abs ((set_entry a e s)\<lparr>ptable := (ptable s)(k \<mapsto> a), owner := ow\<rparr>) =
         (fdb_abs s)\<lparr>table := (table (fdb_abs s))(k \<mapsto> e)\<rparr>"
proof -
  have "ptable s k' \<noteq> Some a" for k'
    using assms race_inv_owner [OF assms(1)] race_inv_entry [OF assms(1)] by fastforce
  then show ?thesis by (auto simp: fdb_abs_def fun_eq_iff split: bind_split)
qed

text \<open>Where a Learn that started in \<open>s0\<close> stands, and what it has done so far.\<close>

definition learn_progress :: "tid \<Rightarrow> macKey \<Rightarrow> nat \<Rightarrow> i64 \<Rightarrow> shared \<Rightarrow> shared \<Rightarrow> bool" where
  "learn_progress t k p n s0 s \<longleftrightarrow> race_inv s \<and>
     (case threads s t of
        LearnRead k' p' n' \<Rightarrow> k' = k \<and> p' = p \<and> n' = n \<and> fdb_abs s = fdb_abs s0
      | LearnCheck k' p' n' r \<Rightarrow> k' = k \<and> p' = p \<and> n' = n \<and> r = ptable s k \<and> fdb_abs s = fdb_abs s0
      | LearnTouch k' p' n' a \<Rightarrow> k' = k \<and> p' = p \<and> n' = n \<and> ptable s k = Some a \<and>
          (\<exists>e. heap s a = Some e \<and> portIdx e = p) \<and> fdb_abs s = fdb_abs s0
      | LearnLock k' p' n' \<Rightarrow> k' = k \<and> p' = p \<and> n' = n \<and> fdb_abs s = fdb_abs s0
      | LearnLocked k' p' n' \<Rightarrow> k' = k \<and> p' = p \<and> n' = n \<and> fdb_abs s = fdb_abs s0
      | LearnSetPort k' p' n' a \<Rightarrow> k' = k \<and> p' = p \<and> n' = n \<and> ptable s k = Some a \<and> fdb_abs s = fdb_abs s0
      | LearnSetSeen k' p' n' a \<Rightarrow> k' = k \<and> p' = p \<and> n' = n \<and> ptable s k = Some a \<and>
          (\<exists>e. heap s a = Some e \<and> portIdx e = p \<and>
             fdb_abs s = (fdb_abs s0)\<lparr>table := (table (fdb_abs s0))(k \<mapsto> e)\<rparr>)
      | LearnInsert k' p' n' \<Rightarrow> k' = k \<and> p' = p \<and> n' = n \<and> ptable s k = None \<and> fdb_abs s = fdb_abs s0
      | Unlocking \<Rightarrow> fdb_abs s = (fdb_abs s0)\<lparr>table := (table (fdb_abs s0))(k \<mapsto> \<lparr>portIdx = p, seenAt = n\<rparr>)\<rparr>
      | Idle \<Rightarrow> fdb_abs s = (fdb_abs s0)\<lparr>table := (table (fdb_abs s0))(k \<mapsto> \<lparr>portIdx = p, seenAt = n\<rparr>)\<rparr>
      | _ \<Rightarrow> False)"

lemma learn_progress_step:
  assumes "own_step t s s'" and "learn_progress t k p n s0 s"
  shows "learn_progress t k p n s0 s'"
proof -
  have step: "fdb_step t s s'" and busy: "\<not> finished (threads s t)" and moved: "threads s' t \<noteq> threads s t"
    using assms(1) by (simp_all add: own_step_def)
  have inv: "race_inv s" "race_inv s'"
    using assms(2) fdb_step_inv [OF step] by (simp_all add: learn_progress_def)
  from step show ?thesis
  proof cases
    case (learn_touch k' p' n' a e)
    then have "ptable s k = Some a" using assms(2) by (simp add: learn_progress_def)
    with learn_touch inv assms(2) show ?thesis
      by (auto simp: learn_progress_def fdb_abs_set_entry)
  next
    case (learn_set_port k' p' n' a e)
    then have "ptable s k = Some a" using assms(2) by (simp add: learn_progress_def)
    with learn_set_port inv assms(2) show ?thesis
      by (auto simp: learn_progress_def fdb_abs_set_entry)
  next
    case (learn_set_seen k' p' n' a e)
    then have "ptable s k = Some a" using assms(2) by (simp add: learn_progress_def)
    with learn_set_seen inv assms(2) show ?thesis
      by (auto simp: learn_progress_def fdb_abs_set_entry)
  next
    case (learn_insert k' p' n' a)
    with inv assms(2) show ?thesis
      by (auto simp: learn_progress_def fdb_abs_insert)
  qed (use inv assms(2) busy moved in \<open>auto simp: learn_progress_def finished_def\<close>)
qed

lemma learn_progress_star:
  "(own_step t)\<^sup>*\<^sup>* s s' \<Longrightarrow> learn_progress t k p n s0 s \<Longrightarrow> learn_progress t k p n s0 s'"
  by (induction rule: rtranclp_induct) (blast intro: learn_progress_step)+

lemma macKey_of_sels [simp]: "macKey_of (key_vid k) (key_mac k) = k"
  by (simp add: macKey_of_def)

lemma learn_progress_done:
  assumes "learn_progress t k p n s0 s" and "finished (threads s t)"
  shows "fdb_abs s = Learn (fdb_abs s0) (key_vid k) (key_mac k) p n"
proof -
  have "fdb_abs s = (fdb_abs s0)\<lparr>table := (table (fdb_abs s0))(k \<mapsto> \<lparr>portIdx = p, seenAt = n\<rparr>)\<rparr>"
    using assms finished_cases [OF assms(2)] by (auto simp: learn_progress_def)
  moreover have "Learn (fdb_abs s0) (key_vid k) (key_mac k) p n =
      (fdb_abs s0)\<lparr>table := (table (fdb_abs s0))(k \<mapsto> \<lparr>portIdx = p, seenAt = n\<rparr>)\<rparr>"
    by (rule FDB.equality) (simp_all add: table_Learn)
  ultimately show ?thesis by simp
qed

lemma Lookup_fdb_abs:
  "Lookup (fdb_abs s) (key_vid k) (key_mac k) n =
     (case ptable s k of
        None \<Rightarrow> None
      | Some a \<Rightarrow> (case heap s a of
                      None \<Rightarrow> None
                    | Some e \<Rightarrow> if 0 < sint (age_ns s) \<and> older_than n (seenAt e) (age_ns s) then None
                                else Some (portIdx e)))"
  by (simp add: Lookup_def fdb_abs_def Let_def split: option.split)

text \<open>Where a Lookup stands; the table never changes.\<close>

definition lookup_progress :: "tid \<Rightarrow> macKey \<Rightarrow> i64 \<Rightarrow> shared \<Rightarrow> shared \<Rightarrow> bool" where
  "lookup_progress t k n s0 s \<longleftrightarrow> ptable s = ptable s0 \<and> heap s = heap s0 \<and> age_ns s = age_ns s0 \<and>
     (case threads s t of
        LookupRead k' n' \<Rightarrow> k' = k \<and> n' = n
      | LookupAge k' n' r \<Rightarrow> k' = k \<and> n' = n \<and> r = ptable s0 k
      | LookupSeen k' n' a d \<Rightarrow> k' = k \<and> n' = n \<and> ptable s0 k = Some a \<and> d = age_ns s0 \<and> 0 < sint d
      | LookupPort k' a \<Rightarrow> k' = k \<and> ptable s0 k = Some a \<and>
          (\<forall>e. heap s0 a = Some e \<longrightarrow> \<not> (0 < sint (age_ns s0) \<and> older_than n (seenAt e) (age_ns s0)))
      | LookupDone k' r \<Rightarrow> k' = k \<and> r = Lookup (fdb_abs s0) (key_vid k) (key_mac k) n
      | _ \<Rightarrow> False)"

lemma lookup_progress_step:
  assumes "own_step t s s'" and "lookup_progress t k n s0 s"
  shows "lookup_progress t k n s0 s'"
proof -
  have step: "fdb_step t s s'" and busy: "\<not> finished (threads s t)" and moved: "threads s' t \<noteq> threads s t"
    using assms(1) by (simp_all add: own_step_def)
  from step show ?thesis
    by cases (use assms(2) busy moved in \<open>auto simp: lookup_progress_def finished_def Lookup_fdb_abs split: option.split\<close>)
qed

lemma lookup_progress_star:
  "(own_step t)\<^sup>*\<^sup>* s s' \<Longrightarrow> lookup_progress t k n s0 s \<Longrightarrow> lookup_progress t k n s0 s'"
  by (induction rule: rtranclp_induct) (blast intro: lookup_progress_step)+

text \<open>Where a reap stands: the keys still on its list are as they were, the others are done.\<close>

definition reap_progress :: "tid \<Rightarrow> i64 \<Rightarrow> shared \<Rightarrow> shared \<Rightarrow> bool" where
  "reap_progress t n s0 s \<longleftrightarrow> age_ns s = age_ns s0 \<and>
     (case threads s t of
        ReapAge n' \<Rightarrow> n' = n \<and> fdb_abs s = fdb_abs s0
      | ReapLock n' d \<Rightarrow> n' = n \<and> d = age_ns s0 \<and> d \<noteq> 0 \<and> fdb_abs s = fdb_abs s0
      | ReapLoop n' d ks \<Rightarrow> n' = n \<and> d = age_ns s0 \<and> d \<noteq> 0 \<and> distinct ks \<and>
          (\<forall>k. table (fdb_abs s) k = (if k \<in> set ks then table (fdb_abs s0) k else table (reap (fdb_abs s0) n) k))
      | Unlocking \<Rightarrow> fdb_abs s = reap (fdb_abs s0) n
      | Idle \<Rightarrow> fdb_abs s = reap (fdb_abs s0) n
      | _ \<Rightarrow> False)"

lemma ageing_fdb_abs [simp]: "ageing (fdb_abs s) = age_ns s"
  by (simp add: fdb_abs_def)

lemma table_fdb_abs: "table (fdb_abs s) k = Option.bind (ptable s k) (heap s)"
  by (simp add: fdb_abs_def)

lemma table_fdb_abs_delete [simp]:
  "table (fdb_abs (s\<lparr>ptable := (ptable s)(k := None)\<rparr>)) k' = (if k' = k then None else table (fdb_abs s) k')"
  by (simp add: fdb_abs_def)

lemma fdb_abs_eqI: "age_ns s = ageing f \<Longrightarrow> (\<And>k. table (fdb_abs s) k = table f k) \<Longrightarrow> fdb_abs s = f"
  by (cases f) (auto simp: fdb_abs_def)

lemma reap_progress_step:
  assumes "own_step t s s'" and "reap_progress t n s0 s"
  shows "reap_progress t n s0 s'"
proof -
  have step: "fdb_step t s s'" and busy: "\<not> finished (threads s t)" and moved: "threads s' t \<noteq> threads s t"
    using assms(1) by (simp_all add: own_step_def)
  from step show ?thesis
  proof cases
    case (reap_lock n' d ks)
    then have abs: "fdb_abs s = fdb_abs s0" using assms(2) by (simp add: reap_progress_def)
    have "table (fdb_abs s0) k = None" if "k \<notin> set ks" for k
      using that reap_lock by (auto simp: abs [symmetric] table_fdb_abs)
    with reap_lock show ?thesis using assms(2)
      by (auto simp: reap_progress_def table_reap split: option.split)
  next
    case (reap_delete n' d k ks a e)
    then have k: "table (fdb_abs s0) k = Some e"
      using assms(2) table_fdb_abs [of s k] by (simp add: reap_progress_def)
    have "table (reap (fdb_abs s0) n) k = (if age_ns s0 \<noteq> 0 \<and> older_than n (seenAt e) (age_ns s0) then None else Some e)"
      by (simp add: table_reap k)
    with reap_delete k show ?thesis using assms(2)
      by (auto simp: reap_progress_def)
  next
    case (reap_keep n' d k ks a e)
    then have k: "table (fdb_abs s0) k = Some e"
      using assms(2) table_fdb_abs [of s k] by (simp add: reap_progress_def)
    have "table (reap (fdb_abs s0) n) k = (if age_ns s0 \<noteq> 0 \<and> older_than n (seenAt e) (age_ns s0) then None else Some e)"
      by (simp add: table_reap k)
    with reap_keep k show ?thesis using assms(2)
      by (auto simp: reap_progress_def)
  next
    case (reap_end n' d)
    then show ?thesis using assms(2)
      by (auto simp: reap_progress_def intro!: fdb_abs_eqI)
  next
    case (reap_off n')
    then show ?thesis using assms(2) by (auto simp: reap_progress_def reap_def)
  qed (use assms(2) busy moved in \<open>auto simp: reap_progress_def finished_def\<close>)
qed

lemma reap_progress_star:
  "(own_step t)\<^sup>*\<^sup>* s s' \<Longrightarrow> reap_progress t n s0 s \<Longrightarrow> reap_progress t n s0 s'"
  by (induction rule: rtranclp_induct) (blast intro: reap_progress_step)+

section \<open>Progress\<close>

definition fin_ok :: "shared \<Rightarrow> bool" where
  "fin_ok s \<longleftrightarrow> finite (dom (ptable s)) \<and> finite (dom (heap s)) \<and>
     (\<forall>t n d ks. threads s t = ReapLoop n d ks \<longrightarrow> distinct ks \<and> set ks \<subseteq> dom (ptable s))"

lemma dom_fun_upd_None: "dom (m(k := None)) = dom m - {k}"
  by auto

lemma only_writer: "race_inv s \<Longrightarrow> critical (threads s t) \<Longrightarrow> threads s u = ReapLoop n d ks \<Longrightarrow> u = t"
  by (metis critical.simps(6) lock_ok_def option.inject race_inv_def)

lemma fdb_step_fin: "fdb_step t s s' \<Longrightarrow> race_inv s \<Longrightarrow> fin_ok s \<Longrightarrow> fin_ok s'"
proof (induction rule: fdb_step.induct)
  case (reap_delete s n d k ks a e)
  then have "u = t" if "threads s u = ReapLoop n' d' ks'" for u n' d' ks'
    using that only_writer [of s t u] by simp
  with reap_delete show ?case by (fastforce simp: fin_ok_def dom_fun_upd_None)
next
  case (learn_insert s k p n a)
  then have "u = t" if "threads s u = ReapLoop n' d' ks'" for u n' d' ks'
    using that only_writer [of s t u] by simp
  with learn_insert show ?case by (fastforce simp: fin_ok_def)
next
  case (reap_keep s n d k ks a e)
  then show ?case by (fastforce simp: fin_ok_def)
qed (auto simp: fin_ok_def insert_absorb)

lemma fdb_reach_fin: "fdb_reach s \<Longrightarrow> fin_ok s"
proof (induction rule: fdb_reach.induct)
  case init
  show ?case by (simp add: fin_ok_def init_shared_def)
next
  case (step s t s')
  then show ?case by (blast intro: fdb_step_fin fdb_reach_inv)
qed

fun blocks :: "thread \<Rightarrow> bool" where
  "blocks (LearnRead k p n) = True"
| "blocks (LearnLock k p n) = True"
| "blocks (LookupRead k n) = True"
| "blocks (ReapLock n d) = True"
| "blocks th = False"

fun rank :: "shared \<Rightarrow> thread \<Rightarrow> nat" where
  "rank s (LearnRead k p n) = 7"
| "rank s (LearnCheck k p n r) = 6"
| "rank s (LearnTouch k p n a) = 1"
| "rank s (LearnLock k p n) = 5"
| "rank s (LearnLocked k p n) = 4"
| "rank s (LearnSetPort k p n a) = 3"
| "rank s (LearnSetSeen k p n a) = 2"
| "rank s (LearnInsert k p n) = 2"
| "rank s Unlocking = 1"
| "rank s (LookupRead k n) = 4"
| "rank s (LookupAge k n r) = 3"
| "rank s (LookupSeen k n a d) = 2"
| "rank s (LookupPort k a) = 1"
| "rank s (ReapAge n) = 4 + card (dom (ptable s))"
| "rank s (ReapLock n d) = 3 + card (dom (ptable s))"
| "rank s (ReapLoop n d ks) = 2 + length ks"
| "rank s Idle = 0"
| "rank s (LookupDone k r) = 0"

lemma own_step_rank: "own_step t s s' \<Longrightarrow> rank s' (threads s' t) < rank s (threads s t)"
  unfolding own_step_def
proof (elim conjE)
  assume step: "fdb_step t s s'" and busy: "\<not> finished (threads s t)" and moved: "threads s' t \<noteq> threads s t"
  from step show ?thesis
  proof cases
    case (reap_lock n d ks)
    then have "length ks = card (dom (ptable s))" using distinct_card by metis
    with reap_lock show ?thesis by simp
  qed (use busy moved in \<open>auto simp: finished_def\<close>)
qed

lemma own_step_exists:
  assumes reach: "fdb_reach s" and busy: "\<not> finished (threads s t)"
    and free: "blocks (threads s t) \<longrightarrow> writer s = None"
  shows "\<exists>s'. own_step t s s'"
proof -
  have inv: "race_inv s" and fin: "fin_ok s" using reach fdb_reach_inv fdb_reach_fin by auto
  have ok: "thread_ok (owner s) (calls s) (threads s t)" using inv by (simp add: race_inv_def)
  have entry: "\<exists>e. heap s a = Some e" if "owner s a = Some k" for a k
    using race_inv_entry [OF inv that] by blast
  have entry': "\<exists>e. heap s a = Some e" if "ptable s k = Some a" for a k
    using entry race_inv_owner [OF inv that] by blast
  have "infinite (UNIV :: addr set)" by simp
  then have "UNIV \<noteq> dom (heap s)" using fin by (auto simp: fin_ok_def)
  then obtain b where b: "heap s b = None" by auto
  obtain l where l: "set l = dom (ptable s)" "distinct l"
    using finite_distinct_list [of "dom (ptable s)"] fin unfolding fin_ok_def by blast
  have moves: "\<exists>s'. own_step t s s'" if "fdb_step t s (goto t th s1)" "th \<noteq> threads s t" for th s1
    using that busy unfolding own_step_def by (metis goto_sel(7))
  note mv = moves [OF fdb_step.learn_read] moves [OF fdb_step.learn_hit] moves [OF fdb_step.learn_moved]
    moves [OF fdb_step.learn_miss] moves [OF fdb_step.learn_touch] moves [OF fdb_step.learn_lock]
    moves [OF fdb_step.learn_found] moves [OF fdb_step.learn_absent] moves [OF fdb_step.learn_set_port]
    moves [OF fdb_step.learn_set_seen] moves [OF fdb_step.learn_insert] moves [OF fdb_step.unlock]
    moves [OF fdb_step.lookup_read] moves [OF fdb_step.lookup_miss] moves [OF fdb_step.lookup_aged]
    moves [OF fdb_step.lookup_ageless] moves [OF fdb_step.lookup_expired] moves [OF fdb_step.lookup_fresh]
    moves [OF fdb_step.lookup_port] moves [OF fdb_step.reap_off] moves [OF fdb_step.reap_on]
    moves [OF fdb_step.reap_lock] moves [OF fdb_step.reap_delete] moves [OF fdb_step.reap_keep]
    moves [OF fdb_step.reap_end]
  show ?thesis
  proof (cases "threads s t")
    case (LearnRead k p n)
    with free show ?thesis by (intro mv(1)) auto
  next
    case (LearnCheck k p n r)
    show ?thesis
    proof (cases r)
      case None
      with LearnCheck show ?thesis by (intro mv(4)) auto
    next
      case (Some a)
      with LearnCheck ok obtain e where "heap s a = Some e" using entry by auto
      with LearnCheck Some show ?thesis
        by (cases "portIdx e = p") ((rule mv(2), auto)[1], (rule mv(3), auto)[1])
    qed
  next
    case (LearnTouch k p n a)
    with ok obtain e where "heap s a = Some e" using entry by auto
    with LearnTouch show ?thesis by (intro mv(5)) auto
  next
    case (LearnLock k p n)
    with free show ?thesis by (intro mv(6)) auto
  next
    case (LearnLocked k p n)
    then show ?thesis
      by (cases "ptable s k") ((rule mv(8), auto)[1], (rule mv(7), auto)[1])
  next
    case (LearnSetPort k p n a)
    with ok obtain e where "heap s a = Some e" using entry by auto
    with LearnSetPort show ?thesis by (intro mv(9)) auto
  next
    case (LearnSetSeen k p n a)
    with ok obtain e where "heap s a = Some e" using entry by auto
    with LearnSetSeen show ?thesis by (intro mv(10)) auto
  next
    case (LearnInsert k p n)
    with b show ?thesis by (intro mv(11)) auto
  next
    case Unlocking
    then show ?thesis by (intro mv(12)) auto
  next
    case (LookupRead k n)
    with free show ?thesis by (intro mv(13)) auto
  next
    case (LookupAge k n r)
    show ?thesis
    proof (cases r)
      case None
      with LookupAge show ?thesis by (intro mv(14)) auto
    next
      case (Some a)
      with LookupAge show ?thesis
        by (cases "0 < sint (age_ns s)") ((rule mv(15), auto)[1], (rule mv(16), auto)[1])
    qed
  next
    case (LookupSeen k n a d)
    with ok obtain e where "heap s a = Some e" using entry by auto
    with LookupSeen show ?thesis
      by (cases "older_than n (seenAt e) d") ((rule mv(17), auto)[1], (rule mv(18), auto)[1])
  next
    case (LookupPort k a)
    with ok obtain e where "heap s a = Some e" using entry by auto
    with LookupPort show ?thesis by (intro mv(19)) auto
  next
    case (ReapAge n)
    then show ?thesis by (cases "age_ns s = 0") ((rule mv(20), auto)[1], (rule mv(21), auto)[1])
  next
    case (ReapLock n d)
    with free l show ?thesis by (intro mv(22)) auto
  next
    case (ReapLoop n d ks)
    show ?thesis
    proof (cases ks)
      case Nil
      with ReapLoop show ?thesis by (intro mv(25)) auto
    next
      case (Cons k ks')
      then obtain a e where "ptable s k = Some a" "heap s a = Some e"
        using fin ReapLoop entry' by (fastforce simp: fin_ok_def)
      with ReapLoop Cons show ?thesis
        by (cases "older_than n (seenAt e) d") ((rule mv(23), auto)[1], (rule mv(24), auto)[1])
    qed
  qed (use busy in \<open>simp_all add: finished_def\<close>)
qed

lemma fdb_step_writer: "fdb_step t s s' \<Longrightarrow> writer s' = writer s \<or> writer s' = None \<or> writer s' = Some t"
  by (cases rule: fdb_step.cases) auto

lemma own_step_reach: "own_step t s s' \<Longrightarrow> fdb_reach s \<Longrightarrow> fdb_reach s'"
  unfolding own_step_def by (blast intro: fdb_reach.step)

lemma critical_not_blocked: "critical th \<Longrightarrow> \<not> blocks th"
  by (cases th) simp_all

lemma own_run_finishes:
  assumes "fdb_reach s" and "writer s = None \<or> writer s = Some t"
  shows "\<exists>s'. (own_step t)\<^sup>*\<^sup>* s s' \<and> finished (threads s' t)"
  using assms
proof (induction "rank s (threads s t)" arbitrary: s rule: less_induct)
  case less
  show ?case
  proof (cases "finished (threads s t)")
    case False
    have "blocks (threads s t) \<longrightarrow> writer s = None"
      using less.prems fdb_reach_inv [OF less.prems(1)] critical_not_blocked
      by (auto simp: race_inv_def lock_ok_def)
    then obtain s1 where step: "own_step t s s1"
      using own_step_exists [OF less.prems(1) False] by blast
    have "writer s1 = None \<or> writer s1 = Some t"
      using step less.prems(2) fdb_step_writer unfolding own_step_def by metis
    then obtain s' where "(own_step t)\<^sup>*\<^sup>* s1 s'" "finished (threads s' t)"
      using less.hyps [OF own_step_rank [OF step]] own_step_reach [OF step] less.prems(1) by blast
    with step show ?thesis by (meson converse_rtranclp_into_rtranclp)
  qed blast
qed

section \<open>A schedule\<close>

text \<open>
  Two threads and one station: thread 0 has learned it on port 0. From there, thread 1 learns it
  on port 1 while thread 0 looks it up, or thread 1 reaps it while thread 0 refreshes it.
\<close>

definition kA :: macKey where
  "kA = macKey_of 1 [2, 0, 0, 0, 0, 10]"

definition duo :: "(macKey \<rightharpoonup> addr) \<Rightarrow> (addr \<rightharpoonup> fdb_entry) \<Rightarrow> i64 \<Rightarrow> tid option \<Rightarrow> thread \<Rightarrow> thread \<Rightarrow>
    (macKey \<times> nat) set \<Rightarrow> (addr \<rightharpoonup> macKey) \<Rightarrow> shared" where
  "duo pt hp d w th0 th1 cs ow =
     \<lparr>ptable = pt, heap = hp, age_ns = d, writer = w,
      threads = (\<lambda>t. if t = 0 then th0 else if t = 1 then th1 else Idle), calls = cs, owner = ow\<rparr>"

lemma duo_sel [simp]:
  "ptable (duo pt hp d w th0 th1 cs ow) = pt" "heap (duo pt hp d w th0 th1 cs ow) = hp"
  "age_ns (duo pt hp d w th0 th1 cs ow) = d" "writer (duo pt hp d w th0 th1 cs ow) = w"
  "calls (duo pt hp d w th0 th1 cs ow) = cs" "owner (duo pt hp d w th0 th1 cs ow) = ow"
  "threads (duo pt hp d w th0 th1 cs ow) 0 = th0"
  "threads (duo pt hp d w th0 th1 cs ow) (Suc 0) = th1"
  by (simp_all add: duo_def)

lemma duo_upd [simp]:
  "(duo pt hp d w th0 th1 cs ow)\<lparr>ptable := pt'\<rparr> = duo pt' hp d w th0 th1 cs ow"
  "(duo pt hp d w th0 th1 cs ow)\<lparr>age_ns := d'\<rparr> = duo pt hp d' w th0 th1 cs ow"
  "(duo pt hp d w th0 th1 cs ow)\<lparr>writer := w'\<rparr> = duo pt hp d w' th0 th1 cs ow"
  "(duo pt hp d w th0 th1 cs ow)\<lparr>calls := cs'\<rparr> = duo pt hp d w th0 th1 cs' ow"
  "(duo pt hp d w th0 th1 cs ow)\<lparr>owner := ow'\<rparr> = duo pt hp d w th0 th1 cs ow'"
  "set_entry a e (duo pt hp d w th0 th1 cs ow) = duo pt (hp(a \<mapsto> e)) d w th0 th1 cs ow"
  "goto 0 th (duo pt hp d w th0 th1 cs ow) = duo pt hp d w th th1 cs ow"
  "goto (Suc 0) th (duo pt hp d w th0 th1 cs ow) = duo pt hp d w th0 th cs ow"
  by (auto simp: duo_def set_entry_def goto_def)

lemma duo_init: "init_shared = duo Map.empty Map.empty 0 None Idle Idle {} Map.empty"
  by (simp add: duo_def init_shared_def fun_eq_iff)

definition taught :: "i64 \<Rightarrow> thread \<Rightarrow> thread \<Rightarrow> (macKey \<times> nat) set \<Rightarrow> shared" where
  "taught d th0 th1 cs =
     duo [kA \<mapsto> 0] [0 \<mapsto> \<lparr>portIdx = 0, seenAt = 0\<rparr>] d None th0 th1 (insert (kA, 0) cs) [0 \<mapsto> kA]"

lemma reach_by: "fdb_reach s \<Longrightarrow> fdb_step t s s1 \<Longrightarrow> s1 = s' \<Longrightarrow> fdb_reach s'"
  by (blast intro: fdb_reach.step)

lemma reach_taught: "fdb_reach (taught 0 Idle Idle {})"
proof -
  have "fdb_reach (duo Map.empty Map.empty 0 None Idle Idle {} Map.empty)"
    using fdb_reach.init by (simp add: duo_init)
  then have "fdb_reach (duo Map.empty Map.empty 0 None (LearnRead kA 0 0) Idle {(kA, 0)} Map.empty)"
    by (rule reach_by [OF _ fdb_step.call_learn [of _ 0 kA 0 0]]) (simp_all add: finished_def)
  then have "fdb_reach (duo Map.empty Map.empty 0 None (LearnCheck kA 0 0 None) Idle {(kA, 0)} Map.empty)"
    by (rule reach_by [OF _ fdb_step.learn_read [of _ 0 kA 0 0]]) simp_all
  then have "fdb_reach (duo Map.empty Map.empty 0 None (LearnLock kA 0 0) Idle {(kA, 0)} Map.empty)"
    by (rule reach_by [OF _ fdb_step.learn_miss [of _ 0 kA 0 0]]) simp_all
  then have "fdb_reach (duo Map.empty Map.empty 0 (Some 0) (LearnLocked kA 0 0) Idle {(kA, 0)} Map.empty)"
    by (rule reach_by [OF _ fdb_step.learn_lock [of _ 0 kA 0 0]]) simp_all
  then have "fdb_reach (duo Map.empty Map.empty 0 (Some 0) (LearnInsert kA 0 0) Idle {(kA, 0)} Map.empty)"
    by (rule reach_by [OF _ fdb_step.learn_absent [of _ 0 kA 0 0]]) simp_all
  then have "fdb_reach (duo [kA \<mapsto> 0] [0 \<mapsto> \<lparr>portIdx = 0, seenAt = 0\<rparr>] 0 (Some 0) Unlocking Idle {(kA, 0)} [0 \<mapsto> kA])"
    by (rule reach_by [OF _ fdb_step.learn_insert [of _ 0 kA 0 0 0]]) simp_all
  then show ?thesis
    by (rule reach_by [OF _ fdb_step.unlock [of _ 0]]) (simp_all add: taught_def)
qed

lemma reach_asked: "fdb_reach (taught 0 (LookupRead kA 5) Idle {})"
  by (rule reach_by [OF reach_taught fdb_step.call_lookup [of _ 0 kA 5]])
     (simp_all add: finished_def taught_def)

lemma reach_looking: "fdb_reach (taught 0 (LookupPort kA 0) Idle {})"
proof -
  have "fdb_reach (taught 0 (LookupAge kA 5 (Some 0)) Idle {})"
    by (rule reach_by [OF reach_asked fdb_step.lookup_read [of _ 0 kA 5]]) (simp_all add: taught_def)
  then show ?thesis
    by (rule reach_by [OF _ fdb_step.lookup_ageless [of _ 0 kA 5 0]]) (simp_all add: taught_def)
qed

lemma reach_looked_up: "fdb_reach (taught 0 (LookupDone kA (Some 0)) Idle {})"
proof -
  show ?thesis
    by (rule reach_by [OF reach_looking fdb_step.lookup_port [of _ 0 kA 0 "\<lparr>portIdx = 0, seenAt = 0\<rparr>"]])
       (simp_all add: taught_def)
qed

text \<open>Thread 0 is about to read the port index; thread 1, learning port 1, is about to write it.\<close>

lemma reach_race:
  "fdb_reach ((taught 0 (LookupPort kA 0) (LearnSetPort kA 1 6 0) {(kA, 1)})\<lparr>writer := Some 1\<rparr>)"
proof -
  have "fdb_reach (taught 0 (LookupPort kA 0) (LearnRead kA 1 6) {(kA, 1)})"
    by (rule reach_by [OF reach_looking fdb_step.call_learn [of _ 1 kA 1 6]])
       (simp_all add: finished_def taught_def insert_commute)
  then have "fdb_reach (taught 0 (LookupPort kA 0) (LearnCheck kA 1 6 (Some 0)) {(kA, 1)})"
    by (rule reach_by [OF _ fdb_step.learn_read [of _ 1 kA 1 6]]) (simp_all add: taught_def)
  then have "fdb_reach (taught 0 (LookupPort kA 0) (LearnLock kA 1 6) {(kA, 1)})"
    by (rule reach_by [OF _ fdb_step.learn_moved [of _ 1 kA 1 6 0 "\<lparr>portIdx = 0, seenAt = 0\<rparr>"]])
       (simp_all add: taught_def)
  then have "fdb_reach ((taught 0 (LookupPort kA 0) (LearnLocked kA 1 6) {(kA, 1)})\<lparr>writer := Some 1\<rparr>)"
    by (rule reach_by [OF _ fdb_step.learn_lock [of _ 1 kA 1 6]]) (simp_all add: taught_def)
  then show ?thesis
    by (rule reach_by [OF _ fdb_step.learn_found [of _ 1 kA 1 6 0]]) (simp_all add: taught_def)
qed

text \<open>Thread 0 found the entry on its port; before it writes the time stamp, thread 1 reaps.\<close>

definition reaped_under :: "thread \<Rightarrow> i64 \<Rightarrow> shared" where
  "reaped_under th0 seen =
     duo Map.empty [0 \<mapsto> \<lparr>portIdx = 0, seenAt = seen\<rparr>] 10 None th0 Idle {(kA, 0)} [0 \<mapsto> kA]"

lemma reach_reaped_under: "fdb_reach (reaped_under (LearnTouch kA 0 20 0) 0)"
proof -
  have old: "older_than 20 0 10" by (simp add: older_than_def)
  have "fdb_reach (taught 10 Idle Idle {})"
    by (rule reach_by [OF reach_taught fdb_step.set_age [of _ _ 10]]) (simp add: taught_def)
  then have "fdb_reach (taught 10 (LearnRead kA 0 20) Idle {})"
    by (rule reach_by [OF _ fdb_step.call_learn [of _ 0 kA 0 20]]) (simp_all add: finished_def taught_def)
  then have "fdb_reach (taught 10 (LearnCheck kA 0 20 (Some 0)) Idle {})"
    by (rule reach_by [OF _ fdb_step.learn_read [of _ 0 kA 0 20]]) (simp_all add: taught_def)
  then have "fdb_reach (taught 10 (LearnTouch kA 0 20 0) Idle {})"
    by (rule reach_by [OF _ fdb_step.learn_hit [of _ 0 kA 0 20 0 "\<lparr>portIdx = 0, seenAt = 0\<rparr>"]])
       (simp_all add: taught_def)
  then have "fdb_reach (taught 10 (LearnTouch kA 0 20 0) (ReapAge 20) {})"
    by (rule reach_by [OF _ fdb_step.call_reap [of _ 1 20]]) (simp_all add: finished_def taught_def)
  then have "fdb_reach (taught 10 (LearnTouch kA 0 20 0) (ReapLock 20 10) {})"
    by (rule reach_by [OF _ fdb_step.reap_on [of _ 1 20]]) (simp_all add: taught_def)
  then have "fdb_reach ((taught 10 (LearnTouch kA 0 20 0) (ReapLoop 20 10 [kA]) {})\<lparr>writer := Some 1\<rparr>)"
    by (rule reach_by [OF _ fdb_step.reap_lock [of _ 1 20 10 "[kA]"]]) (simp_all add: taught_def)
  then have "fdb_reach ((reaped_under (LearnTouch kA 0 20 0) 0)
      \<lparr>writer := Some 1, threads := (threads (reaped_under (LearnTouch kA 0 20 0) 0))(1 := ReapLoop 20 10 [])\<rparr>)"
    by (rule reach_by [OF _ fdb_step.reap_delete [of _ 1 20 10 kA "[]" 0 "\<lparr>portIdx = 0, seenAt = 0\<rparr>"]])
       (use old in \<open>simp_all add: taught_def reaped_under_def duo_def goto_def fun_eq_iff\<close>)
  then have "fdb_reach ((reaped_under (LearnTouch kA 0 20 0) 0)
      \<lparr>writer := Some 1, threads := (threads (reaped_under (LearnTouch kA 0 20 0) 0))(1 := Unlocking)\<rparr>)"
    by (rule reach_by [OF _ fdb_step.reap_end [of _ 1 20 10]]) (simp_all add: goto_def)
  then show ?thesis
    by (rule reach_by [OF _ fdb_step.unlock [of _ 1]])
       (simp_all add: goto_def reaped_under_def duo_def fun_eq_iff)
qed

section \<open>Properties\<close>

text \<open>
  C20: Under every interleaving of Learn, Lookup, reap and changes of the ageing duration, the port
  that a Lookup returns for a key is a port some Learn was called with for that very key: it is
  never another station's port and never a torn or uninitialised value.
\<close>
theorem lookup_safe_under_races:
  assumes "fdb_reach s" and "threads s t = LookupDone k (Some p)"
  shows "(k, p) \<in> calls s"
  using race_inv_thread [OF fdb_reach_inv [OF assms(1)] assms(2)] by simp

theorem lookup_safe_under_races_witness:
  "fdb_reach (taught 0 (LookupDone kA (Some 0)) Idle {}) \<and>
   (kA, 0) \<in> calls (taught 0 (LookupDone kA (Some 0)) Idle {})"
  using reach_looked_up lookup_safe_under_races [OF reach_looked_up, of 0 kA 0]
  by (simp add: taught_def)

text \<open>
  C21: The lock does its work under every interleaving: at most one thread is inside a write
  section, exactly when the lock says so; and two keys of the table never share an entry, so an
  update through a pointer changes the binding of one key only.
\<close>
theorem writers_exclude_each_other:
  assumes "fdb_reach s"
  shows "(critical (threads s t) \<longleftrightarrow> writer s = Some t) \<and>
         (ptable s k = Some a \<and> ptable s k' = Some a \<longrightarrow> k' = k)"
  using fdb_reach_inv [OF assms] ptable_inj by (auto simp: race_inv_def lock_ok_def)

theorem writers_exclude_each_other_witness:
  "critical (threads (taught 0 Idle Idle {}) 0) \<longleftrightarrow> writer (taught 0 Idle Idle {}) = Some 0"
  by (rule writers_exclude_each_other [OF reach_taught, THEN conjunct1])

text \<open>
  C22: No deadlock. Under every interleaving, as long as some call has not returned some thread
  inside a call can move; and a thread that no writer keeps out, left alone, returns.
\<close>
theorem fdb_never_deadlocks:
  assumes "fdb_reach s"
  shows "(\<not> finished (threads s t) \<longrightarrow> (\<exists>u s'. own_step u s s')) \<and>
         (writer s = None \<or> writer s = Some u \<longrightarrow> (\<exists>s'. (own_step u)\<^sup>*\<^sup>* s s' \<and> finished (threads s' u)))"
proof (intro conjI impI)
  assume busy: "\<not> finished (threads s t)"
  show "\<exists>u s'. own_step u s s'"
  proof (cases "writer s")
    case None
    then show ?thesis using own_step_exists [OF assms busy] by auto
  next
    case (Some u)
    then have crit: "critical (threads s u)"
      using fdb_reach_inv [OF assms] by (simp add: race_inv_def lock_ok_def)
    then have "\<not> finished (threads s u)" using finished_not_critical by blast
    then show ?thesis using own_step_exists [OF assms] critical_not_blocked [OF crit] by blast
  qed
next
  assume "writer s = None \<or> writer s = Some u"
  then show "\<exists>s'. (own_step u)\<^sup>*\<^sup>* s s' \<and> finished (threads s' u)"
    by (rule own_run_finishes [OF assms])
qed

theorem fdb_never_deadlocks_witness:
  "\<exists>u s'. own_step u ((taught 0 (LookupPort kA 0) (LearnSetPort kA 1 6 0) {(kA, 1)})\<lparr>writer := Some 1\<rparr>) s'"
  using fdb_never_deadlocks [OF reach_race, of 0] by (auto simp: taught_def finished_def)

text \<open>
  C23: Learn refines its atomic model. Started on any reachable table while no writer is inside, a
  Learn that runs undisturbed returns, by the fast path or the slow one, and the pointer structure
  it leaves stands for exactly the table that the atomic Learn computes.
\<close>
theorem undisturbed_learn:
  assumes "fdb_reach s" and "threads s t = LearnRead k p n" and "writer s = None"
  shows "(\<exists>s'. (own_step t)\<^sup>*\<^sup>* s s' \<and> finished (threads s' t)) \<and>
         (\<forall>s'. (own_step t)\<^sup>*\<^sup>* s s' \<and> finished (threads s' t) \<longrightarrow>
               fdb_abs s' = Learn (fdb_abs s) (key_vid k) (key_mac k) p n)"
proof (intro conjI allI impI; (elim conjE)?)
  show "\<exists>s'. (own_step t)\<^sup>*\<^sup>* s s' \<and> finished (threads s' t)"
    using own_run_finishes [OF assms(1)] assms(3) by blast
next
  fix s'
  assume run: "(own_step t)\<^sup>*\<^sup>* s s'" and fin: "finished (threads s' t)"
  have "learn_progress t k p n s s"
    using assms fdb_reach_inv by (simp add: learn_progress_def)
  from learn_progress_star [OF run this] fin
  show "fdb_abs s' = Learn (fdb_abs s) (key_vid k) (key_mac k) p n" by (rule learn_progress_done)
qed

lemma reach_learning: "fdb_reach (taught 0 Idle (LearnRead kA 1 6) {(kA, 1)})"
  by (rule reach_by [OF reach_taught fdb_step.call_learn [of _ 1 kA 1 6]])
     (simp_all add: finished_def taught_def insert_commute)

theorem undisturbed_learn_witness:
  "\<exists>s'. (own_step 1)\<^sup>*\<^sup>* (taught 0 Idle (LearnRead kA 1 6) {(kA, 1)}) s' \<and> finished (threads s' 1) \<and>
        fdb_abs s' = Learn (fdb_abs (taught 0 Idle (LearnRead kA 1 6) {(kA, 1)})) (key_vid kA) (key_mac kA) 1 6"
  using undisturbed_learn [OF reach_learning, of 1 kA 1 6] by (auto simp: taught_def)

text \<open>
  C24: Lookup and reap refine their atomic models. Started on any reachable table while no writer is
  inside, each returns when it runs undisturbed; Lookup has the atomic result and changes no table,
  and after reap, in whatever order Go visits the map, the table is the atomic reap's.
\<close>
theorem undisturbed_lookup_and_reap:
  assumes "fdb_reach s" and "writer s = None"
  shows "(\<exists>s'. (own_step t)\<^sup>*\<^sup>* s s' \<and> finished (threads s' t)) \<and>
         (\<forall>s'. (own_step t)\<^sup>*\<^sup>* s s' \<and> finished (threads s' t) \<longrightarrow>
            (threads s t = LookupRead k n \<longrightarrow>
               threads s' t = LookupDone k (Lookup (fdb_abs s) (key_vid k) (key_mac k) n) \<and>
               fdb_abs s' = fdb_abs s) \<and>
            (threads s t = ReapAge n \<longrightarrow> fdb_abs s' = reap (fdb_abs s) n))"
proof (rule conjI; (intro allI impI conjI [of "_ \<longrightarrow> _"])?; (elim conjE)?)
  show "\<exists>s'. (own_step t)\<^sup>*\<^sup>* s s' \<and> finished (threads s' t)"
    using own_run_finishes [OF assms(1)] assms(2) by blast
next
  fix s'
  assume run: "(own_step t)\<^sup>*\<^sup>* s s'" and fin: "finished (threads s' t)" and "threads s t = LookupRead k n"
  then have "lookup_progress t k n s s" by (simp add: lookup_progress_def)
  from lookup_progress_star [OF run this] finished_cases [OF fin]
  show "threads s' t = LookupDone k (Lookup (fdb_abs s) (key_vid k) (key_mac k) n) \<and> fdb_abs s' = fdb_abs s"
    by (auto simp: lookup_progress_def fdb_abs_def)
next
  fix s'
  assume run: "(own_step t)\<^sup>*\<^sup>* s s'" and fin: "finished (threads s' t)" and "threads s t = ReapAge n"
  then have "reap_progress t n s s" by (simp add: reap_progress_def)
  from reap_progress_star [OF run this] finished_cases [OF fin]
  show "fdb_abs s' = reap (fdb_abs s) n" by (auto simp: reap_progress_def)
qed

theorem undisturbed_lookup_and_reap_witness:
  "\<exists>s'. (own_step 0)\<^sup>*\<^sup>* (taught 0 (LookupRead kA 5) Idle {}) s' \<and> threads s' 0 = LookupDone kA (Some 0)"
  using undisturbed_lookup_and_reap [OF reach_asked, of 0 kA 5]
  by (auto simp: taught_def Lookup_fdb_abs)

text \<open>
  A data race. Some interleaving brings one thread to the write of an entry's port index, under
  the lock, and another to the read of the same field, after the lock was released, both next to
  move; the read returns 0 or 1 depending on which goes first. The field is not atomic.
\<close>
theorem port_index_races:
  "\<exists>s k a. fdb_reach s \<and> threads s 1 = LearnSetPort k 1 6 a \<and> threads s 0 = LookupPort k a \<and>
     (\<exists>s1. fdb_step 0 s s1 \<and> threads s1 0 = LookupDone k (Some 0)) \<and>
     (\<exists>s1 s2. fdb_step 1 s s1 \<and> fdb_step 0 s1 s2 \<and> threads s2 0 = LookupDone k (Some 1))"
proof -
  let ?e = "\<lparr>portIdx = 0, seenAt = 0\<rparr>"
  let ?s = "(taught 0 (LookupPort kA 0) (LearnSetPort kA 1 6 0) {(kA, 1)})\<lparr>writer := Some 1\<rparr>"
  let ?s1 = "goto 1 (LearnSetSeen kA 1 6 0) (set_entry 0 (?e\<lparr>portIdx := 1\<rparr>) ?s)"
  have "threads ?s 1 = LearnSetPort kA 1 6 0" "threads ?s 0 = LookupPort kA 0" "heap ?s 0 = Some ?e"
    by (simp_all add: taught_def)
  moreover from this have "fdb_step 0 ?s (goto 0 (LookupDone kA (Some 0)) ?s)"
    using fdb_step.lookup_port [of ?s 0 kA 0 ?e] by simp
  moreover have "fdb_step 1 ?s ?s1"
    by (rule fdb_step.learn_set_port) (simp_all add: taught_def)
  moreover have "fdb_step 0 ?s1 (goto 0 (LookupDone kA (Some 1)) ?s1)"
    using fdb_step.lookup_port [of ?s1 0 kA 0 "?e\<lparr>portIdx := 1\<rparr>"] by (simp add: taught_def)
  ultimately show ?thesis
    using reach_race by (metis goto_sel(7))
qed

text \<open>
  C25: A refresh can be lost. Some interleaving has a Learn return with the table not holding the
  station it was called for, nobody else being inside a call: the collector deleted the entry
  between the unlocked test and the unlocked time stamp. The station's next frames are flooded until
  it sends again.
\<close>
theorem refresh_can_be_lost:
  "\<exists>s k a s'. fdb_reach s \<and> threads s 0 = LearnTouch k 0 20 a \<and> fdb_step 0 s s' \<and>
     (\<forall>t. threads s' t = Idle) \<and> Lookup (fdb_abs s') (key_vid k) (key_mac k) 20 = None"
proof -
  let ?s = "reaped_under (LearnTouch kA 0 20 0) 0"
  have "fdb_step 0 ?s (goto 0 Idle (set_entry 0 (\<lparr>portIdx = 0, seenAt = 0\<rparr>\<lparr>seenAt := 20\<rparr>) ?s))"
    by (rule fdb_step.learn_touch) (simp_all add: reaped_under_def)
  then have step: "fdb_step 0 ?s (reaped_under Idle 20)"
    by (simp add: reaped_under_def)
  have "threads ?s 0 = LearnTouch kA 0 20 0" "\<forall>t. threads (reaped_under Idle 20) t = Idle"
    "Lookup (fdb_abs (reaped_under Idle 20)) (key_vid kA) (key_mac kA) 20 = None"
    by (simp_all add: reaped_under_def Lookup_fdb_abs) (simp add: duo_def)
  with step reach_reaped_under show ?thesis by blast
qed

end
