(* ===== verification/Vlan.thy ===== *)
theory Vlan
  imports Prelude
begin

text \<open>
  Port roles and ingress classification: \<open>internal/goswitch/vlan.go\<close>. The VLAN fields of the
  source's \<open>port\<close> struct are the record \<open>vlan_port\<close>; the engine extends it with the
  remaining fields, so that \<open>classify\<close> is defined here on any extension of it.

  \<open>vlan_member\<close> is the specification of which VLANs a port belongs to. The lemmas say that
  classification only ever yields a VLAN the port is a member of, and characterise every
  branch of it, the drops included.
\<close>

datatype portRole = rolePlain | roleAccess | roleTrunk

fun role_String :: "portRole \<Rightarrow> string" where
  "role_String roleAccess = ''access''"
| "role_String roleTrunk = ''trunk''"
| "role_String rolePlain = ''plain''"

definition roleOf :: "u16 \<Rightarrow> u16 list \<Rightarrow> portRole" where
  "roleOf accessVID trunk =
     (if 0 < length trunk then roleTrunk
      else if accessVID \<noteq> 0 then roleAccess
      else rolePlain)"

record vlan_port =
  role :: portRole
  pvid :: u16
  allow :: "u16 \<rightharpoonup> bool"
  trunkVIDs :: "u16 list"

definition allowed :: "'a vlan_port_scheme \<Rightarrow> u16 \<Rightarrow> bool" where
  "allowed p v = (case allow p v of Some b \<Rightarrow> b | None \<Rightarrow> False)"

definition classify :: "'a vlan_port_scheme \<Rightarrow> bool \<Rightarrow> u16 \<Rightarrow> u16 option" where
  "classify p hasTag tagVID =
     (case role p of
        rolePlain \<Rightarrow> Some 0
      | roleAccess \<Rightarrow> (if hasTag then None else Some (pvid p))
      | roleTrunk \<Rightarrow>
          (if \<not> hasTag then None
           else if \<not> allowed p tagVID then None
           else Some tagVID))"

section \<open>VLAN membership\<close>

definition vlan_member :: "'a vlan_port_scheme \<Rightarrow> u16 \<Rightarrow> bool" where
  "vlan_member p v =
     (case role p of
        rolePlain \<Rightarrow> v = 0
      | roleAccess \<Rightarrow> v = pvid p
      | roleTrunk \<Rightarrow> allowed p v)"

lemma roleOf_simps [simp]:
  "roleOf a [] = (if a \<noteq> 0 then roleAccess else rolePlain)"
  "roleOf a (t # ts) = roleTrunk"
  by (simp_all add: roleOf_def)

lemma roleOf_eq_plain: "roleOf a t = rolePlain \<longleftrightarrow> a = 0 \<and> t = []"
  by (simp add: roleOf_def)

lemma roleOf_eq_access: "roleOf a t = roleAccess \<longleftrightarrow> a \<noteq> 0 \<and> t = []"
  by (simp add: roleOf_def)

lemma roleOf_eq_trunk: "roleOf a t = roleTrunk \<longleftrightarrow> t \<noteq> []"
  by (simp add: roleOf_def)

lemmas roleOf_iffs = roleOf_eq_plain roleOf_eq_access roleOf_eq_trunk

lemma role_String_inject: "role_String r = role_String r' \<longleftrightarrow> r = r'"
  by (cases r; cases r') auto

lemma classify_member: "classify p hasTag tagVID = Some v \<Longrightarrow> vlan_member p v"
  by (auto simp: classify_def vlan_member_def split: portRole.splits if_splits)

lemma classify_None_iff:
  "classify p hasTag tagVID = None \<longleftrightarrow>
     role p = roleAccess \<and> hasTag \<or>
     role p = roleTrunk \<and> (\<not> hasTag \<or> \<not> allowed p tagVID)"
  by (auto simp: classify_def split: portRole.splits)

lemma classify_tagged: "classify p True t = Some v \<Longrightarrow> role p \<noteq> rolePlain \<Longrightarrow> role p = roleTrunk \<and> v = t"
  by (auto simp: classify_def split: portRole.splits if_splits)

lemma classify_untagged: "classify p False t = Some v \<Longrightarrow> role p \<noteq> rolePlain \<Longrightarrow> role p = roleAccess \<and> v = pvid p"
  by (auto simp: classify_def split: portRole.splits if_splits)

end
