(* ===== verification/Packet.thy ===== *)
theory Packet
  imports Prelude
begin

text \<open>
  The interface of the switch to the packet library (\<open>github.com/gopacket/gopacket\<close>), which is
  not part of the repository. What the switch sees of it is data: the layer structs whose
  fields it reads and sets, and the parser object that owns them. What it calls of it are two
  parameters of the model:
  \<^item> a \<open>decoder\<close>, for \<open>DecodingLayerParser.DecodeLayers\<close>: from the parser's reused layer
    structs and the frame to the parser's new state. Nothing forbids it to leave stale values
    in a layer it did not decode; the model keeps the stale values, as the reused structs do.
  \<^item> a \<open>serializer\<close>, for \<open>gopacket.SerializeLayers\<close> followed by \<open>buf.Bytes()\<close>. The switch
    ignores the error result, so the parameter gives whatever bytes the buffer then holds.

  The locale \<open>frame_codec\<close> states the documented behaviour of the pair that the properties of
  egress tagging rest on.
\<close>

datatype layer_type = LayerTypeEthernet | LayerTypeDot1Q | LayerTypeOther nat

record ethernet =
  SrcMAC :: mac
  DstMAC :: mac
  EthernetType :: u16
  eth_Payload :: "byte list"

record dot1q_layer =
  VLANIdentifier :: u16
  Dot1Q_Type :: u16
  dot1q_Payload :: "byte list"

record frameParser =
  eth :: ethernet
  dot1q :: dot1q_layer
  dec :: "layer_type list"

datatype ser_layer = SerEthernet ethernet | SerDot1Q dot1q_layer | SerPayload "byte list"

type_synonym decoder = "frameParser \<Rightarrow> frame \<Rightarrow> frameParser"
type_synonym serializer = "bool \<Rightarrow> ser_layer list \<Rightarrow> frame"

definition EthernetTypeDot1Q :: u16 where
  "EthernetTypeDot1Q = 0x8100"

definition newFrameParser :: frameParser where
  "newFrameParser =
     \<lparr>eth = \<lparr>SrcMAC = [], DstMAC = [], EthernetType = 0, eth_Payload = []\<rparr>,
      dot1q = \<lparr>VLANIdentifier = 0, Dot1Q_Type = 0, dot1q_Payload = []\<rparr>,
      dec = []\<rparr>"

section \<open>What a frame looks like to a decoder\<close>

text \<open>
  The scan of \<open>fp.dec\<close> at the start of \<open>forward\<close>: which of the two layers were decoded.
\<close>

fun scan_layers :: "layer_type list \<Rightarrow> bool \<times> bool \<Rightarrow> bool \<times> bool" where
  "scan_layers [] (hasEth, hasTag) = (hasEth, hasTag)"
| "scan_layers (LayerTypeEthernet # lts) (hasEth, hasTag) = scan_layers lts (True, hasTag)"
| "scan_layers (LayerTypeDot1Q # lts) (hasEth, hasTag) = scan_layers lts (hasEth, True)"
| "scan_layers (LayerTypeOther n # lts) (hasEth, hasTag) = scan_layers lts (hasEth, hasTag)"

lemma scan_layers_eq:
  "scan_layers lts (e, t) =
     (e \<or> LayerTypeEthernet \<in> set lts, t \<or> LayerTypeDot1Q \<in> set lts)"
  by (induction lts "(e, t)" arbitrary: e t rule: scan_layers.induct) auto

definition decoded_tagged :: "frameParser \<Rightarrow> mac \<Rightarrow> mac \<Rightarrow> u16 \<Rightarrow> bool" where
  "decoded_tagged fp d s v \<longleftrightarrow>
     LayerTypeEthernet \<in> set (dec fp) \<and> LayerTypeDot1Q \<in> set (dec fp) \<and>
     DstMAC (eth fp) = d \<and> SrcMAC (eth fp) = s \<and> VLANIdentifier (dot1q fp) = v"

definition decoded_untagged :: "frameParser \<Rightarrow> mac \<Rightarrow> mac \<Rightarrow> bool" where
  "decoded_untagged fp d s \<longleftrightarrow>
     LayerTypeEthernet \<in> set (dec fp) \<and> LayerTypeDot1Q \<notin> set (dec fp) \<and>
     DstMAC (eth fp) = d \<and> SrcMAC (eth fp) = s"

section \<open>The codec contract\<close>

text \<open>
  \<open>opaque t\<close>: the EtherType \<open>t\<close> introduces a payload the switch does not look into, that is
  neither a length field (below 0x600) nor one of the tag types of the library.
  \<open>decode_reset\<close>: a layer reported as decoded was overwritten, so nothing of it depends on what
  the reused parser held before. The other two laws are the round trips the switch relies on: a
  serialized header decodes to the fields it was built from, and its payload comes back as a
  prefix of the decoded one (a short frame may be padded).
\<close>

locale frame_codec =
  fixes decode :: decoder and ser :: serializer and vlan_type :: "u16 \<Rightarrow> bool"
  assumes decode_reset:
    "dec (decode fp b) = dec (decode fp' b)"
    "LayerTypeEthernet \<in> set (dec (decode fp b)) \<Longrightarrow> eth (decode fp b) = eth (decode fp' b)"
    "LayerTypeDot1Q \<in> set (dec (decode fp b)) \<Longrightarrow> dot1q (decode fp b) = dot1q (decode fp' b)"
  and decode_ser_tagged:
    "length d = 6 \<Longrightarrow> length s = 6 \<Longrightarrow> v < 0x1000 \<Longrightarrow> 0x600 \<le> t \<Longrightarrow> \<not> vlan_type t \<Longrightarrow>
     b = ser True [SerEthernet \<lparr>SrcMAC = s, DstMAC = d, EthernetType = EthernetTypeDot1Q, eth_Payload = []\<rparr>,
                   SerDot1Q \<lparr>VLANIdentifier = v, Dot1Q_Type = t, dot1q_Payload = []\<rparr>,
                   SerPayload pl] \<Longrightarrow>
     decoded_tagged (decode fp b) d s v \<and> Dot1Q_Type (dot1q (decode fp b)) = t \<and>
     take (length pl) (dot1q_Payload (dot1q (decode fp b))) = pl"
  and decode_ser_untagged:
    "length d = 6 \<Longrightarrow> length s = 6 \<Longrightarrow> 0x600 \<le> t \<Longrightarrow> \<not> vlan_type t \<Longrightarrow>
     b = ser True [SerEthernet \<lparr>SrcMAC = s, DstMAC = d, EthernetType = t, eth_Payload = []\<rparr>,
                   SerPayload pl] \<Longrightarrow>
     decoded_untagged (decode fp b) d s \<and> EthernetType (eth (decode fp b)) = t \<and>
     take (length pl) (eth_Payload (eth (decode fp b))) = pl"

begin

lemma decoded_tagged_reset: "decoded_tagged (decode fp b) d s v \<Longrightarrow> decoded_tagged (decode fp' b) d s v"
  unfolding decoded_tagged_def using decode_reset [of fp b fp'] by auto

lemma decoded_untagged_reset: "decoded_untagged (decode fp b) d s \<Longrightarrow> decoded_untagged (decode fp' b) d s"
  unfolding decoded_untagged_def using decode_reset [of fp b fp'] by auto

end

end
