(* ===== verification/Port.thy ===== *)
theory Port
  imports Vlan Packet
begin

text \<open>
  The switch port of \<open>internal/goswitch/engine.go\<close>, its counters (\<open>stats.go\<close>) and the transport
  interface it is wired to (\<open>afpacket.go\<close>).

  \<open>PacketIO\<close> is the Go interface as a record of operations on a handle of any type \<open>'h\<close>; what a
  handle does is not the switch's code. A write answers whether the error was nil and a read
  distinguishes the three outcomes \<open>rxLoop\<close> does: a frame, the poll time-out, any other error.
  The counters are \<open>uint64\<close> and wrap.
\<close>

datatype read_result = ReadData frame | ReadTimeout | ReadError

record 'h PacketIO =
  ReadPacketData :: "'h \<Rightarrow> read_result \<times> 'h"
  WritePacketData :: "'h \<Rightarrow> frame \<Rightarrow> bool \<times> 'h"
  CloseIO :: "'h \<Rightarrow> 'h"

record portStats =
  rxFrames :: u64
  rxBytes :: u64
  txFrames :: u64
  txBytes :: u64
  flooded :: u64
  forwardDrop :: u64
  txDrop :: u64

definition zeroStats :: portStats where
  "zeroStats = \<lparr>rxFrames = 0, rxBytes = 0, txFrames = 0, txBytes = 0,
                flooded = 0, forwardDrop = 0, txDrop = 0\<rparr>"

record 'h port = vlan_port +
  idx :: nat
  name :: string
  io :: 'h
  stats :: portStats
  parser :: frameParser

definition count_rx :: "frame \<Rightarrow> 'h port \<Rightarrow> 'h port" where
  "count_rx frm p = p\<lparr>stats := (stats p)\<lparr>rxFrames := rxFrames (stats p) + 1,
                                        rxBytes := rxBytes (stats p) + of_nat (length frm)\<rparr>\<rparr>"

definition count_drop :: "'h port \<Rightarrow> 'h port" where
  "count_drop p = p\<lparr>stats := (stats p)\<lparr>forwardDrop := forwardDrop (stats p) + 1\<rparr>\<rparr>"

definition count_flood :: "'h port \<Rightarrow> 'h port" where
  "count_flood p = p\<lparr>stats := (stats p)\<lparr>flooded := flooded (stats p) + 1\<rparr>\<rparr>"

definition count_tx :: "frame \<Rightarrow> 'h port \<Rightarrow> 'h port" where
  "count_tx pkt p = p\<lparr>stats := (stats p)\<lparr>txFrames := txFrames (stats p) + 1,
                                        txBytes := txBytes (stats p) + of_nat (length pkt)\<rparr>\<rparr>"

definition count_txDrop :: "'h port \<Rightarrow> 'h port" where
  "count_txDrop p = p\<lparr>stats := (stats p)\<lparr>txDrop := txDrop (stats p) + 1\<rparr>\<rparr>"

section \<open>The configuration of a port\<close>

text \<open>
  The fields that only \<open>NewEngine\<close> sets. Everything the forwarding path does to a port keeps them.
\<close>

definition port_cfg :: "'h port \<Rightarrow> nat \<times> string \<times> portRole \<times> u16 \<times> (u16 \<rightharpoonup> bool) \<times> u16 list" where
  "port_cfg p = (idx p, name p, role p, pvid p, allow p, trunkVIDs p)"

lemma port_cfg_counts [frame_simps, simp]:
  "port_cfg (count_rx frm p) = port_cfg p"
  "port_cfg (count_drop p) = port_cfg p"
  "port_cfg (count_flood p) = port_cfg p"
  "port_cfg (count_tx frm p) = port_cfg p"
  "port_cfg (count_txDrop p) = port_cfg p"
  "port_cfg (p\<lparr>io := h\<rparr>) = port_cfg p"
  "port_cfg (p\<lparr>parser := fp\<rparr>) = port_cfg p"
  by (simp_all add: port_cfg_def count_rx_def count_drop_def count_flood_def count_tx_def
      count_txDrop_def)

lemma port_cfg_fields:
  assumes "port_cfg p = port_cfg q"
  shows "idx p = idx q" "name p = name q" "role p = role q" "vlan_member p = vlan_member q"
    "classify p = classify q" "trunkVIDs p = trunkVIDs q"
  using assms
  by (auto simp: port_cfg_def vlan_member_def classify_def allowed_def fun_eq_iff split: portRole.split)

end
