(* ===== verification/Engine.thy ===== *)
theory Engine
  imports Port Fdb
begin

text \<open>
  The forwarding core, \<open>internal/goswitch/engine.go\<close> and the egress builders of \<open>vlan.go\<close>.

  \<open>NewEngine\<close> is the validation loop and the membership loop of the source, in their order, with
  every error return a constructor of \<open>engine_error\<close>. \<open>forward\<close> handles one received frame and
  \<open>emit\<close> one egress write; both answer \<open>None\<close> where the Go code would panic on an index. The
  ghost field \<open>wire\<close> records every call of \<open>WritePacketData\<close> with its port, its bytes and whether
  it succeeded.
\<close>

section \<open>State\<close>

record PortConfig =
  Name :: string
  AccessVID :: u16
  Trunk :: "u16 list"

record frameView =
  dst :: mac
  src :: mac
  hasTag :: bool
  tagVID :: u16
  innerType :: u16
  payload :: "byte list"
  raw :: frame

record 'h engine =
  ports :: "'h port list"
  fdb :: FDB
  vidMembers :: "u16 \<rightharpoonup> nat list"
  vlanAware :: bool
  wire :: "(nat \<times> frame \<times> bool) list"

definition members :: "'h engine \<Rightarrow> u16 \<Rightarrow> nat list" where
  "members e v = (case vidMembers e v of None \<Rightarrow> [] | Some is \<Rightarrow> is)"

definition upd_port :: "nat \<Rightarrow> ('h port \<Rightarrow> 'h port) \<Rightarrow> 'h engine \<Rightarrow> 'h engine" where
  "upd_port i f e = e\<lparr>ports := (ports e)[i := f (ports e ! i)]\<rparr>"

section \<open>Construction\<close>

datatype engine_error =
    ConfigHandleMismatch nat nat
  | NoPorts
  | EmptyName nat
  | DuplicatePort string
  | AccessAndTrunk string
  | MixedPlainAndVLAN

definition make_port :: "nat \<Rightarrow> PortConfig \<Rightarrow> 'h \<Rightarrow> 'h port" where
  "make_port i c h =
     (let r = roleOf (AccessVID c) (Trunk c)
      in \<lparr>role = r,
          pvid = (if r = roleAccess then AccessVID c else 0),
          allow = (if r = roleTrunk then (\<lambda>v. if v \<in> set (Trunk c) then Some True else None)
                   else Map.empty),
          trunkVIDs = (if r = roleTrunk then Trunk c else []),
          idx = i, name = Name c, io = h, stats = zeroStats, parser = newFrameParser\<rparr>)"

text \<open>
  The validation loop: index, the names seen so far, the flags \<open>anyVLAN\<close> and \<open>anyPlain\<close>, and
  the ports appended so far.
\<close>

fun add_ports ::
  "nat \<Rightarrow> string set \<Rightarrow> bool \<Rightarrow> bool \<Rightarrow> 'h port list \<Rightarrow> (PortConfig \<times> 'h) list \<Rightarrow>
   engine_error + (bool \<times> bool \<times> 'h port list)" where
  "add_ports i seen anyVLAN anyPlain ps [] = Inr (anyVLAN, anyPlain, ps)"
| "add_ports i seen anyVLAN anyPlain ps ((c, h) # rest) =
     (if Name c = [] then Inl (EmptyName i)
      else if Name c \<in> seen then Inl (DuplicatePort (Name c))
      else if AccessVID c \<noteq> 0 \<and> 0 < length (Trunk c) then Inl (AccessAndTrunk (Name c))
      else
        (let p = make_port i c h
         in add_ports (Suc i) (insert (Name c) seen)
              (anyVLAN \<or> role p = roleAccess \<or> role p = roleTrunk)
              (anyPlain \<or> role p = rolePlain)
              (ps @ [p]) rest))"

definition append_member :: "u16 \<Rightarrow> nat \<Rightarrow> (u16 \<rightharpoonup> nat list) \<Rightarrow> (u16 \<rightharpoonup> nat list)" where
  "append_member v i m = m(v \<mapsto> (case m v of None \<Rightarrow> [] | Some is \<Rightarrow> is) @ [i])"

text \<open>
  \<open>for v := range p.allow\<close> visits the keys in an order Go leaves open; the model visits them in
  the order of their first occurrence in the configuration. \<open>range_order_irrelevant\<close> shows that
  any other order builds the same map.
\<close>

definition join_vlans :: "'h port \<Rightarrow> (u16 \<rightharpoonup> nat list) \<Rightarrow> (u16 \<rightharpoonup> nat list)" where
  "join_vlans p m =
     (case role p of
        rolePlain \<Rightarrow> append_member 0 (idx p) m
      | roleAccess \<Rightarrow> append_member (pvid p) (idx p) m
      | roleTrunk \<Rightarrow> fold (\<lambda>v. append_member v (idx p)) (remdups (trunkVIDs p)) m)"

definition NewEngine :: "PortConfig list \<Rightarrow> 'h list \<Rightarrow> engine_error + 'h engine" where
  "NewEngine cfg ios =
     (if length cfg \<noteq> length ios then Inl (ConfigHandleMismatch (length cfg) (length ios))
      else if length cfg = 0 then Inl NoPorts
      else case add_ports 0 {} False False [] (zip cfg ios) of
             Inl err \<Rightarrow> Inl err
           | Inr (anyVLAN, anyPlain, ps) \<Rightarrow>
               (if anyVLAN \<and> anyPlain then Inl MixedPlainAndVLAN
                else Inr \<lparr>ports = ps, fdb = newFDB, vidMembers = fold join_vlans ps Map.empty,
                          vlanAware = anyVLAN, wire = []\<rparr>))"

definition SetAgeing :: "'h engine \<Rightarrow> i64 \<Rightarrow> 'h engine" where
  "SetAgeing e d = e\<lparr>fdb := set_ageing (fdb e) d\<rparr>"

definition gc_tick :: "'h engine \<Rightarrow> i64 \<Rightarrow> 'h engine" where
  "gc_tick e now = e\<lparr>fdb := reap (fdb e) now\<rparr>"

section \<open>Egress\<close>

definition buildTagged :: "serializer \<Rightarrow> mac \<Rightarrow> mac \<Rightarrow> u16 \<Rightarrow> u16 \<Rightarrow> byte list \<Rightarrow> frame" where
  "buildTagged ser d s vid t pl =
     ser True [SerEthernet \<lparr>SrcMAC = s, DstMAC = d, EthernetType = EthernetTypeDot1Q, eth_Payload = []\<rparr>,
               SerDot1Q \<lparr>VLANIdentifier = vid, Dot1Q_Type = t, dot1q_Payload = []\<rparr>,
               SerPayload pl]"

definition buildUntagged :: "serializer \<Rightarrow> mac \<Rightarrow> mac \<Rightarrow> u16 \<Rightarrow> byte list \<Rightarrow> frame" where
  "buildUntagged ser d s t pl =
     ser True [SerEthernet \<lparr>SrcMAC = s, DstMAC = d, EthernetType = t, eth_Payload = []\<rparr>,
               SerPayload pl]"

definition egress_frame :: "serializer \<Rightarrow> portRole \<Rightarrow> frameView \<Rightarrow> u16 \<Rightarrow> frame" where
  "egress_frame ser r fv vid =
     (let outWantsTag = (r = roleTrunk)
      in if outWantsTag = hasTag fv then raw fv
         else if outWantsTag then buildTagged ser (dst fv) (src fv) vid (innerType fv) (payload fv)
         else buildUntagged ser (dst fv) (src fv) (innerType fv) (payload fv))"

definition emit ::
  "serializer \<Rightarrow> 'h PacketIO \<Rightarrow> nat \<Rightarrow> frameView \<Rightarrow> u16 \<Rightarrow> 'h engine \<Rightarrow> 'h engine option" where
  "emit ser ops out fv vid e =
     (case nth_opt (ports e) out of
        None \<Rightarrow> None
      | Some p \<Rightarrow>
          (let pkt = egress_frame ser (role p) fv vid;
               (ok, h) = WritePacketData ops (io p) pkt;
               e1 = upd_port out (\<lambda>p. p\<lparr>io := h\<rparr>) e;
               e2 = e1\<lparr>wire := wire e1 @ [(out, pkt, ok)]\<rparr>
           in if \<not> ok then Some (upd_port out count_txDrop e2)
              else Some (upd_port out (count_tx pkt) e2)))"

section \<open>The forwarding decision\<close>

definition view_of :: "frameParser \<Rightarrow> bool \<Rightarrow> frame \<Rightarrow> frameView" where
  "view_of fp tagged frm =
     (let fv = \<lparr>dst = DstMAC (eth fp), src = SrcMAC (eth fp), hasTag = tagged, tagVID = 0,
                innerType = 0, payload = [], raw = frm\<rparr>
      in if tagged then
           fv\<lparr>tagVID := VLANIdentifier (dot1q fp), innerType := Dot1Q_Type (dot1q fp),
              payload := dot1q_Payload (dot1q fp)\<rparr>
         else fv\<lparr>innerType := EthernetType (eth fp), payload := eth_Payload (eth fp)\<rparr>)"

definition flood ::
  "serializer \<Rightarrow> 'h PacketIO \<Rightarrow> nat \<Rightarrow> nat \<Rightarrow> frameView \<Rightarrow> u16 \<Rightarrow> 'h engine \<Rightarrow> 'h engine option" where
  "flood ser ops i pidx fv vid e =
     (let e1 = upd_port i count_flood e
      in foldM (\<lambda>j s. if j = pidx then Some s else emit ser ops j fv vid s) (members e1 vid) e1)"

definition forward ::
  "decoder \<Rightarrow> serializer \<Rightarrow> 'h PacketIO \<Rightarrow> nat \<Rightarrow> frame \<Rightarrow> i64 \<Rightarrow> 'h engine \<Rightarrow> 'h engine option" where
  "forward decode ser ops i frm now e =
     (case nth_opt (ports e) i of
        None \<Rightarrow> None
      | Some p \<Rightarrow>
          (let e1 = upd_port i (count_rx frm) e;
               fp = decode (parser p) frm;
               e2 = upd_port i (\<lambda>p. p\<lparr>parser := fp\<rparr>) e1;
               (hasEth, tagged) = scan_layers (dec fp) (False, False)
           in if \<not> hasEth \<or> length (DstMAC (eth fp)) \<noteq> 6 \<or> length (SrcMAC (eth fp)) \<noteq> 6
              then Some (upd_port i count_drop e2)
              else
                (let fv = view_of fp tagged frm
                 in case classify p tagged (tagVID fv) of
                      None \<Rightarrow> Some (upd_port i count_drop e2)
                    | Some vid \<Rightarrow>
                        (case nth_opt (src fv) 0 of
                           None \<Rightarrow> None
                         | Some s0 \<Rightarrow>
                             (let e3 = (if and s0 1 = 0
                                        then e2\<lparr>fdb := Learn (fdb e2) vid (copy_array 6 (src fv)) (idx p) now\<rparr>
                                        else e2)
                              in case nth_opt (dst fv) 0 of
                                   None \<Rightarrow> None
                                 | Some d0 \<Rightarrow>
                                     (if and d0 1 = 0 then
                                        (case Lookup (fdb e3) vid (copy_array 6 (dst fv)) now of
                                           Some out \<Rightarrow>
                                             (if out \<noteq> idx p then emit ser ops out fv vid e3
                                              else Some e3)
                                         | None \<Rightarrow> flood ser ops i (idx p) fv vid e3)
                                      else flood ser ops i (idx p) fv vid e3))))))"

end
