(* ===== verification/Construction.thy ===== *)
theory Construction
  imports Engine
begin

text \<open>
  What \<open>NewEngine\<close> accepts and builds. \<open>cfg_ok\<close> is the specification of an acceptable list of port
  configurations; \<open>engine_wf\<close> is the invariant of an engine that the forwarding path keeps
  (theory \<open>Forwarding\<close>): port \<open>j\<close> knows its own index, the flood list of a VLAN is exactly the
  ascending list of its member ports, the learning table only points at members of the VLAN the
  address was learned in, and plain and VLAN ports are never mixed.
\<close>

section \<open>Specification of a configuration\<close>

definition vlan_cfg :: "PortConfig \<Rightarrow> bool" where
  "vlan_cfg c \<longleftrightarrow> AccessVID c \<noteq> 0 \<or> Trunk c \<noteq> []"

definition cfg_ok :: "string set \<Rightarrow> PortConfig list \<Rightarrow> bool" where
  "cfg_ok seen cs \<longleftrightarrow>
     (\<forall>c \<in> set cs. Name c \<noteq> [] \<and> Name c \<notin> seen \<and> (AccessVID c = 0 \<or> Trunk c = [])) \<and>
     distinct (map Name cs)"

lemma cfg_ok_Nil [simp]: "cfg_ok seen []"
  by (simp add: cfg_ok_def)

lemma cfg_ok_Cons:
  "cfg_ok seen (c # cs) \<longleftrightarrow>
     Name c \<noteq> [] \<and> Name c \<notin> seen \<and> (AccessVID c = 0 \<or> Trunk c = []) \<and>
     cfg_ok (insert (Name c) seen) cs"
  unfolding cfg_ok_def by (auto simp: image_iff)

definition ports_from :: "nat \<Rightarrow> (PortConfig \<times> 'h) list \<Rightarrow> 'h port list" where
  "ports_from i xs = map (\<lambda>(j, c, h). make_port j c h) (enumerate i xs)"

lemma ports_from_simps [simp]:
  "ports_from i [] = []"
  "ports_from i ((c, h) # xs) = make_port i c h # ports_from (Suc i) xs"
  by (simp_all add: ports_from_def)

lemma length_ports_from [simp]: "length (ports_from i xs) = length xs"
  by (simp add: ports_from_def)

lemma nth_ports_from:
  "j < length xs \<Longrightarrow> ports_from i xs ! j = make_port (i + j) (fst (xs ! j)) (snd (xs ! j))"
  by (simp add: ports_from_def nth_enumerate_eq split_beta)

lemma make_port_sel [simp]:
  "idx (make_port i c h) = i" "name (make_port i c h) = Name c"
  "role (make_port i c h) = roleOf (AccessVID c) (Trunk c)"
  "io (make_port i c h) = h" "stats (make_port i c h) = zeroStats"
  by (simp_all add: make_port_def Let_def)

lemma role_make_port_plain: "role (make_port i c h) = rolePlain \<longleftrightarrow> \<not> vlan_cfg c"
  by (auto simp: roleOf_def vlan_cfg_def)

lemma role_make_port_vlan:
  "role (make_port i c h) = roleAccess \<or> role (make_port i c h) = roleTrunk \<longleftrightarrow> vlan_cfg c"
  by (auto simp: roleOf_def vlan_cfg_def)

section \<open>The validation loop\<close>

lemma add_ports_ok_iff:
  "add_ports i seen av ap ps xs = Inr r \<longleftrightarrow>
     cfg_ok seen (map fst xs) \<and>
     r = (av \<or> (\<exists>c \<in> set (map fst xs). vlan_cfg c), ap \<or> (\<exists>c \<in> set (map fst xs). \<not> vlan_cfg c),
          ps @ ports_from i xs)"
proof (induction xs arbitrary: i seen av ap ps)
  case Nil
  then show ?case by auto
next
  case (Cons x xs)
  obtain c h where x: "x = (c, h)" by (cases x)
  have "(role (make_port i c h) = roleAccess \<or> role (make_port i c h) = roleTrunk) = vlan_cfg c"
    by (rule role_make_port_vlan)
  then show ?case
    using role_make_port_plain [of i c h]
    by (auto simp: x cfg_ok_Cons Let_def Cons.IH simp del: make_port_sel)
qed

text \<open>The error of one port, in the order the loop tests.\<close>

definition port_error :: "nat \<Rightarrow> string set \<Rightarrow> PortConfig \<Rightarrow> engine_error option" where
  "port_error i seen c =
     (if Name c = [] then Some (EmptyName i)
      else if Name c \<in> seen then Some (DuplicatePort (Name c))
      else if AccessVID c \<noteq> 0 \<and> Trunk c \<noteq> [] then Some (AccessAndTrunk (Name c))
      else None)"

lemma add_ports_error_iff:
  "add_ports i seen av ap ps xs = Inl err \<longleftrightarrow>
     (\<exists>pre c h post. xs = pre @ (c, h) # post \<and> cfg_ok seen (map fst pre) \<and>
        port_error (i + length pre) (seen \<union> set (map (Name \<circ> fst) pre)) c = Some err)"
proof (induction xs arbitrary: i seen av ap ps)
  case Nil
  then show ?case by simp
next
  case (Cons x xs)
  obtain c h where x: "x = (c, h)" by (cases x)
  let ?R = "\<lambda>i seen xs. \<exists>pre c h post. xs = pre @ (c, h) # post \<and> cfg_ok seen (map fst pre) \<and>
        port_error (i + length pre) (seen \<union> set (map (Name \<circ> fst) pre)) c = Some err"
  have split: "?R i seen (x # xs) \<longleftrightarrow>
      port_error i seen c = Some err \<or>
      port_error i seen c = None \<and> ?R (Suc i) (insert (Name c) seen) xs"
  proof
    assume "?R i seen (x # xs)"
    then obtain pre c' h' post where r: "x # xs = pre @ (c', h') # post" "cfg_ok seen (map fst pre)"
      "port_error (i + length pre) (seen \<union> set (map (Name \<circ> fst) pre)) c' = Some err" by blast
    show "port_error i seen c = Some err \<or>
      port_error i seen c = None \<and> ?R (Suc i) (insert (Name c) seen) xs"
    proof (cases pre)
      case Nil
      with r x show ?thesis by simp
    next
      case (Cons y ys)
      with r x have "port_error i seen c = None" by (auto simp: port_error_def cfg_ok_Cons)
      moreover have "?R (Suc i) (insert (Name c) seen) xs"
        using r x Cons by (intro exI [of _ ys] exI [of _ c'] exI [of _ h'] exI [of _ post])
          (auto simp: cfg_ok_Cons)
      ultimately show ?thesis by simp
    qed
  next
    assume "port_error i seen c = Some err \<or>
      port_error i seen c = None \<and> ?R (Suc i) (insert (Name c) seen) xs"
    then show "?R i seen (x # xs)"
    proof
      assume "port_error i seen c = Some err"
      then show ?thesis using x by (intro exI [of _ "[]"]) auto
    next
      assume a: "port_error i seen c = None \<and> ?R (Suc i) (insert (Name c) seen) xs"
      then obtain pre c' h' post where r: "xs = pre @ (c', h') # post"
        "cfg_ok (insert (Name c) seen) (map fst pre)"
        "port_error (Suc i + length pre) (insert (Name c) seen \<union> set (map (Name \<circ> fst) pre)) c' = Some err"
        by blast
      from a have "cfg_ok seen (map fst (x # pre))"
        using r(2) x by (auto simp: cfg_ok_Cons port_error_def split: if_splits)
      then show ?thesis
        using r x by (intro exI [of _ "x # pre"] exI [of _ c'] exI [of _ h'] exI [of _ post]) auto
    qed
  qed
  show ?case
    unfolding split
    by (auto simp: x Let_def Cons.IH port_error_def simp del: make_port_sel)
qed

lemma add_ports_error_at:
  assumes "length cfg = length ios"
  shows "add_ports 0 {} False False [] (zip cfg ios) = Inl err \<longleftrightarrow>
    (\<exists>j < length cfg. cfg_ok {} (take j cfg) \<and>
        port_error j (set (map Name (take j cfg))) (cfg ! j) = Some err)" (is "?L \<longleftrightarrow> ?R")
proof
  assume ?L
  then obtain pre c h post where r: "zip cfg ios = pre @ (c, h) # post" "cfg_ok {} (map fst pre)"
    "port_error (length pre) (set (map (Name \<circ> fst) pre)) c = Some err"
    by (auto simp: add_ports_error_iff)
  have cfg: "cfg = map fst pre @ c # map fst post"
    using arg_cong [OF r(1), of "map fst"] assms by simp
  then show ?R
    using r by (intro exI [of _ "length pre"]) (auto simp: nth_append)
next
  assume ?R
  then obtain j where j: "j < length cfg" "cfg_ok {} (take j cfg)"
    "port_error j (set (map Name (take j cfg))) (cfg ! j) = Some err" by blast
  have "zip cfg ios = take j (zip cfg ios) @ (cfg ! j, ios ! j) # drop (Suc j) (zip cfg ios)"
    using j(1) assms id_take_nth_drop [of j "zip cfg ios"] by simp
  moreover have "map fst (take j (zip cfg ios)) = take j cfg"
    using assms by (simp add: take_zip)
  moreover have "length (take j (zip cfg ios)) = j" using j(1) assms by simp
  ultimately show ?L
    using j by (simp only: add_ports_error_iff)
      (metis (no_types, lifting) add_0 list.map_comp sup_bot.left_neutral)
qed

section \<open>The membership loop\<close>

definition vids_at :: "(u16 \<rightharpoonup> nat list) \<Rightarrow> u16 \<Rightarrow> nat list" where
  "vids_at m v = (case m v of None \<Rightarrow> [] | Some is \<Rightarrow> is)"

lemma members_vids_at: "members e v = vids_at (vidMembers e) v"
  by (simp add: members_def vids_at_def)

lemma vids_at_append_member:
  "vids_at (append_member v i m) w = vids_at m w @ (if w = v then [i] else [])"
  by (simp add: append_member_def vids_at_def)

lemma append_member_commute:
  "v \<noteq> w \<Longrightarrow> append_member v i (append_member w i m) = append_member w i (append_member v i m)"
  by (simp add: append_member_def fun_eq_iff)

lemma vids_at_fold_append:
  "distinct vs \<Longrightarrow>
     vids_at (fold (\<lambda>v. append_member v i) vs m) w = vids_at m w @ (if w \<in> set vs then [i] else [])"
  by (induction vs arbitrary: m) (auto simp: vids_at_append_member)

lemma append_member_at: "append_member v i m w = (if w = v then Some (vids_at m v @ [i]) else m w)"
  by (simp add: append_member_def vids_at_def)

lemma fold_append_member_at:
  "distinct vs \<Longrightarrow>
     fold (\<lambda>v. append_member v i) vs m w = (if w \<in> set vs then Some (vids_at m w @ [i]) else m w)"
  by (induction vs arbitrary: m) (auto simp: append_member_at vids_at_append_member)

text \<open>
  A well-formed port: its \<open>allow\<close> map is the set of its configured trunk VLANs (what
  \<open>make_port\<close> builds).
\<close>

definition port_ok :: "'h port \<Rightarrow> bool" where
  "port_ok p \<longleftrightarrow> (role p = roleTrunk \<longrightarrow> (\<forall>v. allowed p v \<longleftrightarrow> v \<in> set (trunkVIDs p)))"

lemma port_ok_make_port [simp]: "port_ok (make_port i c h)"
  by (auto simp: port_ok_def make_port_def allowed_def Let_def)

lemma vids_at_join_vlans:
  "port_ok p \<Longrightarrow> vids_at (join_vlans p m) v = vids_at m v @ (if vlan_member p v then [idx p] else [])"
  by (auto simp: join_vlans_def vids_at_append_member vids_at_fold_append vlan_member_def port_ok_def
      split: portRole.splits)

lemma vids_at_fold_join:
  "\<forall>p \<in> set ps. port_ok p \<Longrightarrow>
     vids_at (fold join_vlans ps m) v = vids_at m v @ map idx (filter (\<lambda>p. vlan_member p v) ps)"
  by (induction ps arbitrary: m) (auto simp: vids_at_join_vlans)

lemma map_idx_filter:
  assumes "\<forall>j < length ps. idx (ps ! j) = j"
  shows "map idx (filter (\<lambda>p. P p) ps) = filter (\<lambda>j. P (ps ! j)) [0..<length ps]"
  using assms
proof (induction ps rule: rev_induct)
  case Nil
  then show ?case by simp
next
  case (snoc p ps)
  have "\<forall>j < length ps. idx (ps ! j) = j"
    using snoc.prems by (metis length_append_singleton less_SucI nth_append)
  then have "map idx (filter P ps) = filter (\<lambda>j. P (ps ! j)) [0..<length ps]"
    by (rule snoc.IH)
  moreover have "filter (\<lambda>j. P (ps ! j)) [0..<length ps] =
      filter (\<lambda>j. P ((ps @ [p]) ! j)) [0..<length ps]"
    by (rule filter_cong) (auto simp: nth_append)
  moreover have "idx p = length ps"
    using snoc.prems by (auto dest: spec [of _ "length ps"])
  ultimately show ?case by simp
qed

section \<open>The engine invariant\<close>

definition index_ok :: "'h port list \<Rightarrow> bool" where
  "index_ok ps \<longleftrightarrow> (\<forall>j < length ps. idx (ps ! j) = j)"

definition in_vlan :: "'h engine \<Rightarrow> u16 \<Rightarrow> nat \<Rightarrow> bool" where
  "in_vlan e v j \<longleftrightarrow> j < length (ports e) \<and> vlan_member (ports e ! j) v"

definition engine_wf :: "'h engine \<Rightarrow> bool" where
  "engine_wf e \<longleftrightarrow>
     ports e \<noteq> [] \<and> index_ok (ports e) \<and>
     (\<forall>v. members e v = filter (in_vlan e v) [0..<length (ports e)]) \<and>
     ft.confined (in_vlan e) (fdb e) \<and>
     (\<forall>p \<in> set (ports e). vlanAware e \<longleftrightarrow> role p \<noteq> rolePlain)"

lemma engine_wf_members:
  "engine_wf e \<Longrightarrow> members e v = filter (in_vlan e v) [0..<length (ports e)]"
  by (simp add: engine_wf_def)

lemma engine_wf_idx: "engine_wf e \<Longrightarrow> j < length (ports e) \<Longrightarrow> idx (ports e ! j) = j"
  by (simp add: engine_wf_def index_ok_def)

lemma engine_wf_role: "engine_wf e \<Longrightarrow> j < length (ports e) \<Longrightarrow> vlanAware e \<longleftrightarrow> role (ports e ! j) \<noteq> rolePlain"
  by (simp add: engine_wf_def)

lemma engine_wf_Lookup: "engine_wf e \<Longrightarrow> Lookup (fdb e) v m now = Some p \<Longrightarrow> in_vlan e v p"
  unfolding engine_wf_def by (blast intro: ft.confined_lookup)

section \<open>What NewEngine accepts and builds\<close>

definition acceptable :: "PortConfig list \<Rightarrow> bool" where
  "acceptable cfg \<longleftrightarrow> cfg \<noteq> [] \<and> cfg_ok {} cfg \<and>
     ((\<forall>c \<in> set cfg. vlan_cfg c) \<or> (\<forall>c \<in> set cfg. \<not> vlan_cfg c))"

definition built :: "PortConfig list \<Rightarrow> 'h list \<Rightarrow> 'h engine" where
  "built cfg ios =
     \<lparr>ports = ports_from 0 (zip cfg ios), fdb = newFDB,
      vidMembers = fold join_vlans (ports_from 0 (zip cfg ios)) Map.empty,
      vlanAware = list_ex vlan_cfg cfg, wire = []\<rparr>"

lemma NewEngine_Inr_iff:
  "NewEngine cfg ios = Inr e \<longleftrightarrow>
     length cfg = length ios \<and> acceptable cfg \<and> e = built cfg ios"
proof (cases "length cfg = length ios \<and> cfg \<noteq> []")
  case False
  then show ?thesis by (auto simp: NewEngine_def acceptable_def)
next
  case True
  then have fst: "map fst (zip cfg ios) = cfg" by simp
  show ?thesis
  proof (cases "add_ports 0 {} False False [] (zip cfg ios)")
    case (Inl err)
    then have "\<not> cfg_ok {} cfg"
      using add_ports_ok_iff [of 0 "{}" False False "[]" "zip cfg ios"] fst by auto
    with Inl True show ?thesis by (auto simp: NewEngine_def acceptable_def)
  next
    case (Inr r)
    then have "cfg_ok {} cfg" and "r = (\<exists>c \<in> set cfg. vlan_cfg c, \<exists>c \<in> set cfg. \<not> vlan_cfg c,
        ports_from 0 (zip cfg ios))"
      using add_ports_ok_iff [of 0 "{}" False False "[]" "zip cfg ios" r] fst by auto
    with Inr True show ?thesis
      by (auto simp: NewEngine_def acceptable_def built_def list_ex_iff)
  qed
qed

lemma index_ok_ports_from: "index_ok (ports_from 0 xs)"
  by (simp add: index_ok_def nth_ports_from)

lemma set_ports_from_ok: "\<forall>p \<in> set (ports_from i xs). port_ok p"
  by (auto simp: ports_from_def)

lemma members_built:
  "members (built cfg ios) v = filter (in_vlan (built cfg ios) v) [0..<length (ports (built cfg ios))]"
proof -
  let ?ps = "ports_from 0 (zip cfg ios)"
  have "members (built cfg ios) v = map idx (filter (\<lambda>p. vlan_member p v) ?ps)"
    by (simp add: members_vids_at built_def vids_at_fold_join set_ports_from_ok)
      (simp add: vids_at_def)
  also have "\<dots> = filter (\<lambda>j. vlan_member (?ps ! j) v) [0..<length ?ps]"
    by (rule map_idx_filter) (use index_ok_ports_from [of "zip cfg ios"] in \<open>simp add: index_ok_def\<close>)
  also have "\<dots> = filter (in_vlan (built cfg ios) v) [0..<length (ports (built cfg ios))]"
    by (auto simp: built_def in_vlan_def intro!: filter_cong)
  finally show ?thesis .
qed

lemma role_built:
  assumes "length cfg = length ios" and "acceptable cfg" and "p \<in> set (ports_from 0 (zip cfg ios))"
  shows "list_ex vlan_cfg cfg \<longleftrightarrow> role p \<noteq> rolePlain"
proof -
  obtain j where j: "j < length cfg" "p = make_port j (cfg ! j) (ios ! j)"
    using assms(1,3) by (auto simp: in_set_conv_nth nth_ports_from)
  then have "role p \<noteq> rolePlain \<longleftrightarrow> vlan_cfg (cfg ! j)"
    by (simp add: role_make_port_plain del: make_port_sel)
  then show ?thesis
    using assms(2) j(1) nth_mem [OF j(1)] unfolding acceptable_def list_ex_iff by blast
qed

lemma engine_wf_built:
  assumes "length cfg = length ios" and "acceptable cfg"
  shows "engine_wf (built cfg ios)"
proof -
  let ?ps = "ports_from 0 (zip cfg ios)"
  have ports: "ports (built cfg ios) = ?ps" and aware: "vlanAware (built cfg ios) = list_ex vlan_cfg cfg"
    and fdb: "fdb (built cfg ios) = newFDB"
    by (simp_all add: built_def)
  have "0 < length cfg" using assms(2) by (simp add: acceptable_def)
  then have ne: "?ps \<noteq> []" using assms(1) length_ports_from [of 0 "zip cfg ios"] by force
  show ?thesis
    unfolding engine_wf_def
  proof (intro conjI allI ballI)
    show "members (built cfg ios) v =
        filter (in_vlan (built cfg ios) v) [0..<length (ports (built cfg ios))]" for v
      by (rule members_built)
    show "vlanAware (built cfg ios) \<longleftrightarrow> role p \<noteq> rolePlain" if "p \<in> set (ports (built cfg ios))" for p
      using role_built [OF assms] that by (simp add: ports aware)
  qed (simp_all add: ports fdb ne index_ok_ports_from ft.confined_def)
qed

text \<open>Two small configurations the witnesses use.\<close>

definition example_vlan_cfg :: "PortConfig list" where
  "example_vlan_cfg =
     [\<lparr>Name = ''sw1'', AccessVID = 10, Trunk = []\<rparr>, \<lparr>Name = ''sw2'', AccessVID = 10, Trunk = []\<rparr>,
      \<lparr>Name = ''sw3'', AccessVID = 20, Trunk = []\<rparr>, \<lparr>Name = ''sw4'', AccessVID = 0, Trunk = [10, 20]\<rparr>,
      \<lparr>Name = ''sw5'', AccessVID = 0, Trunk = [10, 20]\<rparr>]"

definition example_plain_cfg :: "PortConfig list" where
  "example_plain_cfg =
     [\<lparr>Name = ''sw1'', AccessVID = 0, Trunk = []\<rparr>, \<lparr>Name = ''sw2'', AccessVID = 0, Trunk = []\<rparr>,
      \<lparr>Name = ''sw3'', AccessVID = 0, Trunk = []\<rparr>]"

lemma acceptable_examples: "acceptable example_vlan_cfg" "acceptable example_plain_cfg"
  by (simp_all add: acceptable_def cfg_ok_def vlan_cfg_def example_vlan_cfg_def example_plain_cfg_def)

lemma length_examples [simp]: "length example_vlan_cfg = 5" "length example_plain_cfg = 3"
  by (simp_all add: example_vlan_cfg_def example_plain_cfg_def)

text \<open>What a port configuration asks for, without reference to the port built from it.\<close>

definition cfg_in_vlan :: "PortConfig \<Rightarrow> u16 \<Rightarrow> bool" where
  "cfg_in_vlan c v \<longleftrightarrow>
     (if Trunk c \<noteq> [] then v \<in> set (Trunk c) else if AccessVID c \<noteq> 0 then v = AccessVID c else v = 0)"

definition cfg_ingress :: "PortConfig \<Rightarrow> bool \<Rightarrow> u16 \<Rightarrow> u16 option" where
  "cfg_ingress c tagged tag =
     (if Trunk c \<noteq> [] then if tagged \<and> tag \<in> set (Trunk c) then Some tag else None
      else if AccessVID c \<noteq> 0 then if tagged then None else Some (AccessVID c)
      else Some 0)"

lemma make_port_vlans:
  "vlan_member (make_port i c h) v = cfg_in_vlan c v"
  "classify (make_port i c h) tagged tag = cfg_ingress c tagged tag"
  by (auto simp: vlan_member_def classify_def cfg_in_vlan_def cfg_ingress_def make_port_def allowed_def Let_def
      roleOf_iffs roleOf_def split: portRole.splits if_splits)

lemma in_vlan_built:
  "length cfg = length ios \<Longrightarrow> in_vlan (built cfg ios) v j \<longleftrightarrow> j < length cfg \<and> cfg_in_vlan (cfg ! j) v"
  by (auto simp: in_vlan_def built_def nth_ports_from make_port_vlans simp del: make_port_sel)

text \<open>
  C18: NewEngine succeeds on every acceptable configuration (one handle per port, at least one
  port, non-empty and pairwise different names, no port both access and trunk, no mix of plain
  and VLAN ports). The engine it returns satisfies the invariant and has one port per
  configuration, in order, with its name, its handle, zero counters and the role the configuration
  implies. Which VLAN each port puts a received frame in, and which ports a VLAN is flooded to, are
  what the configuration asks for; the table is empty.
\<close>

theorem NewEngine_builds:
  assumes "length cfg = length ios" and "acceptable cfg"
  shows "\<exists>e. NewEngine cfg ios = Inr e \<and> engine_wf e \<and> length (ports e) = length cfg \<and>
     (\<forall>j < length cfg. name (ports e ! j) = Name (cfg ! j) \<and> io (ports e ! j) = ios ! j \<and>
        stats (ports e ! j) = zeroStats \<and>
        role (ports e ! j) = roleOf (AccessVID (cfg ! j)) (Trunk (cfg ! j)) \<and>
        (\<forall>tagged tag. classify (ports e ! j) tagged tag = cfg_ingress (cfg ! j) tagged tag)) \<and>
     (\<forall>v j. in_vlan e v j \<longleftrightarrow> j < length cfg \<and> cfg_in_vlan (cfg ! j) v) \<and>
     (\<forall>v. members e v = filter (\<lambda>j. cfg_in_vlan (cfg ! j) v) [0..<length cfg]) \<and>
     (vlanAware e \<longleftrightarrow> (\<exists>c \<in> set cfg. AccessVID c \<noteq> 0 \<or> Trunk c \<noteq> [])) \<and> fdb e = newFDB \<and> wire e = []"
proof (intro exI conjI)
  show "NewEngine cfg ios = Inr (built cfg ios)" using assms by (simp add: NewEngine_Inr_iff)
  show "engine_wf (built cfg ios)" using assms by (rule engine_wf_built)
  show "\<forall>v. members (built cfg ios) v = filter (\<lambda>j. cfg_in_vlan (cfg ! j) v) [0..<length cfg]"
  proof
    have "length (ports (built cfg ios)) = length cfg" using assms(1) by (simp add: built_def)
    then show "members (built cfg ios) v = filter (\<lambda>j. cfg_in_vlan (cfg ! j) v) [0..<length cfg]" for v
      by (simp only: members_built) (rule filter_cong, simp_all add: in_vlan_built [OF assms(1)])
  qed
  show "\<forall>v j. in_vlan (built cfg ios) v j \<longleftrightarrow> j < length cfg \<and> cfg_in_vlan (cfg ! j) v"
    using in_vlan_built [OF assms(1)] by blast
  show "vlanAware (built cfg ios) \<longleftrightarrow> (\<exists>c \<in> set cfg. AccessVID c \<noteq> 0 \<or> Trunk c \<noteq> [])"
    by (auto simp: built_def list_ex_iff vlan_cfg_def)
qed (use assms in \<open>auto simp: built_def nth_ports_from make_port_vlans\<close>)

theorem NewEngine_builds_witness:
  "\<exists>e. NewEngine example_vlan_cfg [(), (), (), (), ()] = Inr e \<and> engine_wf e \<and>
     name (ports e ! 3) = Name (example_vlan_cfg ! 3) \<and> \<not> in_vlan e 7 3 \<and>
     (\<forall>v. members e v = filter (\<lambda>j. cfg_in_vlan (example_vlan_cfg ! j) v) [0..<5])"
proof -
  have "\<not> cfg_in_vlan (example_vlan_cfg ! 3) 7" by code_simp
  with NewEngine_builds [of example_vlan_cfg "[(), (), (), (), ()]"] show ?thesis by (auto simp: acceptable_examples)
qed

text \<open>
  C19: NewEngine fails exactly as follows, the first failing test winning: a count mismatch; no
  ports; the first port in order that has an empty name, repeats an earlier name or sets both
  access and trunk, reported with its index or name; and last a mix of plain and VLAN ports.
\<close>

theorem NewEngine_rejects:
  "NewEngine cfg ios = Inl err \<longleftrightarrow>
     (if length cfg \<noteq> length ios then err = ConfigHandleMismatch (length cfg) (length ios)
      else if cfg = [] then err = NoPorts
      else if cfg_ok {} cfg
        then (\<exists>c \<in> set cfg. vlan_cfg c) \<and> (\<exists>c \<in> set cfg. \<not> vlan_cfg c) \<and> err = MixedPlainAndVLAN
      else (\<exists>j < length cfg. cfg_ok {} (take j cfg) \<and>
              port_error j (set (map Name (take j cfg))) (cfg ! j) = Some err))"
proof -
  let ?A = "add_ports 0 {} False False [] (zip cfg ios)"
  consider (mism) "length cfg \<noteq> length ios" | (empty) "length cfg = length ios" "cfg = []"
    | (ok) "length cfg = length ios" "cfg \<noteq> []" "cfg_ok {} cfg"
    | (bad) "length cfg = length ios" "cfg \<noteq> []" "\<not> cfg_ok {} cfg" by blast
  then show ?thesis
  proof cases
    case mism
    then show ?thesis by (auto simp: NewEngine_def)
  next
    case empty
    then show ?thesis by (auto simp: NewEngine_def)
  next
    case ok
    then have "?A = Inr (\<exists>c \<in> set cfg. vlan_cfg c, \<exists>c \<in> set cfg. \<not> vlan_cfg c, ports_from 0 (zip cfg ios))"
      by (subst add_ports_ok_iff) simp
    with ok show ?thesis by (auto simp: NewEngine_def)
  next
    case bad
    then obtain e where e: "?A = Inl e"
      using add_ports_ok_iff [of 0 "{}" False False "[]" "zip cfg ios"] by (cases ?A) auto
    have "?A = Inl err \<longleftrightarrow> (\<exists>j < length cfg. cfg_ok {} (take j cfg) \<and>
              port_error j (set (map Name (take j cfg))) (cfg ! j) = Some err)"
      using bad(1) by (rule add_ports_error_at)
    with bad e show ?thesis by (auto simp: NewEngine_def)
  qed
qed

text \<open>
  The order in which Go iterates over a trunk port's allowed VLANs does not matter: visiting
  the same set of VLANs in any order, each once, builds the same membership map.
\<close>

theorem range_order_irrelevant:
  assumes "role p = roleTrunk" and "distinct vs" and "set vs = set (trunkVIDs p)"
  shows "fold (\<lambda>v. append_member v (idx p)) vs m = join_vlans p m"
  using assms by (simp add: join_vlans_def fun_eq_iff fold_append_member_at)

theorem range_order_irrelevant_witness:
  "fold (\<lambda>v. append_member v (idx (make_port 3 (example_vlan_cfg ! 3) ()))) [20, 10] Map.empty =
     join_vlans (make_port 3 (example_vlan_cfg ! 3) ()) Map.empty"
  by (rule range_order_irrelevant) (auto simp: example_vlan_cfg_def make_port_def)

end
