(* ===== verification/Forwarding.thy ===== *)
theory Forwarding
  imports Construction
begin

text \<open>
  The forwarding path proved against a specification. \<open>ingress\<close> is what a received frame means
  (its VLAN and its decoded view, or nothing when it is dropped), \<open>destinations\<close> the ports a
  learning switch sends it to. \<open>forward_refines\<close> says that \<open>forward\<close> does exactly that, never
  panics and keeps the engine invariant; the properties of the switch (isolation, split horizon,
  learning, flooding, counters) follow from it.
\<close>

section \<open>Frame conditions\<close>

definition same_config :: "'h engine \<Rightarrow> 'h engine \<Rightarrow> bool" where
  "same_config e e' \<longleftrightarrow> map port_cfg (ports e') = map port_cfg (ports e) \<and>
     vidMembers e' = vidMembers e \<and> vlanAware e' = vlanAware e"

lemma same_config_refl [simp]: "same_config e e"
  by (simp add: same_config_def)

lemma same_config_trans: "same_config e e' \<Longrightarrow> same_config e' e'' \<Longrightarrow> same_config e e''"
  by (simp add: same_config_def)

lemma same_config_length: "same_config e e' \<Longrightarrow> length (ports e') = length (ports e)"
  by (metis length_map same_config_def)

lemma same_config_nth:
  "same_config e e' \<Longrightarrow> j < length (ports e) \<Longrightarrow> port_cfg (ports e' ! j) = port_cfg (ports e ! j)"
  using same_config_length [of e e'] nth_map [of j "ports e" port_cfg] nth_map [of j "ports e'" port_cfg]
  by (simp add: same_config_def)

lemma same_config_in_vlan:
  assumes "same_config e e'"
  shows "in_vlan e' = in_vlan e"
proof (intro ext)
  fix v j
  show "in_vlan e' v j = in_vlan e v j"
  proof (cases "j < length (ports e)")
    case True
    then have "vlan_member (ports e' ! j) = vlan_member (ports e ! j)"
      by (intro port_cfg_fields(4) same_config_nth [OF assms])
    then show ?thesis by (simp add: in_vlan_def same_config_length [OF assms])
  qed (simp add: in_vlan_def same_config_length [OF assms])
qed

lemma same_config_role:
  "same_config e e' \<Longrightarrow> j < length (ports e) \<Longrightarrow> role (ports e' ! j) = role (ports e ! j)"
  using port_cfg_fields(3) [OF same_config_nth] .

lemma same_config_wf:
  assumes sc: "same_config e e'" and wf: "engine_wf e" and conf: "ft.confined (in_vlan e) (fdb e')"
  shows "engine_wf e'"
  unfolding engine_wf_def
proof (intro conjI allI ballI)
  note len = same_config_length [OF sc]
  show "ports e' \<noteq> []" using wf len by (auto simp: engine_wf_def)
  show "index_ok (ports e')"
    using wf port_cfg_fields(1) [OF same_config_nth [OF sc]] len by (auto simp: engine_wf_def index_ok_def)
  have "vidMembers e' = vidMembers e" using sc by (simp add: same_config_def)
  then show "members e' v = filter (in_vlan e' v) [0..<length (ports e')]" for v
    using engine_wf_members [OF wf] by (simp add: members_def len same_config_in_vlan [OF sc])
  show "ft.confined (in_vlan e') (fdb e')" using conf by (simp add: same_config_in_vlan [OF sc])
  show "vlanAware e' \<longleftrightarrow> role p \<noteq> rolePlain" if p: "p \<in> set (ports e')" for p
  proof -
    obtain j where j: "j < length (ports e)" "p = ports e' ! j"
      using p len by (auto simp: in_set_conv_nth)
    have "vlanAware e \<longleftrightarrow> role (ports e ! j) \<noteq> rolePlain"
      using wf nth_mem [OF j(1)] by (simp add: engine_wf_def)
    then show ?thesis
      using sc same_config_role [OF sc j(1)] j(2) by (simp add: same_config_def)
  qed
qed

lemma upd_port_sel [simp]:
  "fdb (upd_port i f e) = fdb e" "vidMembers (upd_port i f e) = vidMembers e"
  "vlanAware (upd_port i f e) = vlanAware e" "wire (upd_port i f e) = wire e"
  "length (ports (upd_port i f e)) = length (ports e)"
  by (simp_all add: upd_port_def)

lemma nth_upd_port:
  "j < length (ports e) \<Longrightarrow> ports (upd_port i f e) ! j = (if j = i then f (ports e ! i) else ports e ! j)"
  by (simp add: upd_port_def nth_list_update_if)

lemma members_upd_port [simp]: "members (upd_port i f e) v = members e v"
  by (simp add: members_def)

lemma members_fdb_update [simp]: "members (fdb_update f e) v = members e v"
  by (simp add: members_def)

lemma same_config_upd_port:
  "(\<And>p. port_cfg (f p) = port_cfg p) \<Longrightarrow> same_config e (upd_port i f e)"
  by (simp add: same_config_def upd_port_def map_update_same)

section \<open>Egress\<close>

lemma emit_effect:
  assumes "j < length (ports e)"
  shows "\<exists>e' ok h. WritePacketData ops (io (ports e ! j)) (egress_frame ser (role (ports e ! j)) fv vid) = (ok, h) \<and>
     emit ser ops j fv vid e = Some e' \<and>
     wire e' = wire e @ [(j, egress_frame ser (role (ports e ! j)) fv vid, ok)] \<and>
     fdb e' = fdb e \<and> same_config e e' \<and>
     (\<forall>k < length (ports e). ports e' ! k =
        (if k = j then (if ok then count_tx (egress_frame ser (role (ports e ! j)) fv vid) else count_txDrop)
                         ((ports e ! j)\<lparr>io := h\<rparr>)
         else ports e ! k))"
proof -
  let ?pkt = "egress_frame ser (role (ports e ! j)) fv vid"
  obtain ok h where w: "WritePacketData ops (io (ports e ! j)) ?pkt = (ok, h)" by fastforce
  let ?e2 = "(upd_port j (\<lambda>p. p\<lparr>io := h\<rparr>) e)\<lparr>wire := wire e @ [(j, ?pkt, ok)]\<rparr>"
  let ?e3 = "upd_port j (if ok then count_tx ?pkt else count_txDrop) ?e2"
  have "emit ser ops j fv vid e = Some ?e3"
    using assms w by (simp add: emit_def nth_opt_def Let_def)
  moreover have "same_config e ?e2"
    using same_config_upd_port [of "\<lambda>p. p\<lparr>io := h\<rparr>" e j] by (simp add: same_config_def)
  then have "same_config e ?e3"
    by (rule same_config_trans) (rule same_config_upd_port, simp)
  moreover have "ports ?e3 ! k = (if k = j then (if ok then count_tx ?pkt else count_txDrop) ((ports e ! j)\<lparr>io := h\<rparr>)
         else ports e ! k)" if "k < length (ports e)" for k
    using that by (simp add: nth_upd_port)
  ultimately show ?thesis
    using w by (intro exI [of _ ?e3] exI [of _ ok] exI [of _ h]) simp
qed

text \<open>What an egress write to port \<open>j\<close> looks like on the wire, up to its outcome.\<close>

definition wire_frames :: "serializer \<Rightarrow> 'h engine \<Rightarrow> frameView \<Rightarrow> u16 \<Rightarrow> nat list \<Rightarrow> (nat \<times> frame) list" where
  "wire_frames ser e fv vid outs = map (\<lambda>j. (j, egress_frame ser (role (ports e ! j)) fv vid)) outs"

definition untimed :: "(nat \<times> frame \<times> bool) list \<Rightarrow> (nat \<times> frame) list" where
  "untimed ws = map (\<lambda>(j, pkt, ok). (j, pkt)) ws"

lemma untimed_simps [simp]:
  "untimed [] = []" "untimed ((j, pkt, ok) # ws) = (j, pkt) # untimed ws"
  "untimed (ws @ ws') = untimed ws @ untimed ws'"
  by (simp_all add: untimed_def)

lemma wire_frames_cong:
  "same_config e e' \<Longrightarrow> \<forall>j \<in> set outs. j < length (ports e) \<Longrightarrow>
     wire_frames ser e' fv vid outs = wire_frames ser e fv vid outs"
  by (auto simp: wire_frames_def same_config_role)

lemma emits_effect:
  assumes "\<forall>j \<in> set outs. j < length (ports e)"
  shows "\<exists>e' ws. foldM (\<lambda>j. emit ser ops j fv vid) outs e = Some e' \<and> wire e' = wire e @ ws \<and>
     untimed ws = wire_frames ser e fv vid outs \<and> fdb e' = fdb e \<and> same_config e e'"
  using assms
proof (induction outs arbitrary: e)
  case Nil
  then show ?case by (auto simp: wire_frames_def)
next
  case (Cons j outs)
  from Cons.prems have "j < length (ports e)" by simp
  from emit_effect [OF this, of ops ser fv vid] obtain e1 ok where e1:
    "emit ser ops j fv vid e = Some e1"
    "wire e1 = wire e @ [(j, egress_frame ser (role (ports e ! j)) fv vid, ok)]"
    "fdb e1 = fdb e" "same_config e e1" by blast
  have "\<forall>j \<in> set outs. j < length (ports e1)"
    using Cons.prems same_config_length [OF e1(4)] by simp
  from Cons.IH [OF this] obtain e' ws where e': "foldM (\<lambda>j. emit ser ops j fv vid) outs e1 = Some e'"
    "wire e' = wire e1 @ ws" "untimed ws = wire_frames ser e1 fv vid outs"
    "fdb e' = fdb e1" "same_config e1 e'" by blast
  have "untimed ws = wire_frames ser e fv vid outs"
    using e'(3) wire_frames_cong [OF e1(4), of outs ser fv vid] Cons.prems by simp
  with e1 e' show ?case
    by (intro exI [of _ e'] exI [of _ "(j, egress_frame ser (role (ports e ! j)) fv vid, ok) # ws"])
      (auto simp: wire_frames_def intro: same_config_trans)
qed

section \<open>The specification of one frame\<close>

text \<open>
  \<open>ingress\<close>: the VLAN and the view of a frame received on a port, \<open>None\<close> when the frame is
  dropped because it does not parse or its tag is illegal for the port's role.
\<close>

definition ingress :: "decoder \<Rightarrow> 'h port \<Rightarrow> frame \<Rightarrow> (u16 \<times> frameView) option" where
  "ingress decode p frm =
     (let fp = decode (parser p) frm;
          tagged = (LayerTypeDot1Q \<in> set (dec fp));
          fv = view_of fp tagged frm
      in if LayerTypeEthernet \<notin> set (dec fp) \<or> length (DstMAC (eth fp)) \<noteq> 6 \<or> length (SrcMAC (eth fp)) \<noteq> 6
         then None
         else map_option (\<lambda>vid. (vid, fv)) (classify p tagged (tagVID fv)))"

definition group_address :: "mac \<Rightarrow> bool" where
  "group_address m \<longleftrightarrow> and (hd m) 1 \<noteq> 0"

definition learn_source :: "FDB \<Rightarrow> u16 \<Rightarrow> nat \<Rightarrow> frameView \<Rightarrow> i64 \<Rightarrow> FDB" where
  "learn_source f vid i fv now = (if group_address (src fv) then f else Learn f vid (src fv) i now)"

definition known_port :: "FDB \<Rightarrow> u16 \<Rightarrow> frameView \<Rightarrow> i64 \<Rightarrow> nat option" where
  "known_port f vid fv now = (if group_address (dst fv) then None else Lookup f vid (dst fv) now)"

definition destinations :: "'h engine \<Rightarrow> nat \<Rightarrow> u16 \<Rightarrow> frameView \<Rightarrow> i64 \<Rightarrow> nat list" where
  "destinations e i vid fv now =
     (case known_port (learn_source (fdb e) vid i fv now) vid fv now of
        Some out \<Rightarrow> (if out = i then [] else [out])
      | None \<Rightarrow> filter (\<lambda>j. j \<noteq> i \<and> in_vlan e vid j) [0..<length (ports e)])"

lemma view_of_sel [simp]:
  "dst (view_of fp t frm) = DstMAC (eth fp)" "src (view_of fp t frm) = SrcMAC (eth fp)"
  "hasTag (view_of fp t frm) = t" "raw (view_of fp t frm) = frm"
  by (simp_all add: view_of_def Let_def)

lemma tagVID_view_of [simp]: "tagVID (view_of fp t frm) = (if t then VLANIdentifier (dot1q fp) else 0)"
  by (simp add: view_of_def Let_def)

lemma ingress_SomeD:
  assumes "ingress decode p frm = Some (vid, fv)"
  shows "length (dst fv) = 6" "length (src fv) = 6" "raw fv = frm" "vlan_member p vid"
    "classify p (hasTag fv) (tagVID fv) = Some vid"
  using assms by (auto simp: ingress_def Let_def classify_member split: if_splits)

section \<open>One frame\<close>

text \<open>The engine after the frame is counted and decoded, and its source learned.\<close>

definition received :: "decoder \<Rightarrow> nat \<Rightarrow> frame \<Rightarrow> 'h engine \<Rightarrow> 'h engine" where
  "received decode i frm e =
     upd_port i (\<lambda>p. p\<lparr>parser := decode (parser (ports e ! i)) frm\<rparr>) (upd_port i (count_rx frm) e)"

definition learned :: "u16 \<Rightarrow> nat \<Rightarrow> frameView \<Rightarrow> i64 \<Rightarrow> 'h engine \<Rightarrow> 'h engine" where
  "learned vid i fv now e = e\<lparr>fdb := learn_source (fdb e) vid i fv now\<rparr>"

lemma received_sel [simp]:
  "fdb (received decode i frm e) = fdb e" "wire (received decode i frm e) = wire e"
  "members (received decode i frm e) v = members e v"
  "length (ports (received decode i frm e)) = length (ports e)"
  by (simp_all add: received_def)

lemma learned_sel [simp]:
  "wire (learned vid i fv now e) = wire e" "ports (learned vid i fv now e) = ports e"
  "members (learned vid i fv now e) v = members e v"
  "fdb (learned vid i fv now e) = learn_source (fdb e) vid i fv now"
  by (simp_all add: learned_def members_def)

lemma same_config_received: "same_config e (received decode i frm e)"
  unfolding received_def
  by (rule same_config_trans; rule same_config_upd_port) simp_all

lemma same_config_learned: "same_config e (learned vid i fv now e)"
  by (simp add: learned_def same_config_def)

lemma nth_opt_0_hd: "length m = 6 \<Longrightarrow> nth_opt m 0 = Some (hd m)"
  by (cases m) (simp_all add: nth_opt_def)

lemma filter_members:
  "engine_wf e \<Longrightarrow>
     filter (\<lambda>j. j \<noteq> i) (members e vid) = filter (\<lambda>j. j \<noteq> i \<and> in_vlan e vid j) [0..<length (ports e)]"
  by (simp add: engine_wf_members conj_commute)

lemma forward_dropped:
  assumes "i < length (ports e)" and "ingress decode (ports e ! i) frm = None"
  shows "forward decode ser ops i frm now e = Some (upd_port i count_drop (received decode i frm e))"
  using assms
  by (auto simp: forward_def received_def ingress_def Let_def scan_layers_eq nth_opt_def split: if_splits)

lemma forward_accepted:
  assumes wf: "engine_wf e" and i: "i < length (ports e)"
    and acc: "ingress decode (ports e ! i) frm = Some (vid, fv)"
  shows "forward decode ser ops i frm now e =
    (let e3 = learned vid i fv now (received decode i frm e)
     in foldM (\<lambda>j. emit ser ops j fv vid) (destinations e i vid fv now)
          (if known_port (fdb e3) vid fv now = None then upd_port i count_flood e3 else e3))"
proof -
  let ?e2 = "received decode i frm e"
  let ?e3 = "learned vid i fv now ?e2"
  have flood: "flood ser ops i i fv vid ?e3 =
      foldM (\<lambda>j. emit ser ops j fv vid) (filter (\<lambda>j. j \<noteq> i \<and> in_vlan e vid j) [0..<length (ports e)])
        (upd_port i count_flood ?e3)"
    by (simp add: flood_def Let_def foldM_skip filter_members [OF wf, symmetric])
  have len: "length (dst fv) = 6" "length (src fv) = 6"
    using ingress_SomeD [OF acc] by simp_all
  have idx: "idx (ports e ! i) = i" by (rule engine_wf_idx [OF wf i])
  define fp where "fp = decode (parser (ports e ! i)) frm"
  define tagged where "tagged = (LayerTypeDot1Q \<in> set (dec fp))"
  have fv: "view_of fp tagged frm = fv" and eth: "LayerTypeEthernet \<in> set (dec fp)"
    and macs: "length (DstMAC (eth fp)) = 6" "length (SrcMAC (eth fp)) = 6"
    and cls: "classify (ports e ! i) tagged (tagVID fv) = Some vid"
    using acc by (auto simp: ingress_def Let_def fp_def tagged_def split: if_splits)
  have scan: "scan_layers (dec fp) (False, False) = (True, tagged)"
    using eth by (simp add: scan_layers_eq tagged_def)
  have rec: "upd_port i (\<lambda>p. p\<lparr>parser := fp\<rparr>) (upd_port i (count_rx frm) e) = ?e2"
    by (simp add: received_def fp_def)
  have learn: "(if and (hd (src fv)) 1 = 0
       then ?e2\<lparr>fdb := Learn (fdb ?e2) vid (copy_array 6 (src fv)) i now\<rparr> else ?e2) = ?e3"
    using len by (auto simp: learned_def learn_source_def group_address_def)
  have "forward decode ser ops i frm now e =
      (case Some ?e3 of Some e3 \<Rightarrow>
         if and (hd (dst fv)) 1 = 0
         then (case Lookup (fdb e3) vid (copy_array 6 (dst fv)) now of
                 Some out \<Rightarrow> if out \<noteq> i then emit ser ops out fv vid e3 else Some e3
               | None \<Rightarrow> flood ser ops i i fv vid e3)
         else flood ser ops i i fv vid e3)"
    unfolding forward_def
    by (simp only: nth_opt_def i if_True option.case Let_def fp_def [symmetric] scan prod.case macs not_True_eq_False
        simp_thms if_False fv cls rec nth_opt_0_hd [OF len(1), unfolded nth_opt_def] nth_opt_0_hd [OF len(2), unfolded nth_opt_def] learn idx)
  then have "forward decode ser ops i frm now e =
      (if and (hd (dst fv)) 1 = 0
       then (case Lookup (fdb ?e3) vid (dst fv) now of
               Some out \<Rightarrow> if out \<noteq> i then emit ser ops out fv vid ?e3 else Some ?e3
             | None \<Rightarrow> flood ser ops i i fv vid ?e3)
       else flood ser ops i i fv vid ?e3)"
    using len by simp
  also have "\<dots> = foldM (\<lambda>j. emit ser ops j fv vid) (destinations e i vid fv now)
          (if known_port (fdb ?e3) vid fv now = None then upd_port i count_flood ?e3 else ?e3)"
    unfolding flood
    by (auto simp: destinations_def known_port_def group_address_def split: option.splits)
  finally show ?thesis by (simp add: Let_def)
qed

lemma destinations_in_vlan:
  assumes wf: "engine_wf e" and mem: "in_vlan e vid i"
    and j: "j \<in> set (destinations e i vid fv now)"
  shows "in_vlan e vid j" and "j \<noteq> i"
proof -
  have "ft.confined (in_vlan e) (learn_source (fdb e) vid i fv now)"
    using wf mem by (auto simp: engine_wf_def learn_source_def intro: ft.confined_learn)
  then have "known_port (learn_source (fdb e) vid i fv now) vid fv now = Some p \<Longrightarrow> in_vlan e vid p" for p
    by (auto simp: known_port_def split: if_splits intro: ft.confined_lookup)
  with j show "in_vlan e vid j" "j \<noteq> i"
    by (auto simp: destinations_def split: option.splits if_splits)
qed

lemma distinct_destinations: "distinct (destinations e i vid fv now)"
  by (simp add: destinations_def split: option.split)

text \<open>The state in which the egress writes of an accepted frame start.\<close>

definition ready :: "decoder \<Rightarrow> nat \<Rightarrow> frame \<Rightarrow> i64 \<Rightarrow> u16 \<Rightarrow> frameView \<Rightarrow> 'h engine \<Rightarrow> 'h engine" where
  "ready decode i frm now vid fv e =
     (let e3 = learned vid i fv now (received decode i frm e)
      in if known_port (fdb e3) vid fv now = None then upd_port i count_flood e3 else e3)"

lemma same_config_ready: "same_config e (ready decode i frm now vid fv e)"
proof -
  have "same_config e (learned vid i fv now (received decode i frm e))"
    using same_config_received same_config_learned by (rule same_config_trans)
  moreover have "same_config e' (upd_port i count_flood e')" for e' :: "'a engine"
    by (rule same_config_upd_port) simp
  ultimately show ?thesis
    by (auto simp: ready_def Let_def intro: same_config_trans)
qed

lemma ready_sel [simp]:
  "fdb (ready decode i frm now vid fv e) = learn_source (fdb e) vid i fv now"
  "wire (ready decode i frm now vid fv e) = wire e"
  by (simp_all add: ready_def Let_def)

lemma forward_ready:
  "engine_wf e \<Longrightarrow> i < length (ports e) \<Longrightarrow> ingress decode (ports e ! i) frm = Some (vid, fv) \<Longrightarrow>
     forward decode ser ops i frm now e =
     foldM (\<lambda>j. emit ser ops j fv vid) (destinations e i vid fv now) (ready decode i frm now vid fv e)"
  by (simp add: forward_accepted ready_def Let_def)

lemma ingress_in_vlan:
  "i < length (ports e) \<Longrightarrow> ingress decode (ports e ! i) frm = Some (vid, fv) \<Longrightarrow> in_vlan e vid i"
  by (simp add: in_vlan_def ingress_SomeD)

lemma confined_learn_source:
  "ft.confined (in_vlan e) f \<Longrightarrow> in_vlan e vid i \<Longrightarrow> ft.confined (in_vlan e) (learn_source f vid i fv now)"
  by (simp add: learn_source_def ft.confined_learn)

text \<open>The refinement step, case by case: dropped frames and accepted frames.\<close>

lemma forward_step:
  assumes wf: "engine_wf e" and i: "i < length (ports e)"
  shows "\<exists>e' ws. forward decode ser ops i frm now e = Some e' \<and> engine_wf e' \<and> same_config e e' \<and>
     wire e' = wire e @ ws \<and>
     (case ingress decode (ports e ! i) frm of
        None \<Rightarrow> ws = [] \<and> fdb e' = fdb e
      | Some (vid, fv) \<Rightarrow>
          fdb e' = learn_source (fdb e) vid i fv now \<and>
          untimed ws = wire_frames ser e fv vid (destinations e i vid fv now))"
proof (cases "ingress decode (ports e ! i) frm")
  case None
  let ?e' = "upd_port i count_drop (received decode i frm e)"
  have sc: "same_config e ?e'"
    using same_config_received by (rule same_config_trans) (rule same_config_upd_port, simp)
  have "engine_wf ?e'"
    by (rule same_config_wf [OF sc wf]) (use wf in \<open>simp add: engine_wf_def\<close>)
  then show ?thesis
    using forward_dropped [OF i None] sc None by (intro exI [of _ ?e'] exI [of _ "[]"]) simp
next
  case (Some a)
  obtain vid fv where a: "a = (vid, fv)" by (cases a)
  note acc = Some [unfolded a]
  note mem = ingress_in_vlan [OF i acc]
  let ?r = "ready decode i frm now vid fv e"
  let ?outs = "destinations e i vid fv now"
  have outs: "\<forall>j \<in> set ?outs. j < length (ports ?r)"
    using destinations_in_vlan(1) [OF wf mem] same_config_length [OF same_config_ready]
    by (metis in_vlan_def)
  obtain e' ws where e': "foldM (\<lambda>j. emit ser ops j fv vid) ?outs ?r = Some e'" "wire e' = wire ?r @ ws"
    "untimed ws = wire_frames ser ?r fv vid ?outs" "fdb e' = fdb ?r" "same_config ?r e'"
    using emits_effect [OF outs, of ser ops fv vid] by blast
  have sc: "same_config e e'"
    using same_config_ready e'(5) by (rule same_config_trans)
  have "engine_wf e'"
    by (rule same_config_wf [OF sc wf])
      (use wf mem in \<open>simp add: e'(4) engine_wf_def confined_learn_source\<close>)
  moreover have "untimed ws = wire_frames ser e fv vid ?outs"
    unfolding e'(3)
    by (rule wire_frames_cong [OF same_config_ready])
      (use outs same_config_length [OF same_config_ready] in metis)
  ultimately show ?thesis
    using e' sc acc forward_ready [OF wf i acc, of ser ops now] by auto
qed

end
