(* ===== verification/Text.thy ===== *)
theory Text
  imports Prelude
begin

text \<open>
  The parts of Go's \<open>strings\<close>, \<open>strconv\<close> and \<open>fmt\<close> that the control interface, the command line
  and the test harness use: a Go string is a list of bytes, here of \<open>char\<close>.
  \<^item> printing: \<open>%d\<close> of a non-negative integer (\<open>Itoa\<close>), a byte as two hex digits (\<open>hex2\<close>), \<open>%q\<close> is not
    modelled (it occurs only in error texts);
  \<^item> cutting: \<open>strings.Cut\<close>, \<open>strings.Split\<close> and \<open>strings.Join\<close> with a one-byte separator,
    \<open>strings.HasPrefix\<close>, \<open>strings.TrimSpace\<close> with the white space of \<open>unicode.IsSpace\<close> in UTF-8;
  \<^item> reading: \<open>strconv.ParseUint\<close> in base 10.
\<close>

section \<open>Numbers\<close>

definition digit :: "nat \<Rightarrow> char" where
  "digit d = char_of (48 + d)"

definition is_digit :: "char \<Rightarrow> bool" where
  "is_digit c \<longleftrightarrow> 48 \<le> (of_char c :: nat) \<and> (of_char c :: nat) \<le> 57"

definition digit_val :: "char \<Rightarrow> nat" where
  "digit_val c = of_char c - 48"

fun Itoa :: "nat \<Rightarrow> string" where
  "Itoa n = (if n < 10 then [digit n] else Itoa (n div 10) @ [digit (n mod 10)])"

declare Itoa.simps [simp del]

definition dec_val :: "string \<Rightarrow> nat" where
  "dec_val s = foldl (\<lambda>n c. 10 * n + digit_val c) 0 s"

text \<open>\<open>strconv.ParseUint(s, 10, bits)\<close>: no sign, no underscore, no empty string; out of range is an error.\<close>

definition ParseUint :: "nat \<Rightarrow> string \<Rightarrow> nat option" where
  "ParseUint bits s =
     (if s \<noteq> [] \<and> list_all is_digit s \<and> dec_val s < 2 ^ bits then Some (dec_val s) else None)"

definition hex_digit :: "nat \<Rightarrow> char" where
  "hex_digit d = (if d < 10 then char_of (48 + d) else char_of (87 + d))"

definition hex2 :: "byte \<Rightarrow> string" where
  "hex2 b = [hex_digit (unat b div 16), hex_digit (unat b mod 16)]"

lemma of_char_char_of_lt [simp]: "n < 256 \<Longrightarrow> of_char (char_of n) = (n :: nat)"
  by simp

lemma digit_facts [simp]: "d < 10 \<Longrightarrow> is_digit (digit d)" "d < 10 \<Longrightarrow> digit_val (digit d) = d"
  by (simp_all add: digit_def is_digit_def digit_val_def)

lemma dec_digits: "list_all is_digit (Itoa n)"
  by (induction n rule: Itoa.induct) (subst Itoa.simps, simp)

lemma dec_not_Nil [simp]: "Itoa n \<noteq> []"
  by (subst Itoa.simps) simp

lemma dec_val_snoc [simp]: "dec_val (s @ [c]) = 10 * dec_val s + digit_val c"
  by (simp add: dec_val_def)

lemma dec_val_dec [simp]: "dec_val (Itoa n) = n"
proof (induction n rule: Itoa.induct)
  case (1 n)
  show ?case
  proof (cases "n < 10")
    case True
    then show ?thesis by (subst Itoa.simps) (simp add: dec_val_def)
  next
    case False
    then show ?thesis using 1 by (subst Itoa.simps) simp
  qed
qed

lemma ParseUint_dec: "n < 2 ^ bits \<Longrightarrow> ParseUint bits (Itoa n) = Some n"
  by (simp add: ParseUint_def dec_digits)

lemma dec_inj [simp]: "Itoa m = Itoa n \<longleftrightarrow> m = n"
  by (metis dec_val_dec)

lemma length_dec: "n < 10 ^ Suc k \<Longrightarrow> length (Itoa n) \<le> Suc k"
proof (induction k arbitrary: n)
  case 0
  then show ?case by (subst Itoa.simps) simp
next
  case (Suc k)
  then have "n div 10 < 10 ^ Suc k" by (simp add: less_mult_imp_div_less)
  with Suc.IH show ?case by (subst Itoa.simps) (simp del: power_Suc)
qed

section \<open>Cutting and joining\<close>

text \<open>\<open>strings.Cut(s, sep)\<close> for a one-byte separator: the parts around its first occurrence, if any.\<close>

fun Cut :: "char \<Rightarrow> string \<Rightarrow> (string \<times> string) option" where
  "Cut sep [] = None"
| "Cut sep (c # cs) =
     (if c = sep then Some ([], cs)
      else case Cut sep cs of None \<Rightarrow> None | Some (a, b) \<Rightarrow> Some (c # a, b))"

fun Split :: "char \<Rightarrow> string \<Rightarrow> string list" where
  "Split sep [] = [[]]"
| "Split sep (c # cs) =
     (if c = sep then [] # Split sep cs
      else case Split sep cs of [] \<Rightarrow> [[c]] | p # ps \<Rightarrow> (c # p) # ps)"

fun Join :: "string \<Rightarrow> string list \<Rightarrow> string" where
  "Join sep [] = []"
| "Join sep [p] = p"
| "Join sep (p # ps) = p @ sep @ Join sep ps"

fun HasPrefix :: "string \<Rightarrow> string \<Rightarrow> bool" where
  "HasPrefix s [] = True"
| "HasPrefix [] (p # ps) = False"
| "HasPrefix (c # cs) (p # ps) = (c = p \<and> HasPrefix cs ps)"

lemma HasPrefix_append [simp]: "HasPrefix (p @ s) p"
  by (induction p) simp_all

lemma HasPrefix_iff: "HasPrefix s p \<longleftrightarrow> (\<exists>r. s = p @ r)"
  by (induction s p rule: HasPrefix.induct) auto

lemma Cut_append: "sep \<notin> set a \<Longrightarrow> Cut sep (a @ sep # b) = Some (a, b)"
  by (induction a) auto

lemma Cut_Some_iff: "Cut sep s = Some (a, b) \<longleftrightarrow> s = a @ sep # b \<and> sep \<notin> set a"
proof
  show "Cut sep s = Some (a, b) \<Longrightarrow> s = a @ sep # b \<and> sep \<notin> set a"
    by (induction s arbitrary: a) (auto split: if_splits option.splits)
qed (auto simp: Cut_append)

lemma Split_not_Nil [simp]: "Split sep s \<noteq> []"
  by (induction s) (auto split: list.split)

lemma Split_single: "sep \<notin> set s \<Longrightarrow> Split sep s = [s]"
  by (induction s) auto

lemma Split_append: "sep \<notin> set p \<Longrightarrow> Split sep (p @ sep # s) = p # Split sep s"
  by (induction p) auto

lemma Split_Join:
  "ps \<noteq> [] \<Longrightarrow> \<forall>p \<in> set ps. sep \<notin> set p \<Longrightarrow> Split sep (Join [sep] ps) = ps"
  by (induction "[sep]" ps rule: Join.induct) (simp_all add: Split_single Split_append)

section \<open>White space\<close>

text \<open>The encodings of the characters \<open>unicode.IsSpace\<close> holds of.\<close>

definition spaces :: "string list" where
  "spaces =
     [[CHR 0x09], [CHR 0x0A], [CHR 0x0B],
      [CHR 0x0C], [CHR 0x0D], [CHR 0x20],
      [CHR 0xC2, CHR 0x85], [CHR 0xC2, CHR 0xA0], [CHR 0xE1, CHR 0x9A, CHR 0x80],
      [CHR 0xE2, CHR 0x80, CHR 0x80], [CHR 0xE2, CHR 0x80, CHR 0x81], [CHR 0xE2, CHR 0x80, CHR 0x82],
      [CHR 0xE2, CHR 0x80, CHR 0x83], [CHR 0xE2, CHR 0x80, CHR 0x84], [CHR 0xE2, CHR 0x80, CHR 0x85],
      [CHR 0xE2, CHR 0x80, CHR 0x86], [CHR 0xE2, CHR 0x80, CHR 0x87], [CHR 0xE2, CHR 0x80, CHR 0x88],
      [CHR 0xE2, CHR 0x80, CHR 0x89], [CHR 0xE2, CHR 0x80, CHR 0x8A], [CHR 0xE2, CHR 0x80, CHR 0xA8],
      [CHR 0xE2, CHR 0x80, CHR 0xA9], [CHR 0xE2, CHR 0x80, CHR 0xAF], [CHR 0xE2, CHR 0x81, CHR 0x9F],
      [CHR 0xE3, CHR 0x80, CHR 0x80]]"

fun strip_any :: "string list \<Rightarrow> string \<Rightarrow> string option" where
  "strip_any [] s = None"
| "strip_any (w # ws) s = (if w \<noteq> [] \<and> HasPrefix s w then Some (drop (length w) s) else strip_any ws s)"

lemma strip_any_less: "strip_any ws s = Some s' \<Longrightarrow> length s' < length s"
  by (induction ws) (auto simp: HasPrefix_iff split: if_splits)

function trim_left :: "string list \<Rightarrow> string \<Rightarrow> string" where
  "trim_left ws s = (case strip_any ws s of None \<Rightarrow> s | Some s' \<Rightarrow> trim_left ws s')"
  by pat_completeness auto
termination
  by (relation "measure (\<lambda>(ws, s). length s)") (auto dest: strip_any_less)

declare trim_left.simps [simp del]

definition TrimSpace :: "string \<Rightarrow> string" where
  "TrimSpace s = rev (trim_left (map rev spaces) (rev (trim_left spaces s)))"

lemma strip_any_None: "(\<And>w. w \<in> set ws \<Longrightarrow> w \<noteq> [] \<Longrightarrow> \<not> HasPrefix s w) \<Longrightarrow> strip_any ws s = None"
  by (induction ws) auto

lemma HasPrefix_hd: "HasPrefix s w \<Longrightarrow> w \<noteq> [] \<Longrightarrow> s \<noteq> [] \<and> hd s = hd w"
  by (cases s; cases w) simp_all

lemma trim_left_id:
  assumes "s \<noteq> [] \<Longrightarrow> hd s \<notin> hd ` set ws"
  shows "trim_left ws s = s"
proof -
  have "strip_any ws s = None"
    using assms HasPrefix_hd by (intro strip_any_None) fastforce
  then show ?thesis by (subst trim_left.simps) simp
qed

text \<open>The first and the last bytes of white space.\<close>

lemma space_ends:
  "hd ` set spaces = {CHR 0x09, CHR 0x0A, CHR 0x0B, CHR 0x0C, CHR 0x0D, CHR 0x20, CHR 0xC2, CHR 0xE1, CHR 0xE2, CHR 0xE3}"
  "hd ` set (map rev spaces) = {CHR 0x09, CHR 0x0A, CHR 0x0B, CHR 0x0C, CHR 0x0D, CHR 0x20, CHR 0x80, CHR 0x81, CHR 0x82, CHR 0x83, CHR 0x84, CHR 0x85, CHR 0x86, CHR 0x87, CHR 0x88, CHR 0x89, CHR 0x8A, CHR 0x9F, CHR 0xA0, CHR 0xA8, CHR 0xA9, CHR 0xAF}"
  unfolding spaces_def by auto

definition blank :: "char \<Rightarrow> bool" where
  "blank c \<longleftrightarrow> c \<in> {CHR 0x09, CHR 0x0A, CHR 0x0B, CHR 0x0C, CHR 0x0D, CHR 0x20}"

lemma strip_blank:
  "blank c \<Longrightarrow> strip_any spaces (c # s) = Some s"
  "blank c \<Longrightarrow> strip_any (map rev spaces) (c # s) = Some s"
  unfolding blank_def by (elim insertE emptyE; simp add: spaces_def)+

lemma trim_blanks:
  "list_all blank w \<Longrightarrow> trim_left spaces (w @ s) = trim_left spaces s"
  "list_all blank w \<Longrightarrow> trim_left (map rev spaces) (w @ s) = trim_left (map rev spaces) s"
  by (induction w) (simp_all add: trim_left.simps [of _ "_ # _"] strip_blank)

text \<open>A printable ASCII character is not an end of white space.\<close>

definition graphic :: "char \<Rightarrow> bool" where
  "graphic c \<longleftrightarrow> 33 \<le> (of_char c :: nat) \<and> (of_char c :: nat) \<le> 126"

lemma graphic_no_space: "graphic c \<Longrightarrow> c \<notin> hd ` set spaces \<and> c \<notin> hd ` set (map rev spaces)"
  unfolding space_ends by (auto simp: graphic_def)

lemma TrimSpace_pad:
  assumes "list_all blank w" and "list_all blank w'" and "s \<noteq> []" and "graphic (hd s)" and "graphic (last s)"
  shows "TrimSpace (w @ s @ w') = s"
proof -
  have "trim_left spaces (w @ s @ w') = s @ w'"
    using assms graphic_no_space by (simp add: trim_blanks trim_left_id)
  moreover have "trim_left (map rev spaces) (rev w' @ rev s) = rev s"
    using assms graphic_no_space [of "last s"]
    by (subst trim_blanks(2)) (simp_all add: trim_left_id hd_rev)
  ultimately show ?thesis by (simp add: TrimSpace_def)
qed

lemma is_digit_graphic: "is_digit c \<Longrightarrow> graphic c"
  by (simp add: is_digit_def graphic_def)

lemma TrimSpace_pad_dec:
  "list_all blank w \<Longrightarrow> list_all blank w' \<Longrightarrow> TrimSpace (w @ Itoa n @ w') = Itoa n"
  using dec_digits [of n]
  by (intro TrimSpace_pad is_digit_graphic) (auto simp: list_all_iff)

end
