(* ===== verification/Float64.thy ===== *)
theory Float64
  imports Complex_Main Text
begin

text \<open>
  Go's \<open>float64\<close> where the switch uses it: rates, ages, percentiles. A finite float is the rational it
  stands for and every operation is the exact result rounded to 53 significant bits, ties to even
  (\<open>fl\<close>). The values the program computes lie far inside the exponent range (counters below \<open>2^64\<close>,
  durations of at least a nanosecond), so overflow and subnormal numbers are left out; NaN and
  infinities do not arise where a divisor is guarded.

  \<open>fmt_f d x\<close> is \<open>fmt.Sprintf("%.<d>f", x)\<close>: the exact value rounded to \<open>d\<close> decimals, ties to even.
\<close>

section \<open>Rounding to an integer\<close>

definition round_even :: "rat \<Rightarrow> int" where
  "round_even x =
     (let f = \<lfloor>x\<rfloor>; r = x - of_int f
      in if r < 1 / 2 then f else if r > 1 / 2 then f + 1 else if even f then f else f + 1)"

lemma round_even_error: "\<bar>of_int (round_even x) - x\<bar> \<le> 1 / 2"
proof -
  have "of_int \<lfloor>x\<rfloor> \<le> x" "x < of_int \<lfloor>x\<rfloor> + 1" by linarith+
  then show ?thesis by (auto simp: round_even_def Let_def abs_le_iff)
qed

lemma round_even_of_int [simp]: "round_even (of_int n) = n"
  by (simp add: round_even_def)

lemma round_even_nonneg: "0 \<le> x \<Longrightarrow> 0 \<le> round_even x"
  by (simp add: round_even_def Let_def)

section \<open>Rounding to 53 bits\<close>

definition pow2 :: "int \<Rightarrow> rat" where
  "pow2 k = (if 0 \<le> k then 2 ^ nat k else 1 / 2 ^ nat (- k))"

lemma pow2_powi: "pow2 k = 2 powi k"
  by (simp add: pow2_def power_int_def field_simps)

lemma pow2_pos [simp]: "0 < pow2 k"
  by (simp add: pow2_def)

lemma pow2_add: "pow2 (j + k) = pow2 j * pow2 k"
  by (simp add: pow2_powi power_int_add)

lemma pow2_less: "j < k \<Longrightarrow> pow2 j < pow2 k"
  by (simp add: pow2_powi power_int_strict_increasing)

lemma pow2_less_iff: "pow2 j < pow2 k \<longleftrightarrow> j < k"
  using pow2_less [of j k] pow2_less [of k j] by (cases j k rule: linorder_cases) auto

lemma pow2_nat: "pow2 (int a - int b) = 2 ^ a / 2 ^ b"
  by (simp add: pow2_powi power_int_diff)

fun bits :: "nat \<Rightarrow> nat" where
  "bits n = (if n = 0 then 0 else Suc (bits (n div 2)))"

declare bits.simps [simp del]

lemma bits_upper: "n < 2 ^ bits n"
proof (induction n rule: bits.induct)
  case (1 n)
  then show ?case by (cases "n = 0") (auto simp: bits.simps [of n])
qed

lemma bits_lower: "0 < n \<Longrightarrow> 2 ^ (bits n - 1) \<le> n"
proof (induction n rule: bits.induct)
  case (1 n)
  show ?case
  proof (cases "n div 2 = 0")
    case True
    with 1(2) have "n = 1" by simp
    then show ?thesis by (simp add: bits.simps)
  next
    case False
    then have "2 ^ (bits (n div 2) - 1) \<le> n div 2" using 1 by simp
    moreover have "0 < bits (n div 2)" using False by (subst bits.simps) simp
    then obtain b where "bits (n div 2) = Suc b" by (cases "bits (n div 2)") auto
    ultimately show ?thesis using 1(2) by (subst bits.simps) simp
  qed
qed

text \<open>The exponent of a positive rational: \<open>pow2 e \<le> x < pow2 (e + 1)\<close>.\<close>

definition exponent :: "rat \<Rightarrow> int" where
  "exponent x =
     (let (p, q) = quotient_of x; k = int (bits (nat p)) - int (bits (nat q))
      in if pow2 k \<le> x then k else k - 1)"

definition fl :: "rat \<Rightarrow> rat" where
  "fl x =
     (if x = 0 then 0
      else let u = pow2 (exponent \<bar>x\<bar> - 52) in of_int (round_even (x / u)) * u)"

lemma exponent_bounds:
  assumes "0 < x"
  shows "pow2 (exponent x) \<le> x" and "x < pow2 (exponent x + 1)"
proof -
  obtain p q where pq: "quotient_of x = (p, q)" by fastforce
  have q: "0 < q" and x: "x = of_int p / of_int q"
    using quotient_of_denom_pos [OF pq] quotient_of_div [OF pq] by simp_all
  have p: "0 < p" using assms x q by (simp add: zero_less_divide_iff)
  define m n where "m = nat p" and "n = nat q"
  have mn: "0 < m" "0 < n" "x = of_nat m / of_nat n" using p q x by (simp_all add: m_def n_def)
  define a b where "a = bits m" and "b = bits n"
  have ab: "0 < a" "0 < b" using mn by (simp_all add: a_def b_def bits.simps)
  have M: "(2::rat) ^ (a - 1) \<le> of_nat m" "of_nat m < (2::rat) ^ a"
    using bits_lower [OF mn(1)] bits_upper [of m] unfolding a_def
    by (metis of_nat_le_iff of_nat_numeral of_nat_power, metis of_nat_less_iff of_nat_numeral of_nat_power)
  have N: "(2::rat) ^ (b - 1) \<le> of_nat n" "of_nat n < (2::rat) ^ b"
    using bits_lower [OF mn(2)] bits_upper [of n] unfolding b_def
    by (metis of_nat_le_iff of_nat_numeral of_nat_power, metis of_nat_less_iff of_nat_numeral of_nat_power)
  have "x < 2 ^ a / 2 ^ (b - 1)"
    unfolding mn(3) by (rule frac_less [OF _ M(2) _ N(1)]) simp_all
  also have "\<dots> = pow2 (int a - int (b - 1))" by (simp add: pow2_nat)
  finally have up: "x < pow2 (int a - int b + 1)" using ab by (simp add: algebra_simps of_nat_diff)
  have "2 ^ (a - 1) / 2 ^ b \<le> x"
    unfolding mn(3) by (rule frac_le) (use M(1) N(2) mn in simp_all)
  also have "2 ^ (a - 1) / 2 ^ b = pow2 (int (a - 1) - int b)" by (simp add: pow2_nat)
  finally have low: "pow2 (int a - int b - 1) \<le> x" using ab by (simp add: algebra_simps of_nat_diff)
  have e: "exponent x = (if pow2 (int a - int b) \<le> x then int a - int b else int a - int b - 1)"
    by (simp add: exponent_def pq a_def b_def m_def n_def)
  show "pow2 (exponent x) \<le> x" and "x < pow2 (exponent x + 1)"
    using up low by (simp_all add: e)
qed

text \<open>One operation loses at most one part in \<open>2^53\<close>; small integers are exact.\<close>

lemma fl_error: "\<bar>fl x - x\<bar> \<le> \<bar>x\<bar> / 2 ^ 53"
proof (cases "x = 0")
  case False
  define u where "u = pow2 (exponent \<bar>x\<bar> - 52)"
  have u: "0 < u" by (simp add: u_def)
  have "fl x = of_int (round_even (x / u)) * u" using False by (simp add: fl_def Let_def u_def)
  then have "fl x - x = (of_int (round_even (x / u)) - x / u) * u" using u by (simp add: left_diff_distrib)
  then have "\<bar>fl x - x\<bar> \<le> 1 / 2 * u"
    using round_even_error [of "x / u"] u by (simp add: abs_mult mult_right_mono)
  also have "u = pow2 (exponent \<bar>x\<bar>) / 2 ^ 52"
    using pow2_add [of "exponent \<bar>x\<bar>" "- 52"] by (simp add: u_def pow2_def [of "- 52"])
  also have "1 / 2 * (pow2 (exponent \<bar>x\<bar>) / 2 ^ 52) \<le> \<bar>x\<bar> / 2 ^ 53"
    using exponent_bounds(1) [of "\<bar>x\<bar>"] False by simp
  finally show ?thesis .
qed (simp add: fl_def)

lemma fl_nonneg: "0 \<le> x \<Longrightarrow> 0 \<le> fl x"
  using pow2_pos by (simp add: fl_def Let_def round_even_nonneg less_imp_le)

lemma fl_0 [simp]: "fl 0 = 0"
  by (simp add: fl_def)

lemma fl_of_int:
  assumes "\<bar>n\<bar> < 2 ^ 53"
  shows "fl (of_int n) = of_int n"
proof (cases "n = 0")
  case False
  define e where "e = exponent \<bar>of_int n :: rat\<bar>"
  have "pow2 e \<le> \<bar>of_int n\<bar>" using False exponent_bounds(1) [of "\<bar>of_int n\<bar>"] by (simp add: e_def)
  also have "\<bar>of_int n :: rat\<bar> = of_int \<bar>n\<bar>" by simp
  also have "(of_int \<bar>n\<bar> :: rat) < of_int (2 ^ 53)" using assms by (simp only: of_int_less_iff)
  also have "(of_int (2 ^ 53) :: rat) = pow2 53" by (simp add: pow2_def)
  finally have e: "e < 53" by (simp add: pow2_less_iff)
  define u where "u = pow2 (e - 52)"
  have "u * 2 ^ nat (52 - e) = 1" using e by (auto simp: u_def pow2_def)
  moreover have "0 < u" by (simp add: u_def)
  ultimately have "of_int n / u = of_int (n * 2 ^ nat (52 - e))" by (simp add: divide_simps mult.commute [of _ u])
  then have "round_even (of_int n / u) = n * 2 ^ nat (52 - e)" by (simp only: round_even_of_int)
  then have "fl (of_int n) = of_int (n * 2 ^ nat (52 - e)) * u"
    using False by (simp add: fl_def Let_def u_def e_def)
  also have "\<dots> = of_int n" using \<open>u * 2 ^ nat (52 - e) = 1\<close> by (simp add: mult.assoc mult.commute [of u])
  finally show ?thesis .
qed simp

text \<open>A converted integer divided by an exact float: two roundings.\<close>

lemma fl_div_error:
  assumes "0 < d"
  shows "\<bar>fl (fl x / d) - x / d\<bar> \<le> \<bar>x / d\<bar> / 2 ^ 51"
proof -
  define y where "y = fl x / d"
  define z where "z = x / d"
  define w where "w = \<bar>z\<bar> / 2 ^ 53"
  have w: "0 \<le> w" "w \<le> \<bar>z\<bar>" "\<bar>z\<bar> / 2 ^ 51 = 4 * w" by (simp_all add: w_def divide_le_eq)
  have "\<bar>y - z\<bar> = \<bar>fl x - x\<bar> / d" using assms by (simp add: y_def z_def flip: diff_divide_distrib)
  also have "\<dots> \<le> \<bar>x\<bar> / 2 ^ 53 / d" using fl_error [of x] assms by (intro divide_right_mono) simp_all
  also have "\<dots> = w" using assms by (simp add: w_def z_def)
  finally have y: "\<bar>y - z\<bar> \<le> w" .
  have "\<bar>y\<bar> \<le> \<bar>y - z\<bar> + \<bar>z\<bar>" using abs_triangle_ineq [of "y - z" z] by simp
  then have "\<bar>y\<bar> \<le> 2 * \<bar>z\<bar>" using y w by simp
  then have "\<bar>y\<bar> / 2 ^ 53 \<le> 2 * w" by (simp add: w_def divide_right_mono)
  then have "\<bar>fl y - y\<bar> \<le> 2 * w" using fl_error [of y] by linarith
  moreover have "\<bar>fl y - z\<bar> \<le> \<bar>fl y - y\<bar> + \<bar>y - z\<bar>" using abs_triangle_ineq [of "fl y - y" "y - z"] by simp
  ultimately have "\<bar>fl y - z\<bar> \<le> \<bar>z\<bar> / 2 ^ 51" using y w by simp
  then show ?thesis by (simp add: y_def z_def)
qed

section \<open>Rounding is monotone\<close>

lemma round_even_mono:
  assumes "x \<le> y"
  shows "round_even x \<le> round_even y"
proof (cases "\<lfloor>x\<rfloor> = \<lfloor>y\<rfloor>")
  case True
  with assms show ?thesis by (auto simp: round_even_def Let_def)
next
  case False
  then have "\<lfloor>x\<rfloor> + 1 \<le> \<lfloor>y\<rfloor>" using floor_mono [OF assms] by linarith
  moreover have "round_even x \<le> \<lfloor>x\<rfloor> + 1" "\<lfloor>y\<rfloor> \<le> round_even y" by (simp_all add: round_even_def Let_def)
  ultimately show ?thesis by linarith
qed

lemma fl_pos_eq: "0 < x \<Longrightarrow> fl x = of_int (round_even (x / pow2 (exponent x - 52))) * pow2 (exponent x - 52)"
  by (simp add: fl_def Let_def)

lemma pow2_scale: "pow2 (e - 52) * 2 ^ 52 = pow2 e" "pow2 (e - 52) * 2 ^ 53 = pow2 (e + 1)"
  using pow2_add [of "e - 52" 52] pow2_add [of "e - 52" 53]
  by (simp_all add: pow2_def [of 52] pow2_def [of 53] add.commute)

lemma fl_binade:
  assumes "0 < x"
  shows "pow2 (exponent x) \<le> fl x" and "fl x \<le> pow2 (exponent x + 1)"
proof -
  define u where "u = pow2 (exponent x - 52)"
  have u: "0 < u" by (simp add: u_def)
  have p: "pow2 (exponent x) = u * 2 ^ 52" "pow2 (exponent x + 1) = u * 2 ^ 53"
    by (simp_all only: u_def pow2_scale)
  from p have "of_int (2 ^ 52) \<le> x / u" "x / u \<le> of_int (2 ^ 53)"
    using exponent_bounds [OF assms] u by (simp_all add: field_simps)
  from round_even_mono [OF this(1)] round_even_mono [OF this(2)]
  have "2 ^ 52 \<le> round_even (x / u)" "round_even (x / u) \<le> 2 ^ 53" by (simp_all only: round_even_of_int)
  then have "(of_int (2 ^ 52) :: rat) \<le> of_int (round_even (x / u))" "(of_int (round_even (x / u)) :: rat) \<le> of_int (2 ^ 53)"
    by (simp_all only: of_int_le_iff)
  then have "2 ^ 52 * u \<le> of_int (round_even (x / u)) * u" "of_int (round_even (x / u)) * u \<le> 2 ^ 53 * u"
    using u by (simp_all add: mult_right_mono)
  then show "pow2 (exponent x) \<le> fl x" and "fl x \<le> pow2 (exponent x + 1)"
    unfolding p fl_pos_eq [OF assms] u_def [symmetric] by (simp_all only: mult.commute [of u])
qed

lemma exponent_mono:
  assumes "0 < x" and "x \<le> y"
  shows "exponent x \<le> exponent y"
proof -
  have "pow2 (exponent x) < pow2 (exponent y + 1)"
    using exponent_bounds [of x] exponent_bounds [of y] assms by linarith
  then show ?thesis by (simp add: pow2_less_iff)
qed

lemma fl_mono_nonneg:
  assumes "0 \<le> x" and "x \<le> y"
  shows "fl x \<le> fl y"
proof (cases "x = 0")
  case False
  with assms have x: "0 < x" "0 < y" by linarith+
  show ?thesis
  proof (cases "exponent x = exponent y")
    case True
    define u where "u = pow2 (exponent y - 52)"
    have u: "0 < u" by (simp add: u_def)
    then have "x / u \<le> y / u" using assms by (simp add: divide_right_mono)
    then have "(of_int (round_even (x / u)) :: rat) \<le> of_int (round_even (y / u))"
      by (simp add: round_even_mono)
    then show ?thesis using u by (simp add: fl_pos_eq x True u_def mult_right_mono)
  next
    case False
    with exponent_mono [OF x(1) assms(2)] have "exponent x + 1 \<le> exponent y" by linarith
    then have "pow2 (exponent x + 1) \<le> pow2 (exponent y)"
      using pow2_less by (cases "exponent x + 1 = exponent y") (auto simp: less_le)
    then show ?thesis using fl_binade(2) [OF x(1)] fl_binade(1) [OF x(2)] by linarith
  qed
qed (use assms fl_nonneg in simp)

section \<open>Formatting\<close>

definition pad0 :: "nat \<Rightarrow> string \<Rightarrow> string" where
  "pad0 n s = replicate (n - length s) (digit 0) @ s"

definition fmt_f :: "nat \<Rightarrow> rat \<Rightarrow> string" where
  "fmt_f d x =
     (let n = nat (round_even (\<bar>x\<bar> * 10 ^ d))
      in (if x < 0 then ''-'' else []) @ Itoa (n div 10 ^ d) @
         (if d = 0 then [] else ''.'' @ pad0 d (Itoa (n mod 10 ^ d))))"

end
