(* ===== verification/Stats.thy ===== *)
theory Stats
  imports Construction Float64
begin

text \<open>
  The read-only snapshots of \<open>internal/goswitch/stats.go\<close>. \<open>FDBSnapshot\<close> ranges over a Go map, whose
  order is unspecified: the order is an argument \<open>ks\<close>, any list of the keys of the table. It reads
  \<open>e.ports[en.portIdx]\<close>, which panics out of range, so it answers an option; on a well-formed
  engine it never does.
\<close>

section \<open>Rows\<close>

record FDBEntry =
  VID :: u16
  MAC :: string
  entry_Port :: string
  AgeSeconds :: rat

record PortInfo =
  info_Name :: string
  Role :: string
  PVID :: u16
  info_Trunk :: "u16 list"
  Up :: bool

record PortStats =
  stats_Name :: string
  RxFrames :: u64
  RxBytes :: u64
  TxFrames :: u64
  TxBytes :: u64
  Flooded :: u64
  ForwardDrop :: u64
  TxDrop :: u64

record EngineConfig =
  AgeingSeconds :: rat
  NumPorts :: nat
  cfg_VLANAware :: bool

text \<open>\<open>net.HardwareAddr.String\<close>.\<close>

definition mac_String :: "mac \<Rightarrow> string" where
  "mac_String m = Join '':'' (map hex2 m)"

text \<open>\<open>float64(d) / float64(time.Second)\<close> for an \<open>int64\<close> of nanoseconds.\<close>

definition seconds :: "i64 \<Rightarrow> rat" where
  "seconds d = fl (fl (of_int (sint d)) / 1000000000)"

section \<open>Snapshots\<close>

definition fdb_row :: "'h port list \<Rightarrow> i64 \<Rightarrow> macKey \<Rightarrow> fdb_entry \<Rightarrow> FDBEntry option" where
  "fdb_row ps now k en =
     (case nth_opt ps (portIdx en) of
        None \<Rightarrow> None
      | Some p \<Rightarrow> Some \<lparr>VID = key_vid k, MAC = mac_String (key_mac k), entry_Port = name p,
                       AgeSeconds = seconds (now - seenAt en)\<rparr>)"

definition FDBSnapshot :: "macKey list \<Rightarrow> i64 \<Rightarrow> 'h engine \<Rightarrow> FDBEntry list option" where
  "FDBSnapshot ks now e =
     foldM (\<lambda>k out. case table (fdb e) k of
                      None \<Rightarrow> Some out
                    | Some en \<Rightarrow> (case fdb_row (ports e) now k en of
                                    None \<Rightarrow> None
                                  | Some r \<Rightarrow> Some (out @ [r])))
       ks []"

definition PortsSnapshot :: "'h engine \<Rightarrow> PortInfo list" where
  "PortsSnapshot e =
     map (\<lambda>p. \<lparr>info_Name = name p, Role = role_String (role p), PVID = pvid p, info_Trunk = trunkVIDs p,
               Up = True\<rparr>) (ports e)"

definition port_stats :: "'h port \<Rightarrow> PortStats" where
  "port_stats p =
     \<lparr>stats_Name = name p, RxFrames = rxFrames (stats p), RxBytes = rxBytes (stats p),
      TxFrames = txFrames (stats p), TxBytes = txBytes (stats p), Flooded = flooded (stats p),
      ForwardDrop = forwardDrop (stats p), TxDrop = txDrop (stats p)\<rparr>"

definition StatsSnapshot :: "'h engine \<Rightarrow> PortStats list" where
  "StatsSnapshot e = map port_stats (ports e)"

definition ConfigSnapshot :: "'h engine \<Rightarrow> EngineConfig" where
  "ConfigSnapshot e =
     \<lparr>AgeingSeconds = seconds (ageing (fdb e)), NumPorts = length (ports e), cfg_VLANAware = vlanAware e\<rparr>"

section \<open>Addresses as text\<close>

lemma hex_digit_inj: "a < 16 \<Longrightarrow> b < 16 \<Longrightarrow> hex_digit a = hex_digit b \<Longrightarrow> a = b"
  unfolding hex_digit_def by (auto split: if_splits dest!: arg_cong [where f = "of_char :: char \<Rightarrow> nat"])

lemma hex2_inj [simp]: "hex2 a = hex2 b \<longleftrightarrow> a = b"
proof
  assume eq: "hex2 a = hex2 b"
  have lt: "unat a < 256" "unat b < 256" using unsigned_less [where ?'a = nat and w = a] unsigned_less [where ?'a = nat and w = b] by simp_all
  then have "unat a div 16 < 16" "unat b div 16 < 16" by (simp_all add: less_mult_imp_div_less)
  then have "unat a div 16 = unat b div 16" "unat a mod 16 = unat b mod 16"
    using eq by (auto simp: hex2_def intro: hex_digit_inj)
  then have "unat a = unat b" by (metis div_mult_mod_eq)
  then show "a = b" by (simp add: word_unat_eq_iff)
qed simp

lemma length_hex2 [simp]: "length (hex2 b) = 2"
  by (simp add: hex2_def)

lemma Join_Cons: "ps \<noteq> [] \<Longrightarrow> Join sep (p # ps) = p @ sep @ Join sep ps"
  by (cases ps) simp_all

lemma Join_eq_Nil: "(\<And>p. p \<in> set ps \<Longrightarrow> p \<noteq> []) \<Longrightarrow> Join sep ps = [] \<longleftrightarrow> ps = []"
  by (cases ps; cases "tl ps") auto

lemma mac_String_inj [simp]: "mac_String m = mac_String m' \<longleftrightarrow> m = m'"
proof
  assume "mac_String m = mac_String m'"
  then show "m = m'"
    unfolding mac_String_def
  proof (induction m arbitrary: m')
    case Nil
    then show ?case by (cases m'; cases "tl m'") (auto simp: hex2_def Join_Cons)
  next
    case (Cons b m)
    show ?case
    proof (cases m')
      case Nil
      with Cons.prems show ?thesis by (cases m) (auto simp: hex2_def Join_Cons)
    next
      case (Cons b' n)
      show ?thesis
      proof (cases "m = [] \<or> n = []")
        case True
        with Cons.prems Cons show ?thesis
          by (cases m; cases n) (auto simp: Join_Cons dest: arg_cong [where f = length])
      next
        case False
        then have "hex2 b @ '':'' @ Join '':'' (map hex2 m) = hex2 b' @ '':'' @ Join '':'' (map hex2 n)"
          using Cons.prems Cons by (simp add: Join_Cons)
        then show ?thesis using Cons.IH Cons by simp
      qed
    qed
  qed
qed simp

section \<open>The table snapshot\<close>

lemma table_port:
  "engine_wf e \<Longrightarrow> table (fdb e) k = Some en \<Longrightarrow> in_vlan e (key_vid k) (portIdx en)"
  unfolding engine_wf_def ft.confined_def bound_port_def
  by (metis macKey.surjective macKey_of_def old.unit.exhaust option.map(2))

text \<open>What the row of a key must be.\<close>

definition row_of :: "'h engine \<Rightarrow> i64 \<Rightarrow> macKey \<Rightarrow> FDBEntry" where
  "row_of e now k =
     (let en = the (table (fdb e) k)
      in \<lparr>VID = key_vid k, MAC = mac_String (key_mac k), entry_Port = name (ports e ! portIdx en),
          AgeSeconds = seconds (now - seenAt en)\<rparr>)"

lemma snapshot_loop:
  assumes "engine_wf e" and "set ks \<subseteq> dom (table (fdb e))"
  shows "foldM (\<lambda>k out. case table (fdb e) k of
                 None \<Rightarrow> Some out
               | Some en \<Rightarrow> (case fdb_row (ports e) now k en of None \<Rightarrow> None | Some r \<Rightarrow> Some (out @ [r])))
           ks out = Some (out @ map (row_of e now) ks)"
  using assms(2)
proof (induction ks arbitrary: out)
  case (Cons k ks)
  then obtain en where en: "table (fdb e) k = Some en" by auto
  then have "portIdx en < length (ports e)"
    using table_port [OF assms(1)] by (simp add: in_vlan_def)
  then have "fdb_row (ports e) now k en = Some (row_of e now k)"
    using en by (simp add: fdb_row_def row_of_def Let_def nth_opt_def)
  with Cons en show ?case by simp
qed simp

lemma FDBSnapshot_rows:
  "engine_wf e \<Longrightarrow> set ks = dom (table (fdb e)) \<Longrightarrow> FDBSnapshot ks now e = Some (map (row_of e now) ks)"
  by (simp add: FDBSnapshot_def snapshot_loop)

lemma row_of_sel [simp]:
  "VID (row_of e now k) = key_vid k" "MAC (row_of e now k) = mac_String (key_mac k)"
  by (simp_all add: row_of_def Let_def)

lemma seconds_error:
  "\<bar>seconds d - of_int (sint d) / 1000000000\<bar> \<le> \<bar>of_int (sint d) / 1000000000\<bar> / 2 ^ 51"
  unfolding seconds_def by (rule fl_div_error) simp

end
