(* ===== verification/Concur.thy ===== *)
theory Concur
  imports FdbRace Forwarding Stats
begin

text \<open>
  The data path as concurrent Go code: the receive goroutines of all ports handle frames at the same
  time (\<open>Engine.forward\<close> and \<open>Engine.emit\<close>, \<open>internal/goswitch/engine.go\<close>), over the shared table of
  theory \<open>FdbRace\<close>, while the collector, changes of the ageing duration and table snapshots
  (\<open>Engine.FDBSnapshot\<close>, \<open>stats.go\<close>) run beside them. Goroutine \<open>i\<close> serves port \<open>i\<close> and is thread \<open>i\<close> of the
  table; the threads from \<open>length ports\<close> on are everyone else.

  A step is one statement that touches shared memory: one atomic addition to a counter, one write to
  a handle (under the port's \<open>writeMu\<close>), one step of \<open>Learn\<close> or \<open>Lookup\<close>. The additions a goroutine has
  reached but not yet made are its list \<open>adds\<close>; it goes on when the list is empty. What a goroutine
  only reads, and its own parser and frame view, need no interleaving. The clock may return anything.

  Ghost state: \<open>events\<close> records, newest first, what the goroutines decided.
\<close>

section \<open>Counters\<close>

datatype counter = CtrRxFrames | CtrRxBytes | CtrTxFrames | CtrTxBytes | CtrFlooded | CtrForwardDrop | CtrTxDrop

fun read_counter :: "counter \<Rightarrow> portStats \<Rightarrow> u64" where
  "read_counter CtrRxFrames s = rxFrames s"
| "read_counter CtrRxBytes s = rxBytes s"
| "read_counter CtrTxFrames s = txFrames s"
| "read_counter CtrTxBytes s = txBytes s"
| "read_counter CtrFlooded s = flooded s"
| "read_counter CtrForwardDrop s = forwardDrop s"
| "read_counter CtrTxDrop s = txDrop s"

fun add_counter :: "counter \<Rightarrow> u64 \<Rightarrow> portStats \<Rightarrow> portStats" where
  "add_counter CtrRxFrames n s = s\<lparr>rxFrames := rxFrames s + n\<rparr>"
| "add_counter CtrRxBytes n s = s\<lparr>rxBytes := rxBytes s + n\<rparr>"
| "add_counter CtrTxFrames n s = s\<lparr>txFrames := txFrames s + n\<rparr>"
| "add_counter CtrTxBytes n s = s\<lparr>txBytes := txBytes s + n\<rparr>"
| "add_counter CtrFlooded n s = s\<lparr>flooded := flooded s + n\<rparr>"
| "add_counter CtrForwardDrop n s = s\<lparr>forwardDrop := forwardDrop s + n\<rparr>"
| "add_counter CtrTxDrop n s = s\<lparr>txDrop := txDrop s + n\<rparr>"

text \<open>An addition still to be made: port, counter, amount.\<close>

type_synonym add = "nat \<times> counter \<times> u64"

fun atomic_add :: "add \<Rightarrow> 'h engine \<Rightarrow> 'h engine" where
  "atomic_add (j, q, n) e = upd_port j (\<lambda>p. p\<lparr>stats := add_counter q n (stats p)\<rparr>) e"

section \<open>Goroutines\<close>

datatype fwd_pc =
    FwdIdle
  | FwdDecode frame
  | FwdLearn u16 frameView i64
  | FwdLearning u16 frameView i64
  | FwdLookup u16 frameView i64
  | FwdLooking u16 frameView
  | FwdFlood u16 frameView
  | FwdOut u16 frameView "nat list"
  | FwdPanic

datatype snap_pc = SnapOut | SnapWait i64 | SnapRows i64 "macKey list" "FDBEntry list" | SnapDone "FDBEntry list" | SnapPanic

datatype event =
    Received nat frame
  | Dropped nat
  | Flooding nat
  | Wrote nat u16 nat frame bool

record 'h conc =
  sw :: "'h engine"
  tab :: shared
  pcs :: "nat \<Rightarrow> fwd_pc"
  adds :: "nat \<Rightarrow> add list"
  snaps :: "nat \<Rightarrow> snap_pc"
  events :: "event list"

definition fwd_goto :: "nat \<Rightarrow> fwd_pc \<Rightarrow> add list \<Rightarrow> 'h conc \<Rightarrow> 'h conc" where
  "fwd_goto i pc as c = c\<lparr>pcs := (pcs c)(i := pc), adds := (adds c)(i := as)\<rparr>"

definition snap_goto :: "nat \<Rightarrow> snap_pc \<Rightarrow> 'h conc \<Rightarrow> 'h conc" where
  "snap_goto r pc c = c\<lparr>snaps := (snaps c)(r := pc)\<rparr>"

definition at_pc :: "'h conc \<Rightarrow> nat \<Rightarrow> fwd_pc \<Rightarrow> bool" where
  "at_pc c i pc \<longleftrightarrow> i < length (ports (sw c)) \<and> pcs c i = pc \<and> adds c i = []"

text \<open>Snapshots hold the read lock while they copy; the write lock waits for them.\<close>

definition snapping :: "snap_pc \<Rightarrow> bool" where
  "snapping pc \<longleftrightarrow> (case pc of SnapRows now ks rows \<Rightarrow> True | _ \<Rightarrow> False)"

definition table_step :: "nat \<Rightarrow> 'h conc \<Rightarrow> shared \<Rightarrow> bool" where
  "table_step t c f \<longleftrightarrow> fdb_step t (tab c) f \<and>
     (writer (tab c) = None \<and> writer f \<noteq> None \<longrightarrow> (\<forall>r. \<not> snapping (snaps c r)))"

text \<open>Decoding and classification: from the frame to its VLAN and view, or the drop.\<close>

definition accept_frame :: "decoder \<Rightarrow> 'h port \<Rightarrow> frame \<Rightarrow> (u16 \<times> frameView) option" where
  "accept_frame decode p frm =
     (let fp = decode (parser p) frm;
          (hasEth, tagged) = scan_layers (dec fp) (False, False)
      in if \<not> hasEth \<or> length (DstMAC (eth fp)) \<noteq> 6 \<or> length (SrcMAC (eth fp)) \<noteq> 6 then None
         else (let fv = view_of fp tagged frm
               in case classify p tagged (tagVID fv) of None \<Rightarrow> None | Some vid \<Rightarrow> Some (vid, fv)))"

definition set_parser :: "decoder \<Rightarrow> nat \<Rightarrow> frame \<Rightarrow> 'h engine \<Rightarrow> 'h engine" where
  "set_parser decode i frm e = upd_port i (\<lambda>p. p\<lparr>parser := decode (parser p) frm\<rparr>) e"

text \<open>Between the writes a handle changes too: \<open>rxLoop\<close> reads it, \<open>Stop\<close> closes it.\<close>

definition set_handle :: "nat \<Rightarrow> 'h \<Rightarrow> 'h engine \<Rightarrow> 'h engine" where
  "set_handle j h e = upd_port j (\<lambda>p. p\<lparr>io := h\<rparr>) e"

definition write_port :: "nat \<Rightarrow> frame \<Rightarrow> bool \<Rightarrow> 'h \<Rightarrow> 'h engine \<Rightarrow> 'h engine" where
  "write_port j pkt ok h e =
     (let e1 = upd_port j (\<lambda>p. p\<lparr>io := h\<rparr>) e in e1\<lparr>wire := wire e1 @ [(j, pkt, ok)]\<rparr>)"

inductive conc_step :: "decoder \<Rightarrow> serializer \<Rightarrow> 'h PacketIO \<Rightarrow> nat \<Rightarrow> 'h conc \<Rightarrow> 'h conc \<Rightarrow> bool"
  for decode :: decoder and ser :: serializer and ops :: "'h PacketIO" and i :: nat
where
  receive: "at_pc c i FwdIdle \<Longrightarrow>
     conc_step decode ser ops i c
       (fwd_goto i (FwdDecode frm) [(i, CtrRxFrames, 1), (i, CtrRxBytes, of_nat (length frm))]
          (c\<lparr>events := Received i frm # events c\<rparr>))"
| handle: "\<not> i < length (ports (sw c)) \<Longrightarrow> conc_step decode ser ops i c (c\<lparr>sw := set_handle j h (sw c)\<rparr>)"
| add: "i < length (ports (sw c)) \<Longrightarrow> adds c i = a # as \<Longrightarrow>
     conc_step decode ser ops i c (fwd_goto i (pcs c i) as (c\<lparr>sw := atomic_add a (sw c)\<rparr>))"
| drop: "at_pc c i (FwdDecode frm) \<Longrightarrow> accept_frame decode (ports (sw c) ! i) frm = None \<Longrightarrow>
     conc_step decode ser ops i c
       (fwd_goto i FwdIdle [(i, CtrForwardDrop, 1)]
          (c\<lparr>sw := set_parser decode i frm (sw c), events := Dropped i # events c\<rparr>))"
| accept: "at_pc c i (FwdDecode frm) \<Longrightarrow> accept_frame decode (ports (sw c) ! i) frm = Some (vid, fv) \<Longrightarrow>
     conc_step decode ser ops i c
       (fwd_goto i (FwdLearn vid fv now) [] (c\<lparr>sw := set_parser decode i frm (sw c)\<rparr>))"
| src_panic: "at_pc c i (FwdLearn vid fv now) \<Longrightarrow> nth_opt (src fv) 0 = None \<Longrightarrow>
     conc_step decode ser ops i c (fwd_goto i FwdPanic [] c)"
| learn_skip: "at_pc c i (FwdLearn vid fv now) \<Longrightarrow> nth_opt (src fv) 0 = Some s0 \<Longrightarrow> and s0 1 \<noteq> 0 \<Longrightarrow>
     conc_step decode ser ops i c (fwd_goto i (FwdLookup vid fv now) [] c)"
| learn_call: "at_pc c i (FwdLearn vid fv now) \<Longrightarrow> nth_opt (src fv) 0 = Some s0 \<Longrightarrow> and s0 1 = 0 \<Longrightarrow>
     finished (threads (tab c) i) \<Longrightarrow> k = macKey_of vid (copy_array 6 (src fv)) \<Longrightarrow> p = idx (ports (sw c) ! i) \<Longrightarrow>
     conc_step decode ser ops i c
       (fwd_goto i (FwdLearning vid fv now) []
          (c\<lparr>tab := goto i (LearnRead k p now) (tab c\<lparr>calls := insert (k, p) (calls (tab c))\<rparr>)\<rparr>))"
| learn_run: "at_pc c i (FwdLearning vid fv now) \<Longrightarrow> \<not> finished (threads (tab c) i) \<Longrightarrow> table_step i c f \<Longrightarrow>
     conc_step decode ser ops i c (c\<lparr>tab := f\<rparr>)"
| learn_return: "at_pc c i (FwdLearning vid fv now) \<Longrightarrow> finished (threads (tab c) i) \<Longrightarrow>
     conc_step decode ser ops i c (fwd_goto i (FwdLookup vid fv now) [] c)"
| dst_panic: "at_pc c i (FwdLookup vid fv now) \<Longrightarrow> nth_opt (dst fv) 0 = None \<Longrightarrow>
     conc_step decode ser ops i c (fwd_goto i FwdPanic [] c)"
| lookup_skip: "at_pc c i (FwdLookup vid fv now) \<Longrightarrow> nth_opt (dst fv) 0 = Some d0 \<Longrightarrow> and d0 1 \<noteq> 0 \<Longrightarrow>
     conc_step decode ser ops i c (fwd_goto i (FwdFlood vid fv) [] c)"
| lookup_call: "at_pc c i (FwdLookup vid fv now) \<Longrightarrow> nth_opt (dst fv) 0 = Some d0 \<Longrightarrow> and d0 1 = 0 \<Longrightarrow>
     finished (threads (tab c) i) \<Longrightarrow>
     conc_step decode ser ops i c
       (fwd_goto i (FwdLooking vid fv) []
          (c\<lparr>tab := goto i (LookupRead (macKey_of vid (copy_array 6 (dst fv))) now) (tab c)\<rparr>))"
| lookup_run: "at_pc c i (FwdLooking vid fv) \<Longrightarrow> \<not> finished (threads (tab c) i) \<Longrightarrow> table_step i c f \<Longrightarrow>
     conc_step decode ser ops i c (c\<lparr>tab := f\<rparr>)"
| lookup_miss: "at_pc c i (FwdLooking vid fv) \<Longrightarrow> threads (tab c) i = LookupDone k None \<Longrightarrow>
     conc_step decode ser ops i c (fwd_goto i (FwdFlood vid fv) [] c)"
| lookup_self: "at_pc c i (FwdLooking vid fv) \<Longrightarrow> threads (tab c) i = LookupDone k (Some out) \<Longrightarrow>
     out = idx (ports (sw c) ! i) \<Longrightarrow>
     conc_step decode ser ops i c (fwd_goto i FwdIdle [] c)"
| lookup_hit: "at_pc c i (FwdLooking vid fv) \<Longrightarrow> threads (tab c) i = LookupDone k (Some out) \<Longrightarrow>
     out \<noteq> idx (ports (sw c) ! i) \<Longrightarrow>
     conc_step decode ser ops i c (fwd_goto i (FwdOut vid fv [out]) [] c)"
| flood: "at_pc c i (FwdFlood vid fv) \<Longrightarrow>
     conc_step decode ser ops i c
       (fwd_goto i (FwdOut vid fv (members (sw c) vid)) [(i, CtrFlooded, 1)] (c\<lparr>events := Flooding i # events c\<rparr>))"
| out_skip: "at_pc c i (FwdOut vid fv (j # js)) \<Longrightarrow> j = idx (ports (sw c) ! i) \<Longrightarrow>
     conc_step decode ser ops i c (fwd_goto i (FwdOut vid fv js) [] c)"
| out_panic: "at_pc c i (FwdOut vid fv (j # js)) \<Longrightarrow> j \<noteq> idx (ports (sw c) ! i) \<Longrightarrow> nth_opt (ports (sw c)) j = None \<Longrightarrow>
     conc_step decode ser ops i c (fwd_goto i FwdPanic [] c)"
| out_write: "at_pc c i (FwdOut vid fv (j # js)) \<Longrightarrow> j \<noteq> idx (ports (sw c) ! i) \<Longrightarrow>
     nth_opt (ports (sw c)) j = Some q \<Longrightarrow> pkt = egress_frame ser (role q) fv vid \<Longrightarrow>
     WritePacketData ops (io q) pkt = (ok, h) \<Longrightarrow>
     conc_step decode ser ops i c
       (fwd_goto i (FwdOut vid fv js)
          (if ok then [(j, CtrTxFrames, 1), (j, CtrTxBytes, of_nat (length pkt))] else [(j, CtrTxDrop, 1)])
          (c\<lparr>sw := write_port j pkt ok h (sw c), events := Wrote i vid j pkt ok # events c\<rparr>))"
| out_end: "at_pc c i (FwdOut vid fv []) \<Longrightarrow> conc_step decode ser ops i c (fwd_goto i FwdIdle [] c)"
| others: "\<not> i < length (ports (sw c)) \<Longrightarrow> table_step i c f \<Longrightarrow> (\<forall>k p n. threads f i \<noteq> LearnRead k p n) \<Longrightarrow>
     conc_step decode ser ops i c (c\<lparr>tab := f\<rparr>)"
| snap_call: "\<not> snapping (snaps c i) \<Longrightarrow> conc_step decode ser ops i c (snap_goto i (SnapWait now) c)"
| snap_lock: "snaps c i = SnapWait now \<Longrightarrow> writer (tab c) = None \<Longrightarrow> set ks = dom (ptable (tab c)) \<Longrightarrow> distinct ks \<Longrightarrow>
     conc_step decode ser ops i c (snap_goto i (SnapRows now ks []) c)"
| snap_row: "snaps c i = SnapRows now (k # ks) rows \<Longrightarrow> ptable (tab c) k = Some a \<Longrightarrow> heap (tab c) a = Some e \<Longrightarrow>
     fdb_row (ports (sw c)) now k e = Some r \<Longrightarrow>
     conc_step decode ser ops i c (snap_goto i (SnapRows now ks (rows @ [r])) c)"
| snap_panic: "snaps c i = SnapRows now (k # ks) rows \<Longrightarrow> ptable (tab c) k = Some a \<Longrightarrow> heap (tab c) a = Some e \<Longrightarrow>
     fdb_row (ports (sw c)) now k e = None \<Longrightarrow>
     conc_step decode ser ops i c (snap_goto i SnapPanic c)"
| snap_end: "snaps c i = SnapRows now [] rows \<Longrightarrow> conc_step decode ser ops i c (snap_goto i (SnapDone rows) c)"

definition conc_init :: "'h engine \<Rightarrow> 'h conc" where
  "conc_init e = \<lparr>sw = e, tab = init_shared\<lparr>age_ns := ageing (fdb e)\<rparr>, pcs = (\<lambda>_. FwdIdle), adds = (\<lambda>_. []),
     snaps = (\<lambda>_. SnapOut), events = []\<rparr>"

inductive conc_reach :: "decoder \<Rightarrow> serializer \<Rightarrow> 'h PacketIO \<Rightarrow> 'h engine \<Rightarrow> 'h conc \<Rightarrow> bool"
  for decode :: decoder and ser :: serializer and ops :: "'h PacketIO" and e0 :: "'h engine"
where
  init: "conc_reach decode ser ops e0 (conc_init e0)"
| step: "conc_reach decode ser ops e0 c \<Longrightarrow> conc_step decode ser ops i c c' \<Longrightarrow> conc_reach decode ser ops e0 c'"

section \<open>Lemmas\<close>

lemma read_add_counter [simp]: "read_counter q (add_counter q' n s) = read_counter q s + (if q = q' then n else 0)"
  by (cases q; cases q') simp_all

lemma fwd_goto_sel [simp]:
  "sw (fwd_goto i pc as c) = sw c" "tab (fwd_goto i pc as c) = tab c" "snaps (fwd_goto i pc as c) = snaps c"
  "events (fwd_goto i pc as c) = events c"
  "pcs (fwd_goto i pc as c) k = (if k = i then pc else pcs c k)"
  "adds (fwd_goto i pc as c) k = (if k = i then as else adds c k)"
  by (simp_all add: fwd_goto_def)

lemma snap_goto_sel [simp]:
  "sw (snap_goto r pc c) = sw c" "tab (snap_goto r pc c) = tab c" "pcs (snap_goto r pc c) = pcs c"
  "adds (snap_goto r pc c) = adds c" "events (snap_goto r pc c) = events c"
  "snaps (snap_goto r pc c) k = (if k = r then pc else snaps c k)"
  by (simp_all add: snap_goto_def)

lemma accept_frame_ingress: "accept_frame decode p frm = ingress decode p frm"
  by (simp add: accept_frame_def ingress_def scan_layers_eq Let_def split: option.split)

lemma same_config_atomic_add [simp]: "same_config e (atomic_add a e)"
  by (cases a) (simp add: same_config_upd_port port_cfg_def)

declare atomic_add.simps [simp del]

lemma same_config_set_parser [simp]: "same_config e (set_parser decode i frm e)"
  unfolding set_parser_def by (rule same_config_upd_port) simp

lemma same_config_set_handle [simp]: "same_config e (set_handle j h e)"
  unfolding set_handle_def by (rule same_config_upd_port) (simp add: port_cfg_def)

lemma set_handle_sel [simp]: "wire (set_handle j h e) = wire e" "length (ports (set_handle j h e)) = length (ports e)"
  by (simp_all add: set_handle_def)

lemma same_config_write_port [simp]: "same_config e (write_port j pkt ok h e)"
  using same_config_upd_port [of "\<lambda>p. p\<lparr>io := h\<rparr>" e j] by (simp add: write_port_def Let_def same_config_def)

lemma table_step_fdb: "table_step t c f \<Longrightarrow> fdb_step t (tab c) f"
  by (simp add: table_step_def)

lemma conc_reach_table: "conc_reach decode ser ops e0 c \<Longrightarrow> fdb_reach (tab c)"
proof (induction rule: conc_reach.induct)
  case init
  show ?case by (auto simp: conc_init_def intro: fdb_reach.step [OF fdb_reach.init fdb_step.set_age])
next
  case (step c i c')
  from step(2,1,3) show ?case
    by cases (auto dest: table_step_fdb intro: fdb_reach.step fdb_step.call_learn fdb_step.call_lookup)
qed

lemmas conc_reach_race_inv = fdb_reach_inv [OF conc_reach_table]

lemma conc_reach_config: "conc_reach decode ser ops e0 c \<Longrightarrow> same_config e0 (sw c)"
proof (induction rule: conc_reach.induct)
  case (step c i c')
  from step(2,1,3) show ?case
    by cases (auto intro: same_config_trans)
qed (simp add: conc_init_def)

section \<open>What a table step leaves alone\<close>

lemma fdb_step_other: "fdb_step t f f' \<Longrightarrow> u \<noteq> t \<Longrightarrow> threads f' u = threads f u"
  by (cases rule: fdb_step.cases) auto

lemma fdb_step_calls:
  "fdb_step t f f' \<Longrightarrow> calls f' = calls f \<or> finished (threads f t) \<and> (\<exists>k p n. threads f' t = LearnRead k p n)"
  by (cases rule: fdb_step.cases) auto

fun lookup_key :: "thread \<Rightarrow> macKey option" where
  "lookup_key (LookupRead k n) = Some k"
| "lookup_key (LookupAge k n r) = Some k"
| "lookup_key (LookupSeen k n a d) = Some k"
| "lookup_key (LookupPort k a) = Some k"
| "lookup_key (LookupDone k r) = Some k"
| "lookup_key th = None"

lemma fdb_step_lookup_key:
  "fdb_step t f f' \<Longrightarrow> \<not> finished (threads f t) \<Longrightarrow> lookup_key (threads f t) = Some k \<Longrightarrow> lookup_key (threads f' t) = Some k"
  by (cases rule: fdb_step.cases) auto

section \<open>The invariant of the goroutines\<close>

definition calls_ok :: "'h engine \<Rightarrow> shared \<Rightarrow> bool" where
  "calls_ok e f \<longleftrightarrow> (\<forall>(k, p) \<in> calls f. in_vlan e (key_vid k) p)"

fun pc_ok :: "'h engine \<Rightarrow> nat \<Rightarrow> thread \<Rightarrow> fwd_pc \<Rightarrow> bool" where
  "pc_ok e i th FwdIdle \<longleftrightarrow> finished th"
| "pc_ok e i th (FwdDecode frm) \<longleftrightarrow> finished th"
| "pc_ok e i th (FwdLearn vid fv now) \<longleftrightarrow> finished th \<and> in_vlan e vid i \<and> length (src fv) = 6 \<and> length (dst fv) = 6"
| "pc_ok e i th (FwdLearning vid fv now) \<longleftrightarrow> in_vlan e vid i \<and> length (dst fv) = 6"
| "pc_ok e i th (FwdLookup vid fv now) \<longleftrightarrow> finished th \<and> in_vlan e vid i \<and> length (dst fv) = 6"
| "pc_ok e i th (FwdLooking vid fv) \<longleftrightarrow> in_vlan e vid i \<and> lookup_key th = Some (macKey_of vid (dst fv))"
| "pc_ok e i th (FwdFlood vid fv) \<longleftrightarrow> finished th \<and> in_vlan e vid i"
| "pc_ok e i th (FwdOut vid fv js) \<longleftrightarrow> finished th \<and> in_vlan e vid i \<and> (\<forall>j \<in> set js. in_vlan e vid j) \<and> distinct js"
| "pc_ok e i th FwdPanic \<longleftrightarrow> False"

definition conc_inv :: "'h engine \<Rightarrow> 'h conc \<Rightarrow> bool" where
  "conc_inv e c \<longleftrightarrow> calls_ok e (tab c) \<and> (\<forall>i < length (ports e). pc_ok e i (threads (tab c) i) (pcs c i))"

lemma finished_simps [simp]: "finished Idle" "finished (LookupDone k r)" "\<not> finished (LearnRead k p n)" "\<not> finished (LookupRead k n)"
  by (simp_all add: finished_def)

lemma finished_lookup: "finished th \<Longrightarrow> lookup_key th = Some k \<Longrightarrow> \<exists>r. th = LookupDone k r"
  by (cases th) (simp_all add: finished_def)

lemma conc_inv_goto:
  assumes "conc_inv e c" and "pc_ok e i (threads (tab c) i) pc"
  shows "conc_inv e (fwd_goto i pc as c)"
  using assms by (simp add: conc_inv_def)

lemma conc_inv_cong: "tab c' = tab c \<Longrightarrow> pcs c' = pcs c \<Longrightarrow> conc_inv e c' = conc_inv e c"
  by (simp add: conc_inv_def)

lemma conc_inv_table:
  assumes inv: "conc_inv e c" and step: "fdb_step i (tab c) f" and calls: "calls_ok e f"
    and own: "i < length (ports e) \<Longrightarrow> pc_ok e i (threads f i) pc"
  shows "conc_inv e (c\<lparr>tab := f, pcs := (pcs c)(i := pc)\<rparr>)"
  unfolding conc_inv_def
proof (intro conjI allI impI)
  show "calls_ok e (tab (c\<lparr>tab := f, pcs := (pcs c)(i := pc)\<rparr>))" using calls by simp
  fix j assume j: "j < length (ports e)"
  show "pc_ok e j (threads (tab (c\<lparr>tab := f, pcs := (pcs c)(i := pc)\<rparr>)) j) (pcs (c\<lparr>tab := f, pcs := (pcs c)(i := pc)\<rparr>) j)"
    using j own inv fdb_step_other [OF step] by (cases "j = i") (auto simp: conc_inv_def)
qed

text \<open>Another goroutine's step on the table, and the goroutine's own steps inside a call.\<close>

lemma conc_inv_run:
  assumes inv: "conc_inv e c" and step: "table_step i c f"
    and calls: "finished (threads (tab c) i) \<Longrightarrow> \<forall>k p n. threads f i \<noteq> LearnRead k p n"
    and own: "i < length (ports e) \<Longrightarrow> pc_ok e i (threads f i) (pcs c i)"
  shows "conc_inv e (c\<lparr>tab := f\<rparr>)"
proof -
  have "calls f = calls (tab c)" using fdb_step_calls [OF table_step_fdb [OF step]] calls by blast
  then have "calls_ok e f" using inv by (simp add: conc_inv_def calls_ok_def)
  from conc_inv_table [OF inv table_step_fdb [OF step] this own] show ?thesis by simp
qed

lemma conc_step_inv:
  assumes wf: "engine_wf e" and sc: "same_config e (sw c)" and race: "race_inv (tab c)" and inv: "conc_inv e c"
    and step: "conc_step decode ser ops i c c'"
  shows "conc_inv e c'"
proof -
  have len: "length (ports (sw c)) = length (ports e)" by (rule same_config_length [OF sc])
  have idx: "idx (ports (sw c) ! i) = i" if "i < length (ports e)"
    using port_cfg_fields(1) [OF same_config_nth [OF sc that]] engine_wf_idx [OF wf that] by simp
  have mem: "members (sw c) v = filter (in_vlan e v) [0..<length (ports e)]" for v
    using engine_wf_members [OF wf, of v] sc by (simp add: members_def same_config_def)
  have pc: "pc_ok e i (threads (tab c) i) (pcs c i)" if "i < length (ports e)"
    using inv that by (simp add: conc_inv_def)
  from step show ?thesis
  proof cases
    case (accept frm vid fv now)
    have "in_vlan (sw c) vid i" "length (src fv) = 6" "length (dst fv) = 6"
      using accept ingress_in_vlan [of i "sw c"] ingress_SomeD by (auto simp: accept_frame_ingress at_pc_def)
    then show ?thesis
      using accept inv pc by (auto simp: at_pc_def len conc_inv_def same_config_in_vlan [OF sc])
  next
    case (learn_call vid fv now s0 k p)
    then have i: "i < length (ports e)" "p = i" "in_vlan e vid i" "length (dst fv) = 6"
      using idx pc by (auto simp: at_pc_def len)
    let ?f = "goto i (LearnRead k p now) (tab c\<lparr>calls := insert (k, p) (calls (tab c))\<rparr>)"
    have "fdb_step i (tab c) ?f" using learn_call by (intro fdb_step.call_learn)
    moreover have "calls_ok e ?f" using inv i learn_call by (simp add: conc_inv_def calls_ok_def)
    ultimately have "conc_inv e (c\<lparr>tab := ?f, pcs := (pcs c)(i := FwdLearning vid fv now)\<rparr>)"
      using i by (intro conc_inv_table [OF inv]) simp_all
    moreover have "conc_inv e c' = conc_inv e (c\<lparr>tab := ?f, pcs := (pcs c)(i := FwdLearning vid fv now)\<rparr>)"
      by (rule conc_inv_cong) (simp_all add: learn_call(1) fwd_goto_def)
    ultimately show ?thesis by simp
  next
    case (lookup_call vid fv now d0)
    then have i: "i < length (ports e)" "in_vlan e vid i" "length (dst fv) = 6"
      using pc by (auto simp: at_pc_def len)
    let ?f = "goto i (LookupRead (macKey_of vid (copy_array 6 (dst fv))) now) (tab c)"
    have "fdb_step i (tab c) ?f" using lookup_call by (intro fdb_step.call_lookup)
    moreover have "calls_ok e ?f" using inv by (simp add: conc_inv_def calls_ok_def)
    ultimately have "conc_inv e (c\<lparr>tab := ?f, pcs := (pcs c)(i := FwdLooking vid fv)\<rparr>)"
      using i by (intro conc_inv_table [OF inv]) simp_all
    moreover have "conc_inv e c' = conc_inv e (c\<lparr>tab := ?f, pcs := (pcs c)(i := FwdLooking vid fv)\<rparr>)"
      by (rule conc_inv_cong) (simp_all add: lookup_call(1) fwd_goto_def)
    ultimately show ?thesis by simp
  next
    case (learn_run vid fv now f)
    show ?thesis unfolding learn_run(1)
      by (rule conc_inv_run [OF inv learn_run(4)]) (use learn_run pc in \<open>auto simp: at_pc_def len\<close>)
  next
    case (lookup_run vid fv f)
    then have "pc_ok e i (threads (tab c) i) (FwdLooking vid fv)" using pc by (simp add: at_pc_def len)
    then have "pc_ok e i (threads f i) (FwdLooking vid fv)"
      using fdb_step_lookup_key [OF table_step_fdb [OF lookup_run(4)] lookup_run(3)] by simp
    then show ?thesis unfolding lookup_run(1)
      by (intro conc_inv_run [OF inv lookup_run(4)]) (use lookup_run in \<open>auto simp: at_pc_def\<close>)
  next
    case (others f)
    show ?thesis unfolding others(1)
      by (rule conc_inv_run [OF inv others(3)]) (use others len in auto)
  next
    case (lookup_hit vid fv k out)
    then have "pc_ok e i (LookupDone k (Some out)) (FwdLooking vid fv)" using pc by (simp add: at_pc_def len)
    moreover have "(k, out) \<in> calls (tab c)" using race_inv_thread [OF race lookup_hit(3)] by simp
    ultimately have "in_vlan e vid out" "in_vlan e vid i" using inv by (auto simp: conc_inv_def calls_ok_def)
    then show ?thesis unfolding lookup_hit(1) by (intro conc_inv_goto [OF inv]) (simp add: lookup_hit)
  next
    case (out_write vid fv j js q pkt ok h)
    then show ?thesis using inv pc by (auto simp: conc_inv_def at_pc_def len)
  next
    case (out_panic vid fv j js)
    then show ?thesis using pc by (auto simp: at_pc_def len in_vlan_def)
  next
    case (add a as)
    then show ?thesis using inv by (auto simp: conc_inv_def)
  qed (use inv pc in \<open>auto simp: conc_inv_def at_pc_def len mem finished_lookup\<close>)
qed

lemma conc_reach_inv:
  assumes wf: "engine_wf e0" and "conc_reach decode ser ops e0 c"
  shows "conc_inv e0 c"
  using assms(2)
proof (induction rule: conc_reach.induct)
  case init
  show ?case by (simp add: conc_init_def conc_inv_def calls_ok_def init_shared_def)
next
  case (step c i c')
  then show ?case using conc_step_inv [OF wf conc_reach_config conc_reach_race_inv] by blast
qed

end
