(* ===== verification/ConcurSafety.thy ===== *)
theory ConcurSafety
  imports Concur
begin

text \<open>
  What holds of the concurrent data path under every interleaving: isolation of VLANs, at most one
  copy of a frame per port, exact counters, and consistent table snapshots.
\<close>

section \<open>What the goroutines did\<close>

text \<open>The frame goroutine \<open>i\<close> received last, and the ports it has written to since.\<close>

fun current :: "nat \<Rightarrow> event list \<Rightarrow> frame option" where
  "current i [] = None"
| "current i (Received k frm # evs) = (if k = i then Some frm else current i evs)"
| "current i (Dropped k # evs) = current i evs"
| "current i (Flooding k # evs) = current i evs"
| "current i (Wrote k v j pkt ok # evs) = current i evs"

fun written :: "nat \<Rightarrow> event list \<Rightarrow> nat list" where
  "written i [] = []"
| "written i (Received k frm # evs) = (if k = i then [] else written i evs)"
| "written i (Dropped k # evs) = written i evs"
| "written i (Flooding k # evs) = written i evs"
| "written i (Wrote k v j pkt ok # evs) = (if k = i then j # written i evs else written i evs)"

fun writes :: "event list \<Rightarrow> (nat \<times> frame \<times> bool) list" where
  "writes [] = []"
| "writes (Wrote k v j pkt ok # evs) = writes evs @ [(j, pkt, ok)]"
| "writes (ev # evs) = writes evs"

text \<open>
  All frames goroutine \<open>i\<close> has received, newest first; what its parser has become after decoding frames;
  and what the newest one means: the VLAN it belongs to and its decoded view, as \<open>ingress\<close> says it of
  the port with the parser the earlier frames have left.
\<close>

fun heard :: "nat \<Rightarrow> event list \<Rightarrow> frame list" where
  "heard i [] = []"
| "heard i (Received k frm # evs) = (if k = i then frm # heard i evs else heard i evs)"
| "heard i (ev # evs) = heard i evs"

definition replay :: "decoder \<Rightarrow> frameParser \<Rightarrow> frame list \<Rightarrow> frameParser" where
  "replay decode fp frms = foldr (\<lambda>frm fp. decode fp frm) frms fp"

definition last_ingress :: "decoder \<Rightarrow> 'h engine \<Rightarrow> nat \<Rightarrow> event list \<Rightarrow> (u16 \<times> frameView) option" where
  "last_ingress decode e i evs =
     (case heard i evs of
        [] \<Rightarrow> None
      | frm # earlier \<Rightarrow> ingress decode ((ports e ! i)\<lparr>parser := replay decode (parser (ports e ! i)) earlier\<rparr>) frm)"

text \<open>
  \<open>write_ok\<close>: a copy leaves on another port of the VLAN the frame received last was classified into,
  once per frame, and it is the egress form of that frame's decoded view.
\<close>

definition write_ok :: "decoder \<Rightarrow> serializer \<Rightarrow> 'h engine \<Rightarrow> event list \<Rightarrow> nat \<Rightarrow> u16 \<Rightarrow> nat \<Rightarrow> frame \<Rightarrow> bool" where
  "write_ok decode ser e evs i v j pkt \<longleftrightarrow>
     i \<noteq> j \<and> in_vlan e v i \<and> in_vlan e v j \<and> j \<notin> set (written i evs) \<and>
     (\<exists>fv. last_ingress decode e i evs = Some (v, fv) \<and> pkt = egress_frame ser (role (ports e ! j)) fv v)"

fun events_ok :: "decoder \<Rightarrow> serializer \<Rightarrow> 'h engine \<Rightarrow> event list \<Rightarrow> bool" where
  "events_ok decode ser e [] = True"
| "events_ok decode ser e (Wrote i v j pkt ok # evs) = (write_ok decode ser e evs i v j pkt \<and> events_ok decode ser e evs)"
| "events_ok decode ser e (ev # evs) = events_ok decode ser e evs"

text \<open>What a goroutine's parser has decoded: all it has received, but for a frame it has still to decode.\<close>

fun parsed :: "fwd_pc \<Rightarrow> frame list \<Rightarrow> frame list" where
  "parsed (FwdDecode frm) frms = tl frms"
| "parsed pc frms = frms"

fun pc_log :: "decoder \<Rightarrow> 'h engine \<Rightarrow> nat \<Rightarrow> event list \<Rightarrow> fwd_pc \<Rightarrow> bool" where
  "pc_log decode e i evs FwdIdle \<longleftrightarrow> True"
| "pc_log decode e i evs (FwdDecode frm) \<longleftrightarrow> current i evs = Some frm \<and> written i evs = []"
| "pc_log decode e i evs (FwdLearn vid fv now) \<longleftrightarrow> last_ingress decode e i evs = Some (vid, fv) \<and> written i evs = []"
| "pc_log decode e i evs (FwdLearning vid fv now) \<longleftrightarrow> last_ingress decode e i evs = Some (vid, fv) \<and> written i evs = []"
| "pc_log decode e i evs (FwdLookup vid fv now) \<longleftrightarrow> last_ingress decode e i evs = Some (vid, fv) \<and> written i evs = []"
| "pc_log decode e i evs (FwdLooking vid fv) \<longleftrightarrow> last_ingress decode e i evs = Some (vid, fv) \<and> written i evs = []"
| "pc_log decode e i evs (FwdFlood vid fv) \<longleftrightarrow> last_ingress decode e i evs = Some (vid, fv) \<and> written i evs = []"
| "pc_log decode e i evs (FwdOut vid fv js) \<longleftrightarrow>
     last_ingress decode e i evs = Some (vid, fv) \<and> set (written i evs) \<inter> set js = {}"
| "pc_log decode e i evs FwdPanic \<longleftrightarrow> True"

definition log_inv :: "decoder \<Rightarrow> serializer \<Rightarrow> 'h engine \<Rightarrow> 'h conc \<Rightarrow> bool" where
  "log_inv decode ser e c \<longleftrightarrow> events_ok decode ser e (events c) \<and> wire (sw c) = wire e @ writes (events c) \<and>
     (\<forall>i < length (ports e). pc_log decode e i (events c) (pcs c i) \<and>
        parser (ports (sw c) ! i) = replay decode (parser (ports e ! i)) (parsed (pcs c i) (heard i (events c))))"

lemma replay_Cons [simp]: "replay decode fp (frm # frms) = decode (replay decode fp frms) frm"
  by (simp add: replay_def)

lemma replay_Nil [simp]: "replay decode fp [] = fp"
  by (simp add: replay_def)

lemma current_heard: "current i evs = (case heard i evs of [] \<Rightarrow> None | frm # earlier \<Rightarrow> Some frm)"
  by (induction i evs rule: current.induct) auto

lemma last_ingress_events [simp]:
  "k \<noteq> i \<Longrightarrow> last_ingress decode e i (Received k frm # evs) = last_ingress decode e i evs"
  "last_ingress decode e i (Dropped k # evs) = last_ingress decode e i evs"
  "last_ingress decode e i (Flooding k # evs) = last_ingress decode e i evs"
  "last_ingress decode e i (Wrote k v j pkt ok # evs) = last_ingress decode e i evs"
  by (simp_all add: last_ingress_def)

lemma ingress_cong: "port_cfg p = port_cfg q \<Longrightarrow> parser p = parser q \<Longrightarrow> ingress decode p frm = ingress decode q frm"
  using port_cfg_fields(5) [of p q] by (simp add: ingress_def Let_def)

text \<open>A goroutine that decodes its frame computes what the frame means.\<close>

lemma decode_last_ingress:
  assumes "port_cfg p = port_cfg (ports e ! i)" and "parser p = replay decode (parser (ports e ! i)) (tl (heard i evs))"
    and "current i evs = Some frm"
  shows "accept_frame decode p frm = last_ingress decode e i evs"
    and "decode (parser p) frm = replay decode (parser (ports e ! i)) (heard i evs)"
proof -
  obtain earlier where h: "heard i evs = frm # earlier"
    using assms(3) by (auto simp: current_heard split: list.splits)
  have "port_cfg p = port_cfg ((ports e ! i)\<lparr>parser := fp\<rparr>)" for fp using assms(1) by simp
  then show "accept_frame decode p frm = last_ingress decode e i evs"
    unfolding accept_frame_ingress last_ingress_def h list.case using assms(2) h by (intro ingress_cong) simp_all
  show "decode (parser p) frm = replay decode (parser (ports e ! i)) (heard i evs)" using assms(2) h by simp
qed

lemma parser_sw_simps [simp]:
  "j < length (ports e) \<Longrightarrow> parser (ports (atomic_add a e) ! j) = parser (ports e ! j)"
  "j < length (ports e) \<Longrightarrow> parser (ports (write_port k pkt ok h e) ! j) = parser (ports e ! j)"
  "j < length (ports e) \<Longrightarrow> parser (ports (set_handle k h e) ! j) = parser (ports e ! j)"
  "j < length (ports e) \<Longrightarrow> parser (ports (set_parser decode k frm e) ! j) =
     (if j = k then decode (parser (ports e ! j)) frm else parser (ports e ! j))"
  by (cases a; simp add: atomic_add.simps nth_upd_port)
    (simp_all add: set_parser_def write_port_def set_handle_def Let_def nth_upd_port)

lemma wire_sw_simps [simp]:
  "wire (atomic_add a e) = wire e" "wire (set_parser decode i frm e) = wire e"
  "wire (write_port j pkt ok h e) = wire e @ [(j, pkt, ok)]"
  by (cases a; simp add: atomic_add.simps) (simp_all add: set_parser_def write_port_def Let_def)

lemma pc_log_other:
  "k \<noteq> i \<Longrightarrow> pc_log decode e k (Received i frm # evs) pc = pc_log decode e k evs pc"
  "k \<noteq> i \<Longrightarrow> pc_log decode e k (Wrote i v j pkt ok # evs) pc = pc_log decode e k evs pc"
  "pc_log decode e k (Dropped i # evs) pc = pc_log decode e k evs pc"
  "pc_log decode e k (Flooding i # evs) pc = pc_log decode e k evs pc"
  by (cases pc; simp)+

lemma conc_step_log:
  assumes wf: "engine_wf e" and sc: "same_config e (sw c)" and inv: "conc_inv e c" and log: "log_inv decode ser e c"
    and step: "conc_step decode ser ops i c c'"
  shows "log_inv decode ser e c'"
proof -
  have len: "length (ports (sw c)) = length (ports e)" by (rule same_config_length [OF sc])
  have idx: "idx (ports (sw c) ! i) = i" if "i < length (ports e)"
    using port_cfg_fields(1) [OF same_config_nth [OF sc that]] engine_wf_idx [OF wf that] by simp
  have pc: "pc_log decode e i (events c) (pcs c i)" "pc_ok e i (threads (tab c) i) (pcs c i)"
    "parser (ports (sw c) ! i) = replay decode (parser (ports e ! i)) (parsed (pcs c i) (heard i (events c)))"
    if "i < length (ports e)"
    using inv log that by (simp_all add: conc_inv_def log_inv_def)
  from step show ?thesis
  proof cases
    case (accept frm vid fv now)
    then have i: "i < length (ports e)" by (simp add: at_pc_def len)
    note d = decode_last_ingress [OF same_config_nth [OF sc i], of decode "events c" frm]
    show ?thesis using accept log pc [OF i] d by (auto simp: log_inv_def at_pc_def len)
  next
    case (drop frm)
    then have i: "i < length (ports e)" by (simp add: at_pc_def len)
    note d = decode_last_ingress [OF same_config_nth [OF sc i], of decode "events c" frm]
    show ?thesis using drop log pc [OF i] d by (auto simp: log_inv_def at_pc_def len pc_log_other)
  next
    case (out_write vid fv j js q pkt ok h)
    then have i: "i < length (ports e)" and j: "j \<noteq> i" "j < length (ports e)" "q = ports (sw c) ! j"
      using idx by (auto simp: at_pc_def len)
    have at: "pcs c i = FwdOut vid fv (j # js)" using out_write by (simp add: at_pc_def)
    have "role q = role (ports e ! j)" using same_config_role [OF sc j(2)] j(3) by simp
    then have "write_ok decode ser e (events c) i vid j pkt"
      using pc [OF i] j at out_write(5) by (auto simp: write_ok_def)
    then show ?thesis
      unfolding out_write(1) using log pc [OF i] at by (auto simp: log_inv_def len pc_log_other)
  qed (use log pc in \<open>auto simp: log_inv_def at_pc_def len pc_log_other\<close>)
qed

lemma conc_reach_log:
  assumes wf: "engine_wf e0" and "conc_reach decode ser ops e0 c"
  shows "log_inv decode ser e0 c"
  using assms(2)
proof (induction rule: conc_reach.induct)
  case init
  show ?case by (simp add: conc_init_def log_inv_def)
next
  case (step c i c')
  then show ?case using conc_step_log [OF wf conc_reach_config conc_reach_inv [OF wf]] by blast
qed

lemma events_ok_member:
  "events_ok decode ser e (xs @ Wrote i v j pkt ok # evs) \<Longrightarrow> write_ok decode ser e evs i v j pkt"
proof (induction xs)
  case (Cons ev xs)
  then show ?case by (cases ev) auto
qed simp

section \<open>Counters\<close>

text \<open>What an event adds to a counter, and the additions a goroutine still owes.\<close>

fun adds_of :: "event \<Rightarrow> add list" where
  "adds_of (Received i frm) = [(i, CtrRxFrames, 1), (i, CtrRxBytes, of_nat (length frm))]"
| "adds_of (Dropped i) = [(i, CtrForwardDrop, 1)]"
| "adds_of (Flooding i) = [(i, CtrFlooded, 1)]"
| "adds_of (Wrote i v j pkt ok) =
     (if ok then [(j, CtrTxFrames, 1), (j, CtrTxBytes, of_nat (length pkt))] else [(j, CtrTxDrop, 1)])"

definition owed :: "counter \<Rightarrow> nat \<Rightarrow> add list \<Rightarrow> u64" where
  "owed q j as = (\<Sum>(k, q', n) \<leftarrow> as. if k = j \<and> q' = q then n else 0)"

definition logged :: "counter \<Rightarrow> nat \<Rightarrow> event list \<Rightarrow> u64" where
  "logged q j evs = (\<Sum>ev \<leftarrow> evs. owed q j (adds_of ev))"

definition count_inv :: "'h engine \<Rightarrow> 'h conc \<Rightarrow> bool" where
  "count_inv e c \<longleftrightarrow> (\<forall>q. \<forall>j < length (ports e).
     read_counter q (stats (ports (sw c) ! j)) + (\<Sum>i < length (ports e). owed q j (adds c i)) =
     read_counter q (stats (ports e ! j)) + logged q j (events c))"

lemma owed_simps [simp]:
  "owed q j [] = 0" "owed q j ((k, q', n) # as) = (if k = j \<and> q' = q then n else 0) + owed q j as"
  by (simp_all add: owed_def)

lemma logged_simps [simp]: "logged q j [] = 0" "logged q j (ev # evs) = owed q j (adds_of ev) + logged q j evs"
  by (simp_all add: logged_def)

lemma sum_lessThan_upd:
  fixes f :: "nat \<Rightarrow> 'a :: ab_group_add"
  assumes "i < n"
  shows "(\<Sum>k < n. if k = i then x else f k) = (\<Sum>k < n. f k) - f i + x"
  using assms by (simp add: sum.remove [of "{..<n}" i] cong: sum.cong_simp)

lemma owed_goto:
  "i < n \<Longrightarrow> (\<Sum>k < n. owed q j (adds (fwd_goto i pc as c) k)) = (\<Sum>k < n. owed q j (adds c k)) - owed q j (adds c i) + owed q j as"
  by (simp add: if_distrib [of "owed q j"] sum_lessThan_upd)

lemma stats_sw_simps [simp]:
  "j < length (ports e) \<Longrightarrow> stats (ports (set_parser decode i frm e) ! j) = stats (ports e ! j)"
  "j < length (ports e) \<Longrightarrow> stats (ports (write_port k pkt ok h e) ! j) = stats (ports e ! j)"
  "j < length (ports e) \<Longrightarrow> stats (ports (set_handle k h e) ! j) = stats (ports e ! j)"
  by (simp_all add: set_parser_def write_port_def set_handle_def Let_def nth_upd_port)

lemma read_atomic_add:
  "j < length (ports e) \<Longrightarrow>
     read_counter q (stats (ports (atomic_add a e) ! j)) = read_counter q (stats (ports e ! j)) + owed q j [a]"
  by (cases a) (auto simp: atomic_add.simps nth_upd_port)

lemma conc_step_count:
  assumes sc: "same_config e (sw c)" and count: "count_inv e c" and step: "conc_step decode ser ops i c c'"
  shows "count_inv e c'"
proof -
  have len: "length (ports (sw c)) = length (ports e)" by (rule same_config_length [OF sc])
  from step show ?thesis
  proof cases
    case (add a as)
    then have i: "i < length (ports e)" by (simp add: len)
    show ?thesis
      using count add(3) unfolding count_inv_def add(1)
      by (cases a) (auto simp: owed_goto [OF i] read_atomic_add len simp del: fwd_goto_sel(6))
  qed (use count in \<open>auto simp: count_inv_def at_pc_def len owed_goto simp del: fwd_goto_sel(6)\<close>)
qed

lemma conc_reach_count: "conc_reach decode ser ops e0 c \<Longrightarrow> count_inv e0 c"
proof (induction rule: conc_reach.induct)
  case init
  show ?case by (simp add: conc_init_def count_inv_def)
next
  case (step c i c')
  then show ?case using conc_step_count [OF conc_reach_config] by blast
qed

section \<open>Snapshots\<close>

text \<open>A row is about an entry of the table: its key, and the name of its port.\<close>

definition row_about :: "'h engine \<Rightarrow> shared \<Rightarrow> macKey \<Rightarrow> FDBEntry \<Rightarrow> bool" where
  "row_about e f k r \<longleftrightarrow>
     (\<exists>a en. ptable f k = Some a \<and> heap f a = Some en \<and> portIdx en < length (ports e) \<and>
        VID r = key_vid k \<and> MAC r = mac_String (key_mac k) \<and> entry_Port r = name (ports e ! portIdx en))"

fun snap_ok :: "'h engine \<Rightarrow> shared \<Rightarrow> snap_pc \<Rightarrow> bool" where
  "snap_ok e f (SnapRows now ks rows) \<longleftrightarrow> writer f = None \<and>
     (\<exists>ks0. distinct (ks0 @ ks) \<and> set (ks0 @ ks) = dom (ptable f) \<and> list_all2 (row_about e f) ks0 rows)"
| "snap_ok e f SnapPanic \<longleftrightarrow> False"
| "snap_ok e f pc \<longleftrightarrow> True"

definition snap_inv :: "'h engine \<Rightarrow> 'h conc \<Rightarrow> bool" where
  "snap_inv e c \<longleftrightarrow> (\<forall>r. snap_ok e (tab c) (snaps c r))"

text \<open>While no writer is inside and none gets in, nothing a snapshot reads can change.\<close>

lemma fdb_step_frozen:
  assumes "fdb_step t f f'" and "race_inv f" and "writer f = None" and "writer f' = None"
  shows "ptable f' = ptable f \<and> (\<forall>a. map_option portIdx (heap f' a) = map_option portIdx (heap f a))"
proof -
  have "\<not> critical (threads f t)" using assms(2,3) by (simp add: race_inv_def lock_ok_def)
  with assms(1,4) show ?thesis by cases auto
qed

lemma row_about_frozen:
  assumes "row_about e f k r" and "ptable f' = ptable f" and "map_option portIdx (heap f' a) = map_option portIdx (heap f a)"
    "ptable f k = Some a"
  shows "row_about e f' k r"
  using assms by (cases "heap f' a") (auto simp: row_about_def)

lemma snap_ok_step:
  assumes ok: "snap_ok e f pc" and step: "fdb_step t f f'" and race: "race_inv f"
    and lock: "writer f = None \<and> writer f' \<noteq> None \<longrightarrow> \<not> snapping pc"
  shows "snap_ok e f' pc"
proof (cases pc)
  case (SnapRows now ks rows)
  then have "writer f = None" "writer f' = None" using ok lock by (auto simp: snapping_def)
  with fdb_step_frozen [OF step race] have fr: "ptable f' = ptable f"
    "\<And>a. map_option portIdx (heap f' a) = map_option portIdx (heap f a)" by blast+
  have "row_about e f' k r" if "row_about e f k r" for k r
    using that row_about_frozen [OF that fr(1) fr(2)] by (auto simp: row_about_def)
  then have "list_all2 (row_about e f) ks0 rows \<Longrightarrow> list_all2 (row_about e f') ks0 rows" for ks0
    by (auto elim: list_all2_mono)
  with ok SnapRows \<open>writer f' = None\<close> fr(1) show ?thesis by auto
qed (use ok in auto)

lemma snap_ok_threads:
  "ptable f' = ptable f \<Longrightarrow> heap f' = heap f \<Longrightarrow> writer f' = writer f \<Longrightarrow> snap_ok e f' pc = snap_ok e f pc"
proof -
  assume f: "ptable f' = ptable f" "heap f' = heap f" "writer f' = writer f"
  then have "row_about e f' = row_about e f" by (simp add: row_about_def fun_eq_iff)
  with f show ?thesis by (cases "(e, f', pc)" rule: snap_ok.cases) simp_all
qed

lemma conc_step_snap:
  assumes wf: "engine_wf e" and sc: "same_config e (sw c)" and race: "race_inv (tab c)" and inv: "conc_inv e c"
    and snap: "snap_inv e c" and step: "conc_step decode ser ops i c c'"
  shows "snap_inv e c'"
proof -
  have len: "length (ports (sw c)) = length (ports e)" by (rule same_config_length [OF sc])
  have moved: "snap_inv e (c\<lparr>tab := f\<rparr>)" if "table_step i c f" for f
    unfolding snap_inv_def
  proof
    fix r
    have "snap_ok e f (snaps c r)"
      by (rule snap_ok_step [OF _ table_step_fdb [OF that] race])
        (use snap that in \<open>simp_all add: snap_inv_def table_step_def\<close>)
    then show "snap_ok e (tab (c\<lparr>tab := f\<rparr>)) (snaps (c\<lparr>tab := f\<rparr>) r)" by simp
  qed
  have port: "portIdx en < length (ports e)" if "ptable (tab c) k = Some a" "heap (tab c) a = Some en" for k a en
    using inv race_inv_entry [OF race race_inv_owner [OF race that(1)]] that(2)
    by (fastforce simp: conc_inv_def calls_ok_def in_vlan_def)
  from step show ?thesis
  proof cases
    case (snap_lock now ks)
    then have "snap_ok e (tab c) (SnapRows now ks [])" by (auto intro: exI [of _ "[]"])
    with snap show ?thesis unfolding snap_lock(1) by (simp add: snap_inv_def)
  next
    case (snap_row now k ks rows a en r)
    have "snap_ok e (tab c) (SnapRows now (k # ks) rows)" using snap snap_row(2) by (metis snap_inv_def)
    then obtain ks0 where w: "writer (tab c) = None" and k: "distinct (ks0 @ k # ks)" "set (ks0 @ k # ks) = dom (ptable (tab c))"
      "list_all2 (row_about e (tab c)) ks0 rows" by auto
    have p: "portIdx en < length (ports e)" by (rule port [OF snap_row(3,4)])
    then have "name (ports (sw c) ! portIdx en) = name (ports e ! portIdx en)"
      using port_cfg_fields(2) [OF same_config_nth [OF sc]] by simp
    then have "row_about e (tab c) k r"
      using snap_row(3-5) p by (auto simp: row_about_def fdb_row_def nth_opt_def len)
    then have "snap_ok e (tab c) (SnapRows now ks (rows @ [r]))"
      using w k by (auto intro!: exI [of _ "ks0 @ [k]"] list_all2_appendI)
    with snap show ?thesis unfolding snap_row(1) by (simp add: snap_inv_def)
  next
    case (snap_panic now k ks rows a en)
    then show ?thesis using port [OF snap_panic(3,4)] by (simp add: fdb_row_def nth_opt_def len)
  next
    case (learn_run vid fv now f)
    with moved show ?thesis by simp
  next
    case (lookup_run vid fv f)
    with moved show ?thesis by simp
  next
    case (others f)
    with moved show ?thesis by simp
  qed (use snap in \<open>auto simp: snap_inv_def snap_ok_threads [of "goto _ _ _"] snap_ok_threads [of "_\<lparr>calls := _\<rparr>"]\<close>)
qed

lemma conc_reach_snap:
  assumes wf: "engine_wf e0" and "conc_reach decode ser ops e0 c"
  shows "snap_inv e0 c"
  using assms(2)
proof (induction rule: conc_reach.induct)
  case init
  show ?case by (simp add: conc_init_def snap_inv_def)
next
  case (step c i c')
  then show ?case
    using conc_step_snap [OF wf conc_reach_config conc_reach_race_inv conc_reach_inv [OF wf]] by blast
qed

end
