(* ===== verification/ConcurRefine.thy ===== *)
theory ConcurRefine
  imports ConcurSafety
begin

text \<open>
  The concurrent data path refines the atomic one: a goroutine that handles a frame while nobody else
  moves returns, and leaves exactly the engine that the atomic \<open>forward\<close> computes, pointers and
  pending counter additions forgotten.
\<close>

section \<open>The atomic engine a state stands for\<close>

definition conc_abs :: "'h conc \<Rightarrow> 'h engine" where
  "conc_abs c = (sw c)\<lparr>fdb := fdb_abs (tab c)\<rparr>"

text \<open>... once goroutine \<open>i\<close> has made the additions it owes.\<close>

definition settled :: "nat \<Rightarrow> 'h conc \<Rightarrow> 'h engine" where
  "settled i c = fold atomic_add (adds c i) (conc_abs c)"

definition start_frame :: "nat \<Rightarrow> frame \<Rightarrow> 'h conc \<Rightarrow> 'h conc" where
  "start_frame i frm c =
     fwd_goto i (FwdDecode frm) [(i, CtrRxFrames, 1), (i, CtrRxBytes, of_nat (length frm))]
       (c\<lparr>events := Received i frm # events c\<rparr>)"

definition busy :: "'h conc \<Rightarrow> nat \<Rightarrow> bool" where
  "busy c i \<longleftrightarrow> \<not> (pcs c i = FwdIdle \<and> adds c i = [])"

text \<open>A step of goroutine \<open>i\<close> itself, on the frame it is handling.\<close>

definition fwd_own :: "decoder \<Rightarrow> serializer \<Rightarrow> 'h PacketIO \<Rightarrow> nat \<Rightarrow> 'h conc \<Rightarrow> 'h conc \<Rightarrow> bool" where
  "fwd_own decode ser ops i c c' \<longleftrightarrow> conc_step decode ser ops i c c' \<and> i < length (ports (sw c)) \<and> busy c i \<and>
     snaps c' = snaps c \<and>
     (pcs c' i \<noteq> pcs c i \<or> adds c' i \<noteq> adds c i \<or> threads (tab c') i \<noteq> threads (tab c) i)"

section \<open>Engines up to their table\<close>

lemma upd_port_fdb: "upd_port j f (e\<lparr>fdb := t\<rparr>) = (upd_port j f e)\<lparr>fdb := t\<rparr>"
  by (simp add: upd_port_def)

lemma atomic_add_fdb: "atomic_add a (e\<lparr>fdb := t\<rparr>) = (atomic_add a e)\<lparr>fdb := t\<rparr>"
  by (cases a) (simp add: atomic_add.simps upd_port_fdb)

lemma set_parser_fdb: "set_parser decode i frm (e\<lparr>fdb := t\<rparr>) = (set_parser decode i frm e)\<lparr>fdb := t\<rparr>"
  by (simp add: set_parser_def upd_port_fdb)

lemma write_port_fdb: "write_port j pkt ok h (e\<lparr>fdb := t\<rparr>) = (write_port j pkt ok h e)\<lparr>fdb := t\<rparr>"
  by (simp add: write_port_def Let_def upd_port_fdb)

lemma upd_port_twice: "upd_port j f (upd_port j g e) = upd_port j (\<lambda>p. f (g p)) e"
  by (cases "j < length (ports e)") (simp_all add: upd_port_def list_update_beyond)

lemma settle_rx:
  "fold atomic_add [(i, CtrRxFrames, 1), (i, CtrRxBytes, of_nat (length frm))] e = upd_port i (count_rx frm) e"
  by (simp add: atomic_add.simps upd_port_twice count_rx_def [abs_def])

lemma settle_drop: "fold atomic_add [(i, CtrForwardDrop, 1)] e = upd_port i count_drop e"
  by (simp add: atomic_add.simps count_drop_def [abs_def])

lemma settle_flood: "fold atomic_add [(i, CtrFlooded, 1)] e = upd_port i count_flood e"
  by (simp add: atomic_add.simps count_flood_def [abs_def])

lemma settle_tx:
  "fold atomic_add (if ok then [(j, CtrTxFrames, 1), (j, CtrTxBytes, of_nat (length pkt))] else [(j, CtrTxDrop, 1)]) e =
     upd_port j (if ok then count_tx pkt else count_txDrop) e"
  by (simp add: atomic_add.simps upd_port_twice count_tx_def [abs_def] count_txDrop_def [abs_def])

lemma set_parser_received: "set_parser decode i frm (upd_port i (count_rx frm) e) = received decode i frm e"
  by (cases "i < length (ports e)")
    (simp_all add: set_parser_def received_def upd_port_def count_rx_def list_update_beyond)

lemma ingress_count_rx: "ingress decode (count_rx frm p) frm' = ingress decode p frm'"
proof -
  have "classify (count_rx frm p) = classify p" by (rule port_cfg_fields(5)) simp
  moreover have "parser (count_rx frm p) = parser p" by (simp add: count_rx_def)
  ultimately show ?thesis by (simp only: ingress_def)
qed

lemma emit_write:
  assumes "j < length (ports e)" and "pkt = egress_frame ser (role (ports e ! j)) fv vid"
    and "WritePacketData ops (io (ports e ! j)) pkt = (ok, h)"
  shows "emit ser ops j fv vid e = Some (upd_port j (if ok then count_tx pkt else count_txDrop) (write_port j pkt ok h e))"
  using assms by (simp add: emit_def nth_opt_def Let_def write_port_def)

lemma conc_abs_sel [simp]:
  "ports (conc_abs c) = ports (sw c)" "fdb (conc_abs c) = fdb_abs (tab c)" "wire (conc_abs c) = wire (sw c)"
  "vidMembers (conc_abs c) = vidMembers (sw c)" "vlanAware (conc_abs c) = vlanAware (sw c)"
  by (simp_all add: conc_abs_def)

lemma conc_reach_abs_wf:
  assumes wf: "engine_wf e0" and reach: "conc_reach decode ser ops e0 c"
  shows "engine_wf (conc_abs c)" and "same_config e0 (conc_abs c)"
proof -
  show sc: "same_config e0 (conc_abs c)"
    using conc_reach_config [OF reach] by (simp add: same_config_def)
  have inv: "conc_inv e0 c" "race_inv (tab c)"
    using conc_reach_inv [OF wf reach] conc_reach_race_inv [OF reach] by auto
  have "in_vlan e0 v p" if b: "bound_port (fdb (conc_abs c)) v m = Some p" for v m p
  proof -
    obtain a en where a: "ptable (tab c) (macKey_of v m) = Some a" "heap (tab c) a = Some en" "portIdx en = p"
      using b by (auto simp: bound_port_def table_fdb_abs bind_eq_Some_conv)
    have "(macKey_of v m, p) \<in> calls (tab c)"
      using race_inv_entry [OF inv(2) race_inv_owner [OF inv(2) a(1)]] a by auto
    then show ?thesis using inv(1) by (auto simp: conc_inv_def calls_ok_def)
  qed
  then have "ft.confined (in_vlan e0) (fdb (conc_abs c))" by (simp add: ft.confined_def)
  then show "engine_wf (conc_abs c)" by (rule same_config_wf [OF sc wf])
qed

section \<open>Where a goroutine stands\<close>

definition learned_to :: "decoder \<Rightarrow> nat \<Rightarrow> frame \<Rightarrow> i64 \<Rightarrow> u16 \<Rightarrow> frameView \<Rightarrow> 'h engine \<Rightarrow> 'h engine" where
  "learned_to decode i frm now vid fv e = learned vid i fv now (received decode i frm e)"

definition fwd_progress ::
  "decoder \<Rightarrow> serializer \<Rightarrow> 'h PacketIO \<Rightarrow> nat \<Rightarrow> frame \<Rightarrow> 'h engine \<Rightarrow> 'h conc \<Rightarrow> bool" where
  "fwd_progress decode ser ops i frm E0 c \<longleftrightarrow>
     (let E = settled i c; ing = ingress decode (ports E0 ! i) frm
      in case pcs c i of
           FwdDecode frm' \<Rightarrow> frm' = frm \<and> E = upd_port i (count_rx frm) E0
         | FwdLearn vid fv now \<Rightarrow> ing = Some (vid, fv) \<and> E = received decode i frm E0
         | FwdLearning vid fv now \<Rightarrow> ing = Some (vid, fv) \<and> \<not> group_address (src fv) \<and> adds c i = [] \<and>
             (sw c)\<lparr>fdb := fdb E0\<rparr> = received decode i frm E0 \<and>
             (\<exists>s0. fdb_abs s0 = fdb E0 \<and> learn_progress i (macKey_of vid (src fv)) i now s0 (tab c))
         | FwdLookup vid fv now \<Rightarrow> ing = Some (vid, fv) \<and> E = learned_to decode i frm now vid fv E0
         | FwdLooking vid fv \<Rightarrow> ing = Some (vid, fv) \<and> \<not> group_address (dst fv) \<and>
             (\<exists>now s0. E = learned_to decode i frm now vid fv E0 \<and> fdb_abs s0 = fdb_abs (tab c) \<and>
                lookup_progress i (macKey_of vid (dst fv)) now s0 (tab c))
         | FwdFlood vid fv \<Rightarrow> ing = Some (vid, fv) \<and>
             (\<exists>now. E = learned_to decode i frm now vid fv E0 \<and> known_port (fdb_abs (tab c)) vid fv now = None)
         | FwdOut vid fv js \<Rightarrow>
             (\<exists>now. forward decode ser ops i frm now E0 = foldM (\<lambda>j. emit ser ops j fv vid) (filter (\<lambda>j. j \<noteq> i) js) E)
         | FwdIdle \<Rightarrow> (\<exists>now. forward decode ser ops i frm now E0 = Some E)
         | FwdPanic \<Rightarrow> False)"

lemma fold_atomic_add_fdb: "fold atomic_add as (e\<lparr>fdb := t\<rparr>) = (fold atomic_add as e)\<lparr>fdb := t\<rparr>"
  by (induction as arbitrary: e) (simp_all add: atomic_add_fdb)

lemma settled_eq: "settled i c = (fold atomic_add (adds c i) (sw c))\<lparr>fdb := fdb_abs (tab c)\<rparr>"
  by (simp add: settled_def conc_abs_def fold_atomic_add_fdb)

lemma settled_clear: "adds c i = [] \<Longrightarrow> settled i c = conc_abs c"
  by (simp add: settled_def)

lemma atomic_add_sel [simp]:
  "fdb (atomic_add a e) = fdb e" "length (ports (atomic_add a e)) = length (ports e)"
  by (cases a; simp add: atomic_add.simps)+

lemma fdb_settled [simp]: "fdb (settled i c) = fdb_abs (tab c)"
  by (simp add: settled_eq)

lemma fdb_update_same [simp]: "e\<lparr>fdb := fdb e\<rparr> = e"
  by simp

lemma learned_to_fdb:
  "learned_to decode i frm now vid fv E0 =
     (received decode i frm E0)\<lparr>fdb := learn_source (fdb E0) vid i fv now\<rparr>"
  by (simp add: learned_to_def learned_def)

lemma group_nth: "length m = 6 \<Longrightarrow> nth_opt m 0 = Some x \<Longrightarrow> group_address m \<longleftrightarrow> and x 1 \<noteq> 0"
  by (simp add: group_address_def nth_opt_0_hd del: nth_opt_Some_iff)

text \<open>A lookup that has returned has the result of the atomic one.\<close>

lemma looking_result:
  assumes "fwd_progress decode ser ops i frm E0 c" and "at_pc c i (FwdLooking vid fv)"
    and "threads (tab c) i = LookupDone k r"
  shows "\<exists>now. conc_abs c = learned_to decode i frm now vid fv E0 \<and> known_port (fdb (conc_abs c)) vid fv now = r \<and>
    ingress decode (ports E0 ! i) frm = Some (vid, fv)"
proof -
  have at: "pcs c i = FwdLooking vid fv" "adds c i = []" using assms(2) by (simp_all add: at_pc_def)
  obtain now s0 where s0: "conc_abs c = learned_to decode i frm now vid fv E0" "fdb_abs s0 = fdb_abs (tab c)"
    "lookup_progress i (macKey_of vid (dst fv)) now s0 (tab c)" and ing: "ingress decode (ports E0 ! i) frm = Some (vid, fv)"
    and dst: "\<not> group_address (dst fv)"
    using assms(1) unfolding fwd_progress_def Let_def at(1) settled_clear [OF at(2)] by auto
  have "known_port (fdb (conc_abs c)) vid fv now = r"
    using s0(2,3) assms(3) dst by (simp add: lookup_progress_def known_port_def)
  with s0(1) ing show ?thesis by blast
qed

lemma fwd_progress_step:
  assumes wf: "engine_wf E0" and sc: "same_config E0 (sw c)" and i: "i < length (ports E0)"
    and ok: "pc_ok e0 i (threads (tab c) i) (pcs c i)" and same: "length (ports e0) = length (ports E0)"
    and race: "race_inv (tab c)" and prog: "fwd_progress decode ser ops i frm E0 c" and own: "fwd_own decode ser ops i c c'"
  shows "fwd_progress decode ser ops i frm E0 c'"
proof -
  have len: "length (ports (sw c)) = length (ports E0)" by (rule same_config_length [OF sc])
  have idx: "idx (ports (sw c) ! i) = i"
    using port_cfg_fields(1) [OF same_config_nth [OF sc i]] engine_wf_idx [OF wf i] by simp
  have mem: "members (sw c) v = members E0 v" for v
    using sc by (simp add: members_def same_config_def)
  have step: "conc_step decode ser ops i c c'" and act: "busy c i" and quiet: "snaps c' = snaps c"
    and moved: "pcs c' i \<noteq> pcs c i \<or> adds c' i \<noteq> adds c i \<or> threads (tab c') i \<noteq> threads (tab c) i"
    using own by (simp_all add: fwd_own_def)
  from step show ?thesis
  proof cases
    case receive
    with act show ?thesis by (simp add: busy_def at_pc_def)
  next
    case (add a as)
    have "settled i c' = settled i c"
      unfolding add(1) settled_eq by (simp add: add(3))
    moreover have "pcs c' i = pcs c i" "tab c' = tab c" "\<forall>vid fv now. pcs c i \<noteq> FwdLearning vid fv now"
      using prog add(3) unfolding add(1) by (auto simp: fwd_progress_def)
    ultimately show ?thesis
      using prog by (cases "pcs c i") (simp_all add: fwd_progress_def)
  next
    case (drop frm')
    then have E: "conc_abs c = upd_port i (count_rx frm) E0" "frm' = frm"
      using prog by (auto simp: fwd_progress_def at_pc_def settled_clear)
    have "ports (sw c) ! i = count_rx frm (ports E0 ! i)"
      using arg_cong [OF E(1), of ports] i by (simp add: upd_port_def)
    with drop(3) E(2) have "ingress decode (ports E0 ! i) frm = None"
      by (simp add: accept_frame_ingress ingress_count_rx)
    moreover have "settled i c' = upd_port i count_drop (received decode i frm E0)"
      unfolding settled_def drop(1)
      by (simp add: settle_drop [simplified] conc_abs_def set_parser_fdb [symmetric]) 
        (simp add: conc_abs_def [symmetric] E set_parser_received)
    ultimately show ?thesis
      using forward_dropped [OF i] by (simp add: fwd_progress_def drop(1))
  next
    case (accept frm' vid fv now)
    then have E: "conc_abs c = upd_port i (count_rx frm) E0" "frm' = frm"
      using prog by (auto simp: fwd_progress_def at_pc_def settled_clear)
    have "ports (sw c) ! i = count_rx frm (ports E0 ! i)"
      using arg_cong [OF E(1), of ports] i by (simp add: upd_port_def)
    with accept(3) E(2) have "ingress decode (ports E0 ! i) frm = Some (vid, fv)"
      by (simp add: accept_frame_ingress ingress_count_rx)
    moreover have "settled i c' = received decode i frm E0"
      unfolding settled_def accept(1)
      by (simp add: conc_abs_def set_parser_fdb [symmetric])
        (simp add: conc_abs_def [symmetric] E set_parser_received)
    ultimately show ?thesis by (simp add: fwd_progress_def accept(1))
  next
    case (src_panic vid fv now)
    then show ?thesis using ok by (simp add: at_pc_def)
  next
    case (dst_panic vid fv now)
    then show ?thesis using ok by (simp add: at_pc_def)
  next
    case (learn_skip vid fv now s0)
    then have E: "conc_abs c = received decode i frm E0" and ing: "ingress decode (ports E0 ! i) frm = Some (vid, fv)"
      using prog by (auto simp: fwd_progress_def at_pc_def settled_clear)
    have "group_address (src fv)" using group_nth [of "src fv" s0] learn_skip(3,4) ingress_SomeD(2) [OF ing] by simp
    then have "learned_to decode i frm now vid fv E0 = conc_abs c"
      unfolding E by (simp add: learned_to_def learned_def learn_source_def)
    with ing show ?thesis unfolding learn_skip(1) by (simp add: fwd_progress_def settled_def conc_abs_def)
  next
    case (learn_call vid fv now s0 k p)
    then have E: "conc_abs c = received decode i frm E0" and ing: "ingress decode (ports E0 ! i) frm = Some (vid, fv)"
      using prog by (auto simp: fwd_progress_def at_pc_def settled_clear)
    have len: "length (src fv) = 6" by (rule ingress_SomeD(2) [OF ing])
    have "\<not> group_address (src fv)" using group_nth [OF len, of s0] learn_call(3,4) by simp
    moreover have abs: "fdb_abs (tab c) = fdb E0" using arg_cong [OF E, of fdb] by simp
    moreover have "(sw c)\<lparr>fdb := fdb E0\<rparr> = received decode i frm E0" using E abs by (simp add: conc_abs_def)
    moreover have "race_inv (tab c')"
      unfolding learn_call(1) using race fdb_step_inv [OF fdb_step.call_learn [OF learn_call(5)]] by simp
    ultimately show ?thesis
      using ing len learn_call(6,7) idx unfolding learn_call(1)
      by (auto simp: fwd_progress_def learn_progress_def intro!: exI [of _ "tab c"])
  next
    case (learn_run vid fv now f)
    then have at: "pcs c i = FwdLearning vid fv now" "adds c i = []" by (simp_all add: at_pc_def)
    obtain s0 where s0: "fdb_abs s0 = fdb E0" "learn_progress i (macKey_of vid (src fv)) i now s0 (tab c)"
      using prog at by (auto simp: fwd_progress_def)
    have "own_step i (tab c) f"
      using learn_run(1,3,4) moved by (auto simp: own_step_def table_step_def)
    from learn_progress_step [OF this s0(2)] s0(1) prog at show ?thesis
      unfolding learn_run(1) by (auto simp: fwd_progress_def)
  next
    case (learn_return vid fv now)
    then have at: "pcs c i = FwdLearning vid fv now" "adds c i = []" by (simp_all add: at_pc_def)
    obtain s0 where s0: "fdb_abs s0 = fdb E0" "learn_progress i (macKey_of vid (src fv)) i now s0 (tab c)"
      using prog at by (auto simp: fwd_progress_def)
    have "fdb_abs (tab c) = learn_source (fdb E0) vid i fv now"
      using learn_progress_done [OF s0(2) learn_return(3)] s0(1) prog at
      by (simp add: learn_source_def fwd_progress_def)
    moreover have sw: "(sw c)\<lparr>fdb := fdb E0\<rparr> = received decode i frm E0"
      using prog at by (simp add: fwd_progress_def)
    have "(sw c)\<lparr>fdb := t\<rparr> = (received decode i frm E0)\<lparr>fdb := t\<rparr>" for t
      unfolding sw [symmetric] by simp
    ultimately show ?thesis
      using prog at unfolding learn_return(1) by (simp add: fwd_progress_def settled_def conc_abs_def learned_to_fdb)
  next
    case (lookup_skip vid fv now d0)
    then have E: "conc_abs c = learned_to decode i frm now vid fv E0" and ing: "ingress decode (ports E0 ! i) frm = Some (vid, fv)"
      using prog by (auto simp: fwd_progress_def at_pc_def settled_clear)
    have "group_address (dst fv)" using group_nth [of "dst fv" d0] lookup_skip(3,4) ingress_SomeD(1) [OF ing] by simp
    then have "known_port (fdb_abs (tab c)) vid fv now = None" by (simp add: known_port_def)
    with E ing show ?thesis unfolding lookup_skip(1)
      by (auto simp: fwd_progress_def settled_def conc_abs_def Let_def)
  next
    case (lookup_call vid fv now d0)
    then have E: "conc_abs c = learned_to decode i frm now vid fv E0" and ing: "ingress decode (ports E0 ! i) frm = Some (vid, fv)"
      using prog by (auto simp: fwd_progress_def at_pc_def settled_clear)
    have len: "length (dst fv) = 6" by (rule ingress_SomeD(1) [OF ing])
    have "\<not> group_address (dst fv)" using group_nth [OF len, of d0] lookup_call(3,4) by simp
    moreover have "settled i c' = conc_abs c" unfolding lookup_call(1) by (simp add: settled_def conc_abs_def)
    ultimately show ?thesis
      using ing len E arg_cong [OF E, of fdb] unfolding lookup_call(1)
      by (auto simp: fwd_progress_def lookup_progress_def Let_def intro!: exI [of _ now] exI [of _ "tab c"])
  next
    case (lookup_run vid fv f)
    then have at: "pcs c i = FwdLooking vid fv" "adds c i = []" by (simp_all add: at_pc_def)
    obtain now s0 where s0: "conc_abs c = learned_to decode i frm now vid fv E0" "fdb_abs s0 = fdb_abs (tab c)"
      "lookup_progress i (macKey_of vid (dst fv)) now s0 (tab c)"
      using prog at by (auto simp: fwd_progress_def settled_clear)
    have "own_step i (tab c) f"
      using lookup_run(1,3,4) moved by (auto simp: own_step_def table_step_def)
    from lookup_progress_step [OF this s0(3)] have p: "lookup_progress i (macKey_of vid (dst fv)) now s0 f" .
    have abs: "fdb_abs f = fdb_abs (tab c)" using p s0(3) by (simp add: fdb_abs_def lookup_progress_def)
    then have "settled i c' = conc_abs c" unfolding lookup_run(1) by (simp add: settled_def at conc_abs_def)
    with p abs s0 prog at show ?thesis
      unfolding lookup_run(1) by (auto simp: fwd_progress_def intro!: exI [of _ now] exI [of _ s0])
  next
    case (lookup_miss vid fv k)
    from looking_result [OF prog this(2,3)] have "settled i c' = conc_abs c"
      unfolding lookup_miss(1) by (simp add: settled_def conc_abs_def)
    with looking_result [OF prog lookup_miss(2,3)] show ?thesis
      unfolding lookup_miss(1) by (auto simp: fwd_progress_def Let_def)
  next
    case (lookup_self vid fv k out)
    obtain now where now: "conc_abs c = learned_to decode i frm now vid fv E0" "known_port (fdb (conc_abs c)) vid fv now = Some out"
      and ing: "ingress decode (ports E0 ! i) frm = Some (vid, fv)"
      using looking_result [OF prog lookup_self(2,3)] by blast
    have "forward decode ser ops i frm now E0 = Some (conc_abs c)"
      using forward_accepted [OF wf i ing] lookup_self(4) idx now
      by (simp add: learned_to_def destinations_def learned_sel)
    then show ?thesis unfolding lookup_self(1) by (auto simp: fwd_progress_def settled_def conc_abs_def)
  next
    case (lookup_hit vid fv k out)
    obtain now where now: "conc_abs c = learned_to decode i frm now vid fv E0" "known_port (fdb (conc_abs c)) vid fv now = Some out"
      and ing: "ingress decode (ports E0 ! i) frm = Some (vid, fv)"
      using looking_result [OF prog lookup_hit(2,3)] by blast
    have "forward decode ser ops i frm now E0 = foldM (\<lambda>j. emit ser ops j fv vid) [out] (conc_abs c)"
      using forward_accepted [OF wf i ing] lookup_hit(4) idx now
      by (simp add: learned_to_def destinations_def learned_sel)
    moreover have "out \<noteq> i" using lookup_hit(4) idx by simp
    moreover have "settled i c' = conc_abs c" unfolding lookup_hit(1) by (simp add: settled_def conc_abs_def)
    ultimately show ?thesis unfolding lookup_hit(1) by (auto simp: fwd_progress_def)
  next
    case (flood vid fv)
    then have at: "pcs c i = FwdFlood vid fv" "adds c i = []" by (simp_all add: at_pc_def)
    obtain now where E1: "conc_abs c = learned_to decode i frm now vid fv E0"
      and none: "known_port (fdb_abs (tab c)) vid fv now = None" and ing: "ingress decode (ports E0 ! i) frm = Some (vid, fv)"
      using prog at by (auto simp: fwd_progress_def settled_clear)
    note E = E1 none [folded conc_abs_sel(2), unfolded E1]
    have "destinations E0 i vid fv now = filter (\<lambda>j. j \<noteq> i) (members E0 vid)"
      using E by (simp add: destinations_def filter_members [OF wf] learned_to_def)
    moreover have "settled i c' = upd_port i count_flood (conc_abs c)"
      unfolding flood(1) settled_def by (simp add: settle_flood [simplified] conc_abs_def)
    ultimately show ?thesis
      using forward_accepted [OF wf i ing, of ser ops now] E mem unfolding flood(1)
      by (auto simp: fwd_progress_def learned_to_def intro!: exI [of _ now])
  next
    case (out_skip vid fv j js)
    then show ?thesis using prog idx by (auto simp: fwd_progress_def at_pc_def settled_def conc_abs_def)
  next
    case (out_panic vid fv j js)
    then show ?thesis using ok same by (auto simp: at_pc_def in_vlan_def len)
  next
    case (out_write vid fv j js q pkt okw h)
    then have at: "pcs c i = FwdOut vid fv (j # js)" "adds c i = []" by (simp_all add: at_pc_def)
    then obtain now where now: "forward decode ser ops i frm now E0 =
        foldM (\<lambda>j. emit ser ops j fv vid) (filter (\<lambda>j. j \<noteq> i) (j # js)) (conc_abs c)"
      using prog by (auto simp: fwd_progress_def settled_clear)
    have j: "j \<noteq> i" "j < length (ports (conc_abs c))" "q = ports (conc_abs c) ! j" using out_write(3,4) idx by auto
    have "settled i c' = upd_port j (if okw then count_tx pkt else count_txDrop) (write_port j pkt okw h (conc_abs c))"
      unfolding out_write(1) settled_eq
      by (simp add: settle_tx conc_abs_def write_port_fdb upd_port_fdb)
    then have "emit ser ops j fv vid (conc_abs c) = Some (settled i c')"
      using emit_write [OF j(2), of pkt ser fv vid ops okw h] out_write(5,6) j(3) by simp
    with now j(1) show ?thesis unfolding out_write(1) by (auto simp: fwd_progress_def)
  next
    case (out_end vid fv)
    then show ?thesis using prog by (auto simp: fwd_progress_def at_pc_def settled_def conc_abs_def)
  next
    case (others f)
    with i show ?thesis by (simp add: len)
  qed (use moved in simp_all)
qed

section \<open>A frame left alone is handled\<close>

text \<open>A bound on the steps goroutine \<open>i\<close> has still to make.\<close>

fun pc_rank :: "nat \<Rightarrow> nat \<Rightarrow> fwd_pc \<Rightarrow> nat" where
  "pc_rank n r FwdIdle = 0"
| "pc_rank n r (FwdDecode frm) = 4 * n + 42"
| "pc_rank n r (FwdLearn vid fv now) = 4 * n + 40"
| "pc_rank n r (FwdLearning vid fv now) = 4 * n + 21 + r"
| "pc_rank n r (FwdLookup vid fv now) = 4 * n + 20"
| "pc_rank n r (FwdLooking vid fv) = 4 * n + 10 + r"
| "pc_rank n r (FwdFlood vid fv) = 4 * n + 6"
| "pc_rank n r (FwdOut vid fv js) = 4 * length js + 2"
| "pc_rank n r FwdPanic = 0"

definition fwd_rank :: "nat \<Rightarrow> nat \<Rightarrow> 'h conc \<Rightarrow> nat" where
  "fwd_rank n i c = pc_rank n (rank (tab c) (threads (tab c) i)) (pcs c i) + length (adds c i)"

lemma length_members: "engine_wf e \<Longrightarrow> length (members e v) \<le> length (ports e)"
  by (simp add: engine_wf_members) (metis length_filter_le length_upt minus_nat.diff_0)

lemma fwd_own_rank:
  assumes wf: "engine_wf e0" and sc: "same_config e0 (sw c)" and i: "i < length (ports e0)"
    and ok: "pc_ok e0 i (threads (tab c) i) (pcs c i)" and own: "fwd_own decode ser ops i c c'"
  shows "fwd_rank (length (ports e0)) i c' < fwd_rank (length (ports e0)) i c"
proof -
  have len: "length (ports (sw c)) = length (ports e0)" by (rule same_config_length [OF sc])
  have mem: "length (members (sw c) v) \<le> length (ports e0)" for v
    using length_members [OF wf, of v] sc by (simp add: members_def same_config_def)
  have step: "conc_step decode ser ops i c c'" and act: "busy c i"
    and moved: "pcs c' i \<noteq> pcs c i \<or> adds c' i \<noteq> adds c i \<or> threads (tab c') i \<noteq> threads (tab c) i"
    using own by (simp_all add: fwd_own_def)
  from step show ?thesis
  proof cases
    case (flood vid fv)
    then show ?thesis using mem [of vid] by (simp add: fwd_rank_def at_pc_def)
  next
    case (learn_run vid fv now f)
    then have "own_step i (tab c) f" using moved by (auto simp: own_step_def table_step_def)
    with learn_run show ?thesis using own_step_rank by (fastforce simp: fwd_rank_def at_pc_def)
  next
    case (lookup_run vid fv f)
    then have "own_step i (tab c) f" using moved by (auto simp: own_step_def table_step_def)
    with lookup_run show ?thesis using own_step_rank by (fastforce simp: fwd_rank_def at_pc_def)
  qed (use i ok act moved in \<open>auto simp: fwd_rank_def at_pc_def busy_def len\<close>)
qed

text \<open>It can always move, unless someone else holds the lock of the table.\<close>

definition moves :: "decoder \<Rightarrow> serializer \<Rightarrow> 'h PacketIO \<Rightarrow> nat \<Rightarrow> 'h conc \<Rightarrow> bool" where
  "moves decode ser ops i c \<longleftrightarrow> (\<exists>c'. conc_step decode ser ops i c c' \<and> snaps c' = snaps c \<and>
     (pcs c' i \<noteq> pcs c i \<or> adds c' i \<noteq> adds c i \<or> threads (tab c') i \<noteq> threads (tab c) i))"

lemma movesI:
  "conc_step decode ser ops i c c' \<Longrightarrow> snaps c' = snaps c \<Longrightarrow>
     pcs c' i \<noteq> pcs c i \<or> adds c' i \<noteq> adds c i \<or> threads (tab c') i \<noteq> threads (tab c) i \<Longrightarrow> moves decode ser ops i c"
  unfolding moves_def by blast

lemma table_moves:
  assumes reach: "conc_reach decode ser ops e0 c" and run: "\<not> finished (threads (tab c) i)"
    and free: "writer (tab c) = None \<or> writer (tab c) = Some i" and quiet: "\<forall>r. \<not> snapping (snaps c r)"
  shows "\<exists>f. table_step i c f \<and> threads f i \<noteq> threads (tab c) i"
proof -
  have "blocks (threads (tab c) i) \<longrightarrow> writer (tab c) = None"
    using free conc_reach_race_inv [OF reach] critical_not_blocked by (auto simp: race_inv_def lock_ok_def)
  from own_step_exists [OF conc_reach_table [OF reach] run this] show ?thesis
    using quiet by (auto simp: own_step_def table_step_def)
qed

lemma moves_decode:
  assumes at: "at_pc c i (FwdDecode frm)"
  shows "moves decode ser ops i c"
proof (cases "accept_frame decode (ports (sw c) ! i) frm")
  case None
  show ?thesis by (rule movesI [OF conc_step.drop [OF at None]]) (use at in \<open>simp_all add: at_pc_def\<close>)
next
  case (Some a)
  obtain vid fv where "accept_frame decode (ports (sw c) ! i) frm = Some (vid, fv)" using Some by (cases a) auto
  then show ?thesis by (rule movesI [OF conc_step.accept [OF at, where now = 0]]) (use at in \<open>simp_all add: at_pc_def\<close>)
qed

lemma moves_learn:
  assumes at: "at_pc c i (FwdLearn vid fv now)" and "finished (threads (tab c) i)" and "length (src fv) = 6"
  shows "moves decode ser ops i c"
proof (cases "and (hd (src fv)) 1 = 0")
  case True
  show ?thesis by (rule movesI [OF conc_step.learn_call [OF at nth_opt_0_hd [OF assms(3)] True assms(2) refl refl]])
      (use at in \<open>simp_all add: at_pc_def\<close>)
next
  case False
  show ?thesis by (rule movesI [OF conc_step.learn_skip [OF at nth_opt_0_hd [OF assms(3)] False]])
      (use at in \<open>simp_all add: at_pc_def\<close>)
qed

lemma moves_lookup:
  assumes at: "at_pc c i (FwdLookup vid fv now)" and "finished (threads (tab c) i)" and "length (dst fv) = 6"
  shows "moves decode ser ops i c"
proof (cases "and (hd (dst fv)) 1 = 0")
  case True
  show ?thesis by (rule movesI [OF conc_step.lookup_call [OF at nth_opt_0_hd [OF assms(3)] True assms(2)]])
      (use at in \<open>simp_all add: at_pc_def\<close>)
next
  case False
  show ?thesis by (rule movesI [OF conc_step.lookup_skip [OF at nth_opt_0_hd [OF assms(3)] False]])
      (use at in \<open>simp_all add: at_pc_def\<close>)
qed

lemma moves_looked_up:
  assumes at: "at_pc c i (FwdLooking vid fv)" and r: "threads (tab c) i = LookupDone k r"
  shows "moves decode ser ops i c"
proof (cases r)
  case None
  show ?thesis by (rule movesI [OF conc_step.lookup_miss [OF at r [unfolded None]]]) (use at in \<open>simp_all add: at_pc_def\<close>)
next
  case (Some out)
  note r = r [unfolded Some]
  show ?thesis
  proof (cases "out = idx (ports (sw c) ! i)")
    case True
    show ?thesis by (rule movesI [OF conc_step.lookup_self [OF at r True]]) (use at in \<open>simp_all add: at_pc_def\<close>)
  next
    case False
    show ?thesis by (rule movesI [OF conc_step.lookup_hit [OF at r False]]) (use at in \<open>simp_all add: at_pc_def\<close>)
  qed
qed

lemma moves_out:
  assumes at: "at_pc c i (FwdOut vid fv js)" and js: "\<forall>j \<in> set js. j < length (ports (sw c))"
  shows "moves decode ser ops i c"
proof (cases js)
  case Nil
  show ?thesis by (rule movesI [OF conc_step.out_end [OF at [unfolded Nil]]]) (use at in \<open>simp_all add: at_pc_def\<close>)
next
  case (Cons j js')
  note at' = at [unfolded Cons]
  have q: "nth_opt (ports (sw c)) j = Some (ports (sw c) ! j)" using js Cons by simp
  obtain okw h where w: "WritePacketData ops (io (ports (sw c) ! j))
      (egress_frame ser (role (ports (sw c) ! j)) fv vid) = (okw, h)" by fastforce
  show ?thesis
  proof (cases "j = idx (ports (sw c) ! i)")
    case True
    show ?thesis by (rule movesI [OF conc_step.out_skip [OF at' True]]) (use at' in \<open>simp_all add: at_pc_def\<close>)
  next
    case False
    show ?thesis by (rule movesI [OF conc_step.out_write [OF at' False q refl w]]) (use at' in \<open>simp_all add: at_pc_def\<close>)
  qed
qed

lemma fwd_own_exists:
  assumes wf: "engine_wf e0" and reach: "conc_reach decode ser ops e0 c" and i: "i < length (ports e0)"
    and act: "busy c i" and free: "writer (tab c) = None \<or> writer (tab c) = Some i" and quiet: "\<forall>r. \<not> snapping (snaps c r)"
  shows "\<exists>c'. fwd_own decode ser ops i c c'"
proof -
  have len: "length (ports (sw c)) = length (ports e0)" using same_config_length [OF conc_reach_config [OF reach]] .
  have ok: "pc_ok e0 i (threads (tab c) i) (pcs c i)" using conc_reach_inv [OF wf reach] i by (simp add: conc_inv_def)
  note run = table_moves [OF reach _ free quiet]
  have "moves decode ser ops i c"
  proof (cases "adds c i")
    case (Cons a as)
    show ?thesis by (rule movesI [OF conc_step.add [OF _ Cons]]) (simp_all add: i len Cons)
  next
    case Nil
    have at: "at_pc c i (pcs c i)" using i len Nil by (simp add: at_pc_def)
    show ?thesis
    proof (cases "pcs c i")
      case (FwdLearning vid fv now)
      note at = at [unfolded FwdLearning]
      show ?thesis
      proof (cases "finished (threads (tab c) i)")
        case True
        show ?thesis by (rule movesI [OF conc_step.learn_return [OF at True]]) (use at in \<open>simp_all add: at_pc_def\<close>)
      next
        case False
        with run obtain f where "table_step i c f" "threads f i \<noteq> threads (tab c) i" by blast
        then show ?thesis by (intro movesI [OF conc_step.learn_run [OF at False]]) simp_all
      qed
    next
      case (FwdLooking vid fv)
      note at = at [unfolded FwdLooking]
      show ?thesis
      proof (cases "finished (threads (tab c) i)")
        case True
        then obtain k r where "threads (tab c) i = LookupDone k r" using ok FwdLooking finished_lookup by fastforce
        then show ?thesis by (rule moves_looked_up [OF at])
      next
        case False
        with run obtain f where "table_step i c f" "threads f i \<noteq> threads (tab c) i" by blast
        then show ?thesis by (intro movesI [OF conc_step.lookup_run [OF at False]]) simp_all
      qed
    next
      case (FwdFlood vid fv)
      show ?thesis by (rule movesI [OF conc_step.flood [OF at [unfolded FwdFlood]]]) (simp_all add: FwdFlood)
    qed (use at ok act Nil in \<open>auto simp: busy_def in_vlan_def len intro: moves_decode moves_learn moves_lookup moves_out\<close>)
  qed
  with act i len show ?thesis by (auto simp: moves_def fwd_own_def)
qed

lemma fwd_own_keeps:
  assumes reach: "conc_reach decode ser ops e0 c" and own: "fwd_own decode ser ops i c c'"
    and free: "writer (tab c) = None \<or> writer (tab c) = Some i" and quiet: "\<forall>r. \<not> snapping (snaps c r)"
  shows "conc_reach decode ser ops e0 c'" and "writer (tab c') = None \<or> writer (tab c') = Some i"
    and "\<forall>r. \<not> snapping (snaps c' r)"
proof -
  have step: "conc_step decode ser ops i c c'" and snaps: "snaps c' = snaps c"
    using own by (simp_all add: fwd_own_def)
  from reach step show "conc_reach decode ser ops e0 c'" by (rule conc_reach.step)
  show "\<forall>r. \<not> snapping (snaps c' r)" using quiet snaps by simp
  from step show "writer (tab c') = None \<or> writer (tab c') = Some i"
    by cases (use free fdb_step_writer [OF table_step_fdb] in \<open>fastforce+\<close>)
qed

text \<open>The run of a goroutine that is left alone ends.\<close>

lemma fwd_run_ends:
  assumes wf: "engine_wf e0" and i: "i < length (ports e0)"
  shows "conc_reach decode ser ops e0 c \<Longrightarrow> writer (tab c) = None \<or> writer (tab c) = Some i \<Longrightarrow>
     \<forall>r. \<not> snapping (snaps c r) \<Longrightarrow> \<exists>c'. (fwd_own decode ser ops i)\<^sup>*\<^sup>* c c' \<and> \<not> busy c' i"
proof (induction "fwd_rank (length (ports e0)) i c" arbitrary: c rule: less_induct)
  case less
  show ?case
  proof (cases "busy c i")
    case True
    obtain c1 where own: "fwd_own decode ser ops i c c1"
      using fwd_own_exists [OF wf less.prems(1) i True less.prems(2,3)] by blast
    have "pc_ok e0 i (threads (tab c) i) (pcs c i)" using conc_reach_inv [OF wf less.prems(1)] i by (simp add: conc_inv_def)
    then have "fwd_rank (length (ports e0)) i c1 < fwd_rank (length (ports e0)) i c"
      by (rule fwd_own_rank [OF wf conc_reach_config [OF less.prems(1)] i _ own])
    from less.hyps [OF this fwd_own_keeps [OF less.prems(1) own less.prems(2,3)]] own show ?thesis
      by (blast intro: converse_rtranclp_into_rtranclp)
  qed blast
qed

lemma fwd_run_progress:
  assumes wf: "engine_wf e0" and i: "i < length (ports e0)" and c0: "conc_reach decode ser ops e0 c0"
    and run: "(fwd_own decode ser ops i)\<^sup>*\<^sup>* c c'"
  shows "conc_reach decode ser ops e0 c \<Longrightarrow> fwd_progress decode ser ops i frm (conc_abs c0) c \<Longrightarrow>
     fwd_progress decode ser ops i frm (conc_abs c0) c' \<and> conc_reach decode ser ops e0 c'"
  using run
proof (induction rule: rtranclp_induct)
  case (step c1 c2)
  then have r: "conc_reach decode ser ops e0 c1" and p: "fwd_progress decode ser ops i frm (conc_abs c0) c1" by auto
  note wf0 = conc_reach_abs_wf [OF wf c0]
  have sc: "same_config (conc_abs c0) (sw c1)"
    using conc_reach_config [OF r] wf0(2) by (simp add: same_config_def)
  have "pc_ok e0 i (threads (tab c1) i) (pcs c1 i)" using conc_reach_inv [OF wf r] i by (simp add: conc_inv_def)
  moreover have "i < length (ports (conc_abs c0))" using same_config_length [OF wf0(2)] i by simp
  ultimately have "fwd_progress decode ser ops i frm (conc_abs c0) c2"
    using fwd_progress_step [OF wf0(1) sc _ _ _ conc_reach_race_inv [OF r] p step(2)] same_config_length [OF wf0(2)] by metis
  moreover have "conc_reach decode ser ops e0 c2" using r step(2) by (auto simp: fwd_own_def intro: conc_reach.step)
  ultimately show ?case by blast
qed simp

lemma start_frame_reach:
  assumes "conc_reach decode ser ops e0 c" and "i < length (ports e0)" and "\<not> busy c i"
  shows "conc_reach decode ser ops e0 (start_frame i frm c)"
proof -
  have "at_pc c i FwdIdle"
    using assms same_config_length [OF conc_reach_config [OF assms(1)]] by (simp add: at_pc_def busy_def)
  from conc_reach.step [OF assms(1) conc_step.receive [OF this]] show ?thesis unfolding start_frame_def .
qed

lemma start_frame_sel [simp]:
  "tab (start_frame i frm c) = tab c" "snaps (start_frame i frm c) = snaps c" "sw (start_frame i frm c) = sw c"
  "pcs (start_frame i frm c) i = FwdDecode frm" "events (start_frame i frm c) = Received i frm # events c"
  by (simp_all add: start_frame_def)

lemma start_frame_progress: "fwd_progress decode ser ops i frm (conc_abs c) (start_frame i frm c)"
  using settle_rx [of i frm "conc_abs c"]
  by (simp add: fwd_progress_def settled_def) (simp add: start_frame_def conc_abs_def)

end
