(* ===== verification/Codec.thy ===== *)
theory Codec
  imports Packet
begin

text \<open>
  A frame codec in the layout of IEEE 802.3 and 802.1Q: six bytes of destination, six of source, a
  big-endian EtherType; a tag is two bytes of priority and VLAN identifier and two of EtherType; a
  frame is padded to 60 bytes. It is an instance of the contract \<open>frame_codec\<close>, which shows that the
  contract can be met, and the codec on which the witnesses of the development run.
\<close>

unbundle bit_operations_syntax

definition be16 :: "u16 \<Rightarrow> byte list" where
  "be16 w = [ucast (drop_bit 8 w), ucast w]"

definition un16 :: "byte \<Rightarrow> byte \<Rightarrow> u16" where
  "un16 a b = push_bit 8 (ucast a) OR ucast b"

definition wire_decode :: decoder where
  "wire_decode fp b =
     (if length b < 14 then fp\<lparr>dec := []\<rparr>
      else
        (let t = un16 (b ! 12) (b ! 13); r = drop 14 b;
             fp1 = fp\<lparr>eth := \<lparr>SrcMAC = take 6 (drop 6 b), DstMAC = take 6 b, EthernetType = t, eth_Payload = r\<rparr>,
                      dec := [LayerTypeEthernet]\<rparr>
         in if t = EthernetTypeDot1Q \<and> 4 \<le> length r then
              fp1\<lparr>dot1q := \<lparr>VLANIdentifier = un16 (r ! 0) (r ! 1) AND 0xFFF, Dot1Q_Type = un16 (r ! 2) (r ! 3),
                           dot1q_Payload = drop 4 r\<rparr>,
                  dec := [LayerTypeEthernet, LayerTypeDot1Q]\<rparr>
            else fp1))"

fun wire_layers :: "ser_layer list \<Rightarrow> frame" where
  "wire_layers [] = []"
| "wire_layers (SerPayload p # ls) = p @ wire_layers ls"
| "wire_layers (SerDot1Q d # ls) = be16 (VLANIdentifier d) @ be16 (Dot1Q_Type d) @ wire_layers ls"
| "wire_layers (SerEthernet e # ls) =
     (let b = DstMAC e @ SrcMAC e @ be16 (EthernetType e) @ wire_layers ls
      in b @ replicate (60 - length b) 0)"

definition wire_ser :: serializer where
  "wire_ser fixLengths ls = wire_layers ls"

definition wire_vlan_type :: "u16 \<Rightarrow> bool" where
  "wire_vlan_type t \<longleftrightarrow> t = EthernetTypeDot1Q"

lemma un16_be16 [simp]: "un16 (ucast (drop_bit 8 w)) (ucast w) = w"
  unfolding un16_def
  by (rule bit_word_eqI) (auto simp: bit_simps)

lemma vid_mask: "v AND 0xFFF = v" if "v < 0x1000" for v :: u16
proof -
  have "uint v < 2 ^ 12" using that by (simp add: word_less_def)
  then have "v AND mask 12 = v" by (simp only: mask_eq_iff)
  then show ?thesis by (simp add: mask_eq_exp_minus_1)
qed

lemma nth_dst_src:
  assumes "length d = 6" and "length s = 6"
  shows "take 6 (d @ s @ r) = d" "take 6 (drop 6 (d @ s @ r)) = s" "drop 14 (d @ s @ a # b # r) = r"
    "(d @ s @ a # b # r) ! 12 = a" "(d @ s @ a # b # r) ! 13 = b"
  using assms by (simp_all add: nth_append)

interpretation wire: frame_codec wire_decode wire_ser wire_vlan_type
proof unfold_locales
  fix d s :: mac and v t :: u16 and pl :: "byte list" and b fp
  assume len: "length d = 6" "length s = 6" and v: "v < 0x1000"
    and b: "b = wire_ser True
        [SerEthernet \<lparr>SrcMAC = s, DstMAC = d, EthernetType = EthernetTypeDot1Q, eth_Payload = []\<rparr>,
         SerDot1Q \<lparr>VLANIdentifier = v, Dot1Q_Type = t, dot1q_Payload = []\<rparr>, SerPayload pl]"
  obtain z where z: "b = d @ s @ be16 EthernetTypeDot1Q @ be16 v @ be16 t @ pl @ z"
    by (simp add: b wire_ser_def Let_def)
  show "decoded_tagged (wire_decode fp b) d s v \<and> Dot1Q_Type (dot1q (wire_decode fp b)) = t \<and>
     take (length pl) (dot1q_Payload (dot1q (wire_decode fp b))) = pl"
    using len v by (simp add: z be16_def wire_decode_def decoded_tagged_def Let_def nth_dst_src vid_mask
        del: drop_append)
next
  fix d s :: mac and t :: u16 and pl :: "byte list" and b fp
  assume len: "length d = 6" "length s = 6" and t: "\<not> wire_vlan_type t"
    and b: "b = wire_ser True
        [SerEthernet \<lparr>SrcMAC = s, DstMAC = d, EthernetType = t, eth_Payload = []\<rparr>, SerPayload pl]"
  obtain z where z: "b = d @ s @ be16 t @ pl @ z"
    by (simp add: b wire_ser_def Let_def)
  show "decoded_untagged (wire_decode fp b) d s \<and> EthernetType (eth (wire_decode fp b)) = t \<and>
     take (length pl) (eth_Payload (eth (wire_decode fp b))) = pl"
    using len t by (simp add: z be16_def wire_decode_def decoded_untagged_def Let_def nth_dst_src
        wire_vlan_type_def del: drop_append)
qed (auto simp: wire_decode_def Let_def split: if_splits)

end
