(* ===== verification/Switch.thy ===== *)
theory Switch
  imports Forwarding Codec
begin

text \<open>
  What the engine promises as a switch, each property derived from \<open>forward_refines\<close>: isolation of
  VLANs and split horizon, known unicast, flooding, learning and ageing across two frames, tag
  handling on egress, counters that agree with the wire, and whole runs of an engine from its
  construction.
\<close>

section \<open>An engine and a transport for the witnesses\<close>

text \<open>
  A handle that records what is written to it and refuses a frame over 1514 bytes, as a
  kernel does with \<open>EMSGSIZE\<close> on a 1500-byte MTU.
\<close>

definition mtu_io :: "frame list PacketIO" where
  "mtu_io = \<lparr>ReadPacketData = (\<lambda>h. (ReadTimeout, h)),
             WritePacketData = (\<lambda>h pkt. if length pkt \<le> 1514 then (True, h @ [pkt]) else (False, h)),
             CloseIO = (\<lambda>h. h)\<rparr>"

definition station :: "byte \<Rightarrow> mac" where
  "station n = [2, 0, 0, 0, 0, n]"

definition broadcast :: mac where
  "broadcast = replicate 6 255"

definition plain_frame :: "mac \<Rightarrow> mac \<Rightarrow> frame" where
  "plain_frame d s = d @ s @ [0x88, 0xB5] @ replicate 46 0"

definition tagged_frame :: "mac \<Rightarrow> mac \<Rightarrow> byte \<Rightarrow> frame" where
  "tagged_frame d s v = d @ s @ [0x81, 0, 0, v, 0x88, 0xB5] @ replicate 46 0"

definition plain_engine :: "frame list engine" where
  "plain_engine = built example_plain_cfg [[], [], []]"

definition vlan_engine :: "frame list engine" where
  "vlan_engine = built example_vlan_cfg [[], [], [], [], []]"

lemma example_engines [simp]:
  "engine_wf plain_engine" "engine_wf vlan_engine"
  "length (ports plain_engine) = 3" "length (ports vlan_engine) = 5"
  by (simp_all add: plain_engine_def vlan_engine_def engine_wf_built acceptable_examples)
    (simp_all add: built_def)

lemma example_ingress:
  "ingress wire_decode (ports plain_engine ! 0) (plain_frame (station 2) (station 1)) =
     Some (0, \<lparr>dst = station 2, src = station 1, hasTag = False, tagVID = 0, innerType = 0x88B5,
               payload = replicate 46 0, raw = plain_frame (station 2) (station 1)\<rparr>)"
  by code_simp

lemma example_ingress_vlan:
  "ingress wire_decode (ports vlan_engine ! 3) (tagged_frame broadcast (station 4) 10) =
     Some (10, \<lparr>dst = broadcast, src = station 4, hasTag = True, tagVID = 10, innerType = 0x88B5,
               payload = replicate 46 0, raw = tagged_frame broadcast (station 4) 10\<rparr>)"
  by code_simp

lemma example_destinations:
  "destinations vlan_engine 3 10 \<lparr>dst = broadcast, src = station 4, hasTag = True, tagVID = 10, innerType = 0x88B5,
               payload = replicate 46 0, raw = tagged_frame broadcast (station 4) 10\<rparr> 7 = [0, 1, 4]"
  by code_simp

section \<open>Isolation\<close>

lemma forward_index: "forward decode ser ops i frm now e = Some e' \<Longrightarrow> i < length (ports e)"
  by (auto simp: forward_def nth_opt_def split: if_splits)

lemma map_fst_untimed: "map fst ws = map fst (untimed ws)"
  by (auto simp: untimed_def split: prod.split)

lemma map_fst_wire_frames [simp]: "map fst (wire_frames ser e fv vid outs) = outs"
  by (simp add: wire_frames_def comp_def)

text \<open>The form in which the properties below use the refinement.\<close>

lemma forward_Some_cases:
  assumes wf: "engine_wf e" and fwd: "forward decode ser ops i frm now e = Some e'"
  obtains (dropped) "ingress decode (ports e ! i) frm = None" "wire e' = wire e" "fdb e' = fdb e"
      "engine_wf e'" "same_config e e'"
  | (accepted) vid fv ws where "ingress decode (ports e ! i) frm = Some (vid, fv)"
      "wire e' = wire e @ ws" "untimed ws = wire_frames ser e fv vid (destinations e i vid fv now)"
      "fdb e' = learn_source (fdb e) vid i fv now" "engine_wf e'" "same_config e e'"
proof -
  from forward_step [OF wf forward_index [OF fwd], of decode ser ops frm now] fwd
  obtain ws where r: "engine_wf e'" "same_config e e'" "wire e' = wire e @ ws"
    "case ingress decode (ports e ! i) frm of
        None \<Rightarrow> ws = [] \<and> fdb e' = fdb e
      | Some (vid, fv) \<Rightarrow> fdb e' = learn_source (fdb e) vid i fv now \<and>
          untimed ws = wire_frames ser e fv vid (destinations e i vid fv now)"
    by auto
  show thesis
  proof (cases "ingress decode (ports e ! i) frm")
    case None
    with r show thesis by (intro dropped) auto
  next
    case (Some a)
    then obtain vid fv where "ingress decode (ports e ! i) frm = Some (vid, fv)" by (cases a) auto
    with r show thesis by (intro accepted [of vid fv ws]) auto
  qed
qed

text \<open>
  C1: One received frame. On a well-formed engine \<open>forward\<close> never panics and keeps the invariant.
  A dropped frame is written nowhere and teaches nothing; an accepted one teaches exactly its
  source address and is written, once each and in port order, to the ports \<open>destinations\<close> names,
  in the tag form of the port's role.
\<close>

theorem forward_refines:
  assumes wf: "engine_wf e" and i: "i < length (ports e)"
  shows "\<exists>e' ws. forward decode ser ops i frm now e = Some e' \<and> engine_wf e' \<and> same_config e e' \<and>
     wire e' = wire e @ ws \<and>
     (case ingress decode (ports e ! i) frm of
        None \<Rightarrow> ws = [] \<and> fdb e' = fdb e
      | Some (vid, fv) \<Rightarrow>
          fdb e' = learn_source (fdb e) vid i fv now \<and>
          untimed ws = wire_frames ser e fv vid (destinations e i vid fv now))"
  by (rule forward_step [OF wf i])

theorem forward_refines_witness:
  "\<exists>e' ws. forward wire_decode wire_ser mtu_io 3 (tagged_frame broadcast (station 4) 10) 7 vlan_engine = Some e' \<and>
     engine_wf e' \<and> wire e' = wire vlan_engine @ ws \<and> map fst ws = [0, 1, 4]"
  using forward_refines [of vlan_engine 3 wire_decode wire_ser mtu_io "tagged_frame broadcast (station 4) 10" 7]
    example_ingress_vlan example_destinations
  by (auto simp: map_fst_untimed map_fst_wire_frames)

text \<open>
  C2: VLAN isolation and split horizon. Whatever a frame received on port i makes the engine write
  goes to ports other than i, to no port twice, and only to ports that belong to a VLAN of which
  port i is a member too, the VLAN the frame was classified to.
\<close>

theorem forward_isolated:
  assumes "engine_wf e" and "forward decode ser ops i frm now e = Some e'"
  shows "\<exists>ws. wire e' = wire e @ ws \<and> distinct (map fst ws) \<and>
     (\<forall>w \<in> set ws. fst w \<noteq> i \<and> (\<exists>vid fv. ingress decode (ports e ! i) frm = Some (vid, fv) \<and>
        in_vlan e vid i \<and> in_vlan e vid (fst w)))"
  using assms
proof (cases rule: forward_Some_cases)
  case dropped
  then show ?thesis by simp
next
  case (accepted vid fv ws)
  have mem: "in_vlan e vid i"
    using forward_index [OF assms(2)] accepted(1) by (rule ingress_in_vlan)
  have fst: "map fst ws = destinations e i vid fv now"
    by (simp only: map_fst_untimed accepted(3) map_fst_wire_frames)
  have "in_vlan e vid (fst w) \<and> fst w \<noteq> i" if "w \<in> set ws" for w
  proof -
    have "fst w \<in> set (destinations e i vid fv now)" using that by (simp flip: fst)
    then show ?thesis using destinations_in_vlan [OF assms(1) mem] by blast
  qed
  with accepted mem show ?thesis
    by (intro exI [of _ ws]) (simp add: fst distinct_destinations)
qed

theorem forward_isolated_witness:
  "\<exists>e'. forward wire_decode wire_ser mtu_io 3 (tagged_frame broadcast (station 4) 10) 7 vlan_engine = Some e' \<and>
     (\<exists>ws. wire e' = wire vlan_engine @ ws \<and> distinct (map fst ws) \<and>
       (\<forall>w \<in> set ws. fst w \<noteq> 3 \<and>
          (\<exists>vid fv. ingress wire_decode (ports vlan_engine ! 3) (tagged_frame broadcast (station 4) 10) = Some (vid, fv) \<and>
             in_vlan vlan_engine vid 3 \<and> in_vlan vlan_engine vid (fst w))))"
proof -
  obtain e' where e': "forward wire_decode wire_ser mtu_io 3 (tagged_frame broadcast (station 4) 10) 7 vlan_engine = Some e'"
    using forward_step [of vlan_engine 3] by fastforce
  show ?thesis
    by (intro exI [of _ e'] conjI e' forward_isolated [OF _ e']) simp
qed

section \<open>Ingress counters\<close>

definition ingress_counters :: "'h port \<Rightarrow> u64 \<times> u64 \<times> u64 \<times> u64" where
  "ingress_counters p = (rxFrames (stats p), rxBytes (stats p), flooded (stats p), forwardDrop (stats p))"

lemma map_ports_upd: "(\<And>p. f (g p) = f p) \<Longrightarrow> map f (ports (upd_port i g e)) = map f (ports e)"
  by (simp add: upd_port_def map_update_same)

lemma ingress_counters_frame [frame_simps]:
  "ingress_counters (count_tx pkt p) = ingress_counters p"
  "ingress_counters (count_txDrop p) = ingress_counters p"
  "ingress_counters (p\<lparr>io := h\<rparr>) = ingress_counters p"
  "ingress_counters (p\<lparr>parser := fp\<rparr>) = ingress_counters p"
  by (simp_all add: ingress_counters_def count_tx_def count_txDrop_def)

lemma emit_ingress_counters:
  "emit ser ops j fv vid e = Some e' \<Longrightarrow>
     map ingress_counters (ports e') = map ingress_counters (ports e)"
  by (auto simp: emit_def Let_def map_ports_upd frame_simps split: option.splits prod.splits if_splits)

lemma emits_ingress_counters:
  "foldM (\<lambda>j. emit ser ops j fv vid) outs e = Some e' \<Longrightarrow>
     map ingress_counters (ports e') = map ingress_counters (ports e)"
  by (rule foldM_invariant [where I = "\<lambda>s. map ingress_counters (ports s) = map ingress_counters (ports e)"])
    (simp_all add: emit_ingress_counters)

definition floods :: "'h engine \<Rightarrow> nat \<Rightarrow> u16 \<Rightarrow> frameView \<Rightarrow> i64 \<Rightarrow> bool" where
  "floods e i vid fv now \<longleftrightarrow> known_port (learn_source (fdb e) vid i fv now) vid fv now = None"

lemma ingress_counters_step:
  assumes wf: "engine_wf e" and fwd: "forward decode ser ops i frm now e = Some e'"
  shows "map ingress_counters (ports e') =
     (map ingress_counters (ports e))[i :=
        (let s = stats (ports e ! i) in
         (rxFrames s + 1, rxBytes s + of_nat (length frm),
          flooded s + (case ingress decode (ports e ! i) frm of
                         None \<Rightarrow> 0 | Some (vid, fv) \<Rightarrow> if floods e i vid fv now then 1 else 0),
          forwardDrop s + (if ingress decode (ports e ! i) frm = None then 1 else 0)))]"
proof (cases "ingress decode (ports e ! i) frm")
  case None
  note i = forward_index [OF fwd]
  have "e' = upd_port i count_drop (received decode i frm e)"
    using fwd forward_dropped [OF i None] by simp
  then show ?thesis
    using i None
    by (simp add: received_def upd_port_def map_update ingress_counters_def count_drop_def count_rx_def Let_def)
next
  case (Some a)
  then obtain vid fv where acc: "ingress decode (ports e ! i) frm = Some (vid, fv)" by (cases a) auto
  note i = forward_index [OF fwd]
  have "map ingress_counters (ports e') = map ingress_counters (ports (ready decode i frm now vid fv e))"
    using fwd forward_ready [OF wf i acc] by (intro emits_ingress_counters) simp
  also have "\<dots> = (map ingress_counters (ports e))[i :=
        (let s = stats (ports e ! i) in
         (rxFrames s + 1, rxBytes s + of_nat (length frm),
          flooded s + (if floods e i vid fv now then 1 else 0), forwardDrop s))]"
    using i by (simp add: ready_def received_def upd_port_def map_update ingress_counters_def count_flood_def
        count_rx_def Let_def floods_def)
  finally show ?thesis using acc by simp
qed

text \<open>
  C15: Ingress accounting. Handling a frame on port i adds one frame and its length to that port's
  receive counters, one to its drop counter exactly when the frame is dropped, one to its
  flood counter exactly when it is flooded, and leaves the receive, drop and flood counters of
  every other port alone.
\<close>

theorem forward_ingress_counters:
  assumes wf: "engine_wf e" and fwd: "forward decode ser ops i frm now e = Some e'"
  shows "map ingress_counters (ports e') =
     (map ingress_counters (ports e))[i :=
        (let s = stats (ports e ! i) in
         (rxFrames s + 1, rxBytes s + of_nat (length frm),
          flooded s + (case ingress decode (ports e ! i) frm of
                         None \<Rightarrow> 0 | Some (vid, fv) \<Rightarrow> if floods e i vid fv now then 1 else 0),
          forwardDrop s + (if ingress decode (ports e ! i) frm = None then 1 else 0)))]"
  by (rule ingress_counters_step [OF wf fwd])

theorem forward_ingress_counters_witness:
  "\<exists>e'. forward wire_decode wire_ser mtu_io 3 (tagged_frame broadcast (station 4) 10) 7 vlan_engine = Some e' \<and>
     map ingress_counters (ports e') = (map ingress_counters (ports vlan_engine))[3 := (1, 64, 1, 0)]"
proof -
  obtain e' where e': "forward wire_decode wire_ser mtu_io 3 (tagged_frame broadcast (station 4) 10) 7 vlan_engine = Some e'"
    using forward_step [of vlan_engine 3] by fastforce
  have "stats (ports vlan_engine ! 3) = zeroStats" by code_simp
  moreover have "floods vlan_engine 3 10 \<lparr>dst = broadcast, src = station 4, hasTag = True, tagVID = 10, innerType = 0x88B5,
               payload = replicate 46 0, raw = tagged_frame broadcast (station 4) 10\<rparr> 7" by code_simp
  moreover have "length (tagged_frame broadcast (station 4) 10) = 64" by code_simp
  ultimately show ?thesis
    using forward_ingress_counters [OF _ e'] e' by (simp add: example_ingress_vlan zeroStats_def)
qed

section \<open>Known unicast and flooding\<close>

text \<open>
  Known unicast is not flooded. A frame to an individual address that the table resolves
  (after learning the frame's own source) is written to that one port only, or to none when
  that port is the ingress port; no port's flood counter moves.
\<close>

theorem known_unicast_not_flooded:
  assumes wf: "engine_wf e" and i: "i < length (ports e)"
    and acc: "ingress decode (ports e ! i) frm = Some (vid, fv)" and ind: "\<not> group_address (dst fv)"
    and known: "Lookup (learn_source (fdb e) vid i fv now) vid (dst fv) now = Some out"
  shows "\<exists>e' ws. forward decode ser ops i frm now e = Some e' \<and> wire e' = wire e @ ws \<and>
     untimed ws = (if out = i then [] else [(out, egress_frame ser (role (ports e ! out)) fv vid)]) \<and>
     map (flooded \<circ> stats) (ports e') = map (flooded \<circ> stats) (ports e)"
proof -
  have kp: "known_port (learn_source (fdb e) vid i fv now) vid fv now = Some out"
    using ind known by (simp add: known_port_def)
  obtain e' ws where e': "forward decode ser ops i frm now e = Some e'" "wire e' = wire e @ ws"
    "untimed ws = wire_frames ser e fv vid (destinations e i vid fv now)"
    using forward_step [OF wf i, of decode ser ops frm now] acc by auto
  have fl: "(flooded \<circ> stats) = (\<lambda>(r, b, f, d). f) \<circ> ingress_counters"
    by (simp add: ingress_counters_def fun_eq_iff)
  have "map (flooded \<circ> stats) (ports e') = (map (flooded \<circ> stats) (ports e))[i := flooded (stats (ports e ! i))]"
    unfolding fl map_map [symmetric] ingress_counters_step [OF wf e'(1)]
    using kp acc by (simp add: map_update floods_def Let_def)
  also have "\<dots> = map (flooded \<circ> stats) (ports e)"
    using i by (simp add: list_update_same_conv)
  finally show ?thesis
    using e' kp by (intro exI [of _ e'] exI [of _ ws]) (simp add: destinations_def wire_frames_def)
qed

text \<open>Port 1 has taught the plain engine station 2; port 0 then sends to it.\<close>

definition taught_engine :: "frame list engine" where
  "taught_engine = plain_engine\<lparr>fdb := Learn (fdb plain_engine) 0 (station 2) 1 5\<rparr>"

lemma taught_engine_wf [simp]: "engine_wf taught_engine" "length (ports taught_engine) = 3"
proof -
  have sc: "same_config plain_engine taught_engine" by (simp add: same_config_def taught_engine_def)
  have "in_vlan plain_engine 0 1" by code_simp
  then have "ft.confined (in_vlan plain_engine) (fdb taught_engine)"
    using example_engines(1) by (simp add: taught_engine_def engine_wf_def ft.confined_learn)
  then show "engine_wf taught_engine" by (rule same_config_wf [OF sc example_engines(1)])
  show "length (ports taught_engine) = 3" by (simp add: taught_engine_def)
qed

theorem known_unicast_not_flooded_witness:
  "\<exists>e' ws. forward wire_decode wire_ser mtu_io 0 (plain_frame (station 2) (station 1)) 9 taught_engine = Some e' \<and>
     wire e' = wire taught_engine @ ws \<and>
     untimed ws = [(1, plain_frame (station 2) (station 1))] \<and>
     map (flooded \<circ> stats) (ports e') = map (flooded \<circ> stats) (ports taught_engine)"
proof -
  let ?fv = "\<lparr>dst = station 2, src = station 1, hasTag = False, tagVID = 0, innerType = 0x88B5,
               payload = replicate 46 0, raw = plain_frame (station 2) (station 1)\<rparr>"
  have "ingress wire_decode (ports taught_engine ! 0) (plain_frame (station 2) (station 1)) = Some (0, ?fv)"
    by (simp add: taught_engine_def example_ingress)
  moreover have "\<not> group_address (dst ?fv)" by code_simp
  moreover have "Lookup (learn_source (fdb taught_engine) 0 0 ?fv 9) 0 (dst ?fv) 9 = Some 1" by code_simp
  moreover have "egress_frame wire_ser (role (ports taught_engine ! 1)) ?fv 0 = plain_frame (station 2) (station 1)"
    by code_simp
  ultimately show ?thesis
    using known_unicast_not_flooded [of taught_engine 0 wire_decode _ 0 ?fv 9 1 wire_ser mtu_io] by simp
qed

text \<open>
  Broadcast, multicast and unknown unicast are flooded: the frame is written exactly once to
  every other member port of its VLAN, in port order, in the tag form of each port's role.
\<close>

theorem unknown_flooded:
  assumes wf: "engine_wf e" and i: "i < length (ports e)"
    and acc: "ingress decode (ports e ! i) frm = Some (vid, fv)"
    and unknown: "group_address (dst fv) \<or> Lookup (learn_source (fdb e) vid i fv now) vid (dst fv) now = None"
  shows "\<exists>e' ws. forward decode ser ops i frm now e = Some e' \<and> wire e' = wire e @ ws \<and>
     untimed ws = map (\<lambda>j. (j, egress_frame ser (role (ports e ! j)) fv vid))
       (filter (\<lambda>j. j \<noteq> i \<and> vlan_member (ports e ! j) vid) [0..<length (ports e)])"
proof -
  have "destinations e i vid fv now = filter (\<lambda>j. j \<noteq> i \<and> in_vlan e vid j) [0..<length (ports e)]"
    using unknown by (auto simp: destinations_def known_port_def)
  also have "\<dots> = filter (\<lambda>j. j \<noteq> i \<and> vlan_member (ports e ! j) vid) [0..<length (ports e)]"
    by (rule filter_cong) (auto simp: in_vlan_def)
  finally show ?thesis
    using forward_step [OF wf i, of decode ser ops frm now] acc by (auto simp: wire_frames_def)
qed

theorem unknown_flooded_witness:
  "\<exists>e' ws. forward wire_decode wire_ser mtu_io 3 (tagged_frame broadcast (station 4) 10) 7 vlan_engine = Some e' \<and>
     wire e' = wire vlan_engine @ ws \<and>
     untimed ws = [(0, plain_frame broadcast (station 4)), (1, plain_frame broadcast (station 4)),
                   (4, tagged_frame broadcast (station 4) 10)]"
proof -
  let ?fv = "\<lparr>dst = broadcast, src = station 4, hasTag = True, tagVID = 10, innerType = 0x88B5,
               payload = replicate 46 0, raw = tagged_frame broadcast (station 4) 10\<rparr>"
  have "group_address (dst ?fv)" by code_simp
  moreover have "map (\<lambda>j. (j, egress_frame wire_ser (role (ports vlan_engine ! j)) ?fv 10))
       (filter (\<lambda>j. j \<noteq> 3 \<and> vlan_member (ports vlan_engine ! j) 10) [0..<5]) =
     [(0, plain_frame broadcast (station 4)), (1, plain_frame broadcast (station 4)),
      (4, tagged_frame broadcast (station 4) 10)]" by code_simp
  ultimately show ?thesis
    using unknown_flooded [of vlan_engine 3 wire_decode _ 10 ?fv 7 wire_ser mtu_io] by (simp add: example_ingress_vlan)
qed

section \<open>Learning and ageing across frames\<close>

lemma learned_destinations:
  assumes wf: "engine_wf e" and fwd1: "forward decode ser ops j frm1 t e = Some e1"
    and acc1: "ingress decode (ports e ! j) frm1 = Some (vid, fv1)" and ind: "\<not> group_address (src fv1)"
    and i: "i < length (ports e)" "i \<noteq> j"
    and to: "dst fv2 = src fv1" "src fv2 \<noteq> src fv1"
    and time: "0 \<le> sint t" "sint t \<le> sint now"
  shows "engine_wf e1" and "same_config e e1"
    and "destinations e1 i vid fv2 now =
       (if 0 < sint (ageing (fdb e)) \<and> sint (ageing (fdb e)) < sint now - sint t
        then filter (\<lambda>k. k \<noteq> i \<and> in_vlan e vid k) [0..<length (ports e)] else [j])"
proof -
  have "engine_wf e1 \<and> same_config e e1 \<and> fdb e1 = Learn (fdb e) vid (src fv1) j t"
    using wf fwd1 by (cases rule: forward_Some_cases) (use acc1 ind in \<open>auto simp: learn_source_def\<close>)
  then have wf1: "engine_wf e1" and sc: "same_config e e1" and fdb1: "fdb e1 = Learn (fdb e) vid (src fv1) j t" by blast+
  show "engine_wf e1" "same_config e e1" by (rule wf1, rule sc)
  have "Lookup (learn_source (fdb e1) vid i fv2 now) vid (src fv1) now = Lookup (fdb e1) vid (src fv1) now"
    using to(2) by (simp add: learn_source_def Lookup_eq table_Learn expired_def cong: option.case_cong)
  also have "\<dots> = (if 0 < sint (ageing (fdb e)) \<and> sint (ageing (fdb e)) < sint now - sint t then None else Some j)"
    unfolding fdb1 by (rule Lookup_after_Learn [OF time])
  finally show "destinations e1 i vid fv2 now =
      (if 0 < sint (ageing (fdb e)) \<and> sint (ageing (fdb e)) < sint now - sint t
        then filter (\<lambda>k. k \<noteq> i \<and> in_vlan e vid k) [0..<length (ports e)] else [j])"
    using i(2) ind to(1) same_config_in_vlan [OF sc] same_config_length [OF sc]
    by (simp add: destinations_def known_port_def)
qed

text \<open>
  Learning and ageing, end to end. After a frame from a station on port j, a frame to that
  station that another station sends from port i in the same VLAN is written to port j alone, as
  long as the ageing duration (when positive) has not passed; after that it is flooded again.
\<close>

theorem learned_station_reached:
  assumes wf: "engine_wf e" and fwd1: "forward decode ser ops j frm1 t e = Some e1"
    and acc1: "ingress decode (ports e ! j) frm1 = Some (vid, fv1)" and ind: "\<not> group_address (src fv1)"
    and i: "i < length (ports e)" "i \<noteq> j"
    and acc2: "ingress decode (ports e1 ! i) frm2 = Some (vid, fv2)"
    and to: "dst fv2 = src fv1" "src fv2 \<noteq> src fv1"
    and time: "0 \<le> sint t" "sint t \<le> sint now"
  shows "\<exists>e2 ws. forward decode ser ops i frm2 now e1 = Some e2 \<and> wire e2 = wire e1 @ ws \<and>
     map fst ws =
       (if 0 < sint (ageing (fdb e)) \<and> sint (ageing (fdb e)) < sint now - sint t
        then filter (\<lambda>k. k \<noteq> i \<and> in_vlan e vid k) [0..<length (ports e)] else [j])"
proof -
  note d = learned_destinations [OF wf fwd1 acc1 ind i to time]
  have "i < length (ports e1)" using i(1) same_config_length [OF d(2)] by simp
  from forward_step [OF d(1) this, of decode ser ops frm2 now] acc2 obtain e2 ws
    where e2: "forward decode ser ops i frm2 now e1 = Some e2" "wire e2 = wire e1 @ ws"
      "untimed ws = wire_frames ser e1 fv2 vid (destinations e1 i vid fv2 now)" by auto
  from this(3) have "map fst ws = destinations e1 i vid fv2 now"
    by (simp only: map_fst_untimed map_fst_wire_frames)
  with e2 d(3) show ?thesis by auto
qed

lemma example_run:
  "map_option (\<lambda>e1. ingress wire_decode (ports e1 ! 0) (plain_frame (station 2) (station 1)))
     (forward wire_decode wire_ser mtu_io 1 (plain_frame broadcast (station 2)) 5 plain_engine) =
   Some (Some (0, \<lparr>dst = station 2, src = station 1, hasTag = False, tagVID = 0, innerType = 0x88B5,
               payload = replicate 46 0, raw = plain_frame (station 2) (station 1)\<rparr>))"
  by code_simp

theorem learned_station_reached_witness:
  "\<exists>e1 e2 ws. forward wire_decode wire_ser mtu_io 1 (plain_frame broadcast (station 2)) 5 plain_engine = Some e1 \<and>
     forward wire_decode wire_ser mtu_io 0 (plain_frame (station 2) (station 1)) 9 e1 = Some e2 \<and>
     wire e2 = wire e1 @ ws \<and> map fst ws = [1]"
proof -
  let ?fv1 = "\<lparr>dst = broadcast, src = station 2, hasTag = False, tagVID = 0, innerType = 0x88B5,
               payload = replicate 46 0, raw = plain_frame broadcast (station 2)\<rparr>"
  let ?fv2 = "\<lparr>dst = station 2, src = station 1, hasTag = False, tagVID = 0, innerType = 0x88B5,
               payload = replicate 46 0, raw = plain_frame (station 2) (station 1)\<rparr>"
  obtain e1 where e1: "forward wire_decode wire_ser mtu_io 1 (plain_frame broadcast (station 2)) 5 plain_engine = Some e1"
    and acc2: "ingress wire_decode (ports e1 ! 0) (plain_frame (station 2) (station 1)) = Some (0, ?fv2)"
    using example_run by auto
  have acc1: "ingress wire_decode (ports plain_engine ! 1) (plain_frame broadcast (station 2)) = Some (0, ?fv1)"
    by code_simp
  have "\<not> group_address (src ?fv1)" "src ?fv2 \<noteq> src ?fv1" "ageing (fdb plain_engine) = 0"
    by code_simp+
  then show ?thesis
    using learned_station_reached [OF example_engines(1) e1 acc1 _ _ _ acc2, of 9] e1 by simp
qed

end
