(* ===== verification/ConcurProps.thy ===== *)
theory ConcurProps
  imports ConcurRefine Switch
begin

text \<open>
  The properties of the concurrent data path, and a run they are applied to: on a plain switch of
  three ports, goroutine 0 handles a broadcast.
\<close>

section \<open>One frame, undisturbed\<close>

lemma undisturbed_run:
  assumes wf: "engine_wf e0" and reach: "conc_reach decode ser ops e0 c" and i: "i < length (ports e0)"
    and idle: "\<not> busy c i" and free: "writer (tab c) = None" and quiet: "\<forall>r. \<not> snapping (snaps c r)"
  shows "(\<exists>c'. (fwd_own decode ser ops i)\<^sup>*\<^sup>* (start_frame i frm c) c' \<and> \<not> busy c' i)"
    and "(fwd_own decode ser ops i)\<^sup>*\<^sup>* (start_frame i frm c) c' \<Longrightarrow> \<not> busy c' i \<Longrightarrow>
           conc_reach decode ser ops e0 c' \<and> (\<exists>now. forward decode ser ops i frm now (conc_abs c) = Some (conc_abs c'))"
proof -
  note start = start_frame_reach [OF reach i idle, of frm]
  show "\<exists>c'. (fwd_own decode ser ops i)\<^sup>*\<^sup>* (start_frame i frm c) c' \<and> \<not> busy c' i"
    using fwd_run_ends [OF wf i start] free quiet by simp
  assume run: "(fwd_own decode ser ops i)\<^sup>*\<^sup>* (start_frame i frm c) c'" and fin: "\<not> busy c' i"
  from fwd_run_progress [OF wf i reach run start start_frame_progress]
  have "fwd_progress decode ser ops i frm (conc_abs c) c'" "conc_reach decode ser ops e0 c'" by blast+
  moreover have "settled i c' = conc_abs c'" using fin by (simp add: busy_def settled_clear)
  ultimately show "conc_reach decode ser ops e0 c' \<and> (\<exists>now. forward decode ser ops i frm now (conc_abs c) = Some (conc_abs c'))"
    using fin by (simp add: fwd_progress_def busy_def)
qed

lemma conc_step_others: "conc_step decode ser ops i c c' \<Longrightarrow> k \<noteq> i \<Longrightarrow> pcs c' k = pcs c k \<and> adds c' k = adds c k"
  by (cases rule: conc_step.cases) auto

lemma fwd_run_others:
  "(fwd_own decode ser ops i)\<^sup>*\<^sup>* c c' \<Longrightarrow> k \<noteq> i \<Longrightarrow> pcs c' k = pcs c k \<and> adds c' k = adds c k"
  by (induction rule: rtranclp_induct) (auto simp: fwd_own_def dest: conc_step_others)

section \<open>An example run\<close>

abbreviation example_reach :: "frame list conc \<Rightarrow> bool" where
  "example_reach \<equiv> conc_reach wire_decode wire_ser mtu_io plain_engine"

definition bcast_view :: frameView where
  "bcast_view = \<lparr>dst = broadcast, src = station 1, hasTag = False, tagVID = 0, innerType = 0x88B5,
     payload = replicate 46 0, raw = plain_frame broadcast (station 1)\<rparr>"

lemma bcast_ingress:
  "ingress wire_decode (ports plain_engine ! 0) (plain_frame broadcast (station 1)) = Some (0, bcast_view)"
  by code_simp

lemma bcast_group: "group_address (dst bcast_view)"
  by code_simp

lemma bcast_members: "filter (\<lambda>j. j \<noteq> 0 \<and> in_vlan plain_engine 0 j) [0..<length (ports plain_engine)] = [1, 2]"
  by code_simp

lemma bcast_destinations: "destinations plain_engine 0 0 bcast_view now = [1, 2]"
  using bcast_members by (simp add: destinations_def known_port_def bcast_group)

lemma broadcast_run:
  "\<exists>c. example_reach c \<and> (\<forall>i. \<not> busy c i) \<and> Received 0 (plain_frame broadcast (station 1)) \<in> set (events c) \<and>
       map fst (writes (events c)) = [1, 2]"
proof -
  let ?frm = "plain_frame broadcast (station 1)"
  have wf: "engine_wf plain_engine" "0 < length (ports plain_engine)" by simp_all
  note r = conc_reach.init [of wire_decode wire_ser mtu_io plain_engine]
  have idle: "\<not> busy (conc_init plain_engine) k" for k by (simp add: busy_def conc_init_def)
  have free: "writer (tab (conc_init plain_engine)) = None" "\<forall>r. \<not> snapping (snaps (conc_init plain_engine) r)"
    by (simp_all add: conc_init_def init_shared_def snapping_def)
  obtain c where run: "(fwd_own wire_decode wire_ser mtu_io 0)\<^sup>*\<^sup>* (start_frame 0 ?frm (conc_init plain_engine)) c" "\<not> busy c 0"
    using undisturbed_run(1) [OF wf(1) r wf(2) idle free] by blast
  from undisturbed_run(2) [OF wf(1) r wf(2) idle free run] obtain now where c: "example_reach c"
    and f: "forward wire_decode wire_ser mtu_io 0 ?frm now (conc_abs (conc_init plain_engine)) = Some (conc_abs c)" by blast
  have abs: "conc_abs (conc_init plain_engine) = plain_engine"
    by (rule engine.equality) (simp_all add: conc_init_def conc_abs_def plain_engine_def built_def fdb_abs_def init_shared_def newFDB_def)
  obtain ws where ws: "wire (conc_abs c) = wire plain_engine @ ws"
      "untimed ws = wire_frames wire_ser plain_engine bcast_view 0 (destinations plain_engine 0 0 bcast_view now)"
    by (rule forward_Some_cases [OF wf(1) f [unfolded abs]]) (simp_all add: bcast_ingress)
  have "wire plain_engine = []" by (simp add: plain_engine_def built_def)
  then have "map fst (writes (events c)) = [1, 2]"
    using conc_reach_log [OF wf(1) c] ws map_fst_untimed [of ws] by (simp add: log_inv_def bcast_destinations)
  moreover have "Received 0 ?frm \<in> set (events c)"
    using run(1)
  proof (induction rule: rtranclp_induct)
    case (step c1 c2)
    from step(2) have "conc_step wire_decode wire_ser mtu_io 0 c1 c2" by (simp add: fwd_own_def)
    then have "set (events c1) \<subseteq> set (events c2)" by cases auto
    with step show ?case by blast
  qed simp
  moreover have "\<not> busy c i" for i
    using run(2) fwd_run_others [OF run(1), of i] idle [of i] by (cases "i = 0") (auto simp: busy_def start_frame_def)
  ultimately show ?thesis using c by (intro exI [of _ c]) simp
qed

section \<open>Properties\<close>

text \<open>
  C5: Isolation and single delivery under every interleaving. However the receive goroutines, the
  collector, snapshots and changes of the ageing duration interleave, no goroutine panics; what is
  on the wire is what the goroutines wrote; and each copy goroutine i writes leaves on another port than
  its own, at most once per received frame, in the VLAN into which the frame that i received last is
  classified at port i, a VLAN both ports belong to; and it is the egress form, for that VLAN and the
  outgoing port's role, of what the decoder (whose parser has seen the frames i received before)
  makes of exactly that frame. The races in the table cannot lead a frame astray.
\<close>
theorem concurrent_isolation:
  assumes "engine_wf e0" and "conc_reach decode ser ops e0 c"
  shows "(\<forall>i < length (ports e0). pcs c i \<noteq> FwdPanic) \<and> wire (sw c) = wire e0 @ writes (events c) \<and>
     (\<forall>xs i v j pkt ok evs. events c = xs @ Wrote i v j pkt ok # evs \<longrightarrow>
        j \<noteq> i \<and> in_vlan e0 v i \<and> in_vlan e0 v j \<and> j \<notin> set (written i evs) \<and>
        (\<exists>frm earlier fv. heard i evs = frm # earlier \<and> raw fv = frm \<and>
           ingress decode ((ports e0 ! i)\<lparr>parser := replay decode (parser (ports e0 ! i)) earlier\<rparr>) frm = Some (v, fv) \<and>
           pkt = egress_frame ser (role (ports e0 ! j)) fv v))"
proof (intro conjI allI impI)
  note inv = conc_reach_inv [OF assms] and log = conc_reach_log [OF assms]
  show "pcs c i \<noteq> FwdPanic" if "i < length (ports e0)" for i
    using inv that by (metis conc_inv_def pc_ok.simps(9))
  show "wire (sw c) = wire e0 @ writes (events c)" using log by (simp add: log_inv_def)
  fix xs i v j pkt ok evs
  assume "events c = xs @ Wrote i v j pkt ok # evs"
  then have ok: "write_ok decode ser e0 evs i v j pkt" using log events_ok_member by (metis log_inv_def)
  then show "j \<noteq> i" "in_vlan e0 v i" "in_vlan e0 v j" "j \<notin> set (written i evs)" by (auto simp: write_ok_def)
  from ok obtain fv where fv: "last_ingress decode e0 i evs = Some (v, fv)" "pkt = egress_frame ser (role (ports e0 ! j)) fv v"
    by (auto simp: write_ok_def)
  then show "\<exists>frm earlier fv. heard i evs = frm # earlier \<and> raw fv = frm \<and>
      ingress decode ((ports e0 ! i)\<lparr>parser := replay decode (parser (ports e0 ! i)) earlier\<rparr>) frm = Some (v, fv) \<and>
      pkt = egress_frame ser (role (ports e0 ! j)) fv v"
    by (cases "heard i evs") (auto simp: last_ingress_def dest: ingress_SomeD(3))
qed

lemma writes_event: "(j, pkt, ok) \<in> set (writes evs) \<Longrightarrow> \<exists>xs i v evs'. evs = xs @ Wrote i v j pkt ok # evs'"
proof (induction evs)
  case (Cons ev evs)
  then show ?case by (cases ev) (fastforce intro: exI [of _ "[]"] exI [of _ "ev # _"])+
qed simp

theorem concurrent_isolation_witness:
  "\<exists>c xs i v pkt ok evs. example_reach c \<and> events c = xs @ Wrote i v 1 pkt ok # evs \<and> 1 \<noteq> i \<and> in_vlan plain_engine v i"
proof -
  obtain c where c: "example_reach c" and w: "map fst (writes (events c)) = [1, 2]" using broadcast_run by (elim exE conjE)
  then obtain pkt ok where "(1, pkt, ok) \<in> set (writes (events c))" by (cases "writes (events c)") auto
  then obtain xs i v evs where ev: "events c = xs @ Wrote i v 1 pkt ok # evs" using writes_event by blast
  with concurrent_isolation [OF example_engines(1) c] c show ?thesis by blast
qed

text \<open>
  C6: No counter update is lost under any interleaving. In every reachable state each of the seven
  counters of each port, plus the additions goroutines have still to make, is its initial value plus
  what the logged events add up to; once no goroutine owes anything the counters are exact (modulo
  \<open>2 ^ 64\<close>), so frames and bytes received, sent, dropped and flooded agree with what happened.
\<close>
theorem concurrent_counters_exact:
  assumes "conc_reach decode ser ops e0 c" and "j < length (ports e0)"
  shows "read_counter q (stats (ports (sw c) ! j)) + (\<Sum>i < length (ports e0). owed q j (adds c i)) =
           read_counter q (stats (ports e0 ! j)) + logged q j (events c) \<and>
         ((\<forall>i < length (ports e0). adds c i = []) \<longrightarrow>
           read_counter q (stats (ports (sw c) ! j)) = read_counter q (stats (ports e0 ! j)) + logged q j (events c))"
  using conc_reach_count [OF assms(1)] assms(2) by (auto simp: count_inv_def)

theorem concurrent_counters_exact_witness:
  "\<exists>c. example_reach c \<and> events c \<noteq> [] \<and>
     rxFrames (stats (ports (sw c) ! 0)) = rxFrames (stats (ports plain_engine ! 0)) + logged CtrRxFrames 0 (events c)"
proof -
  obtain c where c: "example_reach c" "\<forall>i. \<not> busy c i" "Received 0 (plain_frame broadcast (station 1)) \<in> set (events c)"
    using broadcast_run by (elim exE conjE)
  then have "\<forall>i < length (ports plain_engine). adds c i = []" "events c \<noteq> []" by (auto simp: busy_def)
  with concurrent_counters_exact [OF c(1), of 0 CtrRxFrames] c(1) show ?thesis by auto
qed

text \<open>
  C7: The concurrent data path refines the atomic one. A goroutine that picks up a frame and is then
  left alone, while no writer holds the table and no snapshot is running, finishes it in finitely
  many of its own steps, and then the engine is the one the atomic \<open>forward\<close> computes for that frame
  and some reading of the clock: table, counters, handles and wire alike.
\<close>
theorem undisturbed_forward:
  assumes "engine_wf e0" and "conc_reach decode ser ops e0 c" and "i < length (ports e0)"
    and "\<not> busy c i" and "writer (tab c) = None" and "\<forall>r. \<not> snapping (snaps c r)"
  shows "(\<exists>c'. (fwd_own decode ser ops i)\<^sup>*\<^sup>* (start_frame i frm c) c' \<and> \<not> busy c' i) \<and>
     (\<forall>c'. (fwd_own decode ser ops i)\<^sup>*\<^sup>* (start_frame i frm c) c' \<and> \<not> busy c' i \<longrightarrow>
        (\<exists>now. forward decode ser ops i frm now (conc_abs c) = Some (conc_abs c')))"
  using undisturbed_run [OF assms, of frm] by blast

theorem undisturbed_forward_witness:
  "\<exists>c' now. forward wire_decode wire_ser mtu_io 0 (plain_frame broadcast (station 1)) now
      (conc_abs (conc_init plain_engine)) = Some (conc_abs c')"
proof -
  have "\<not> busy (conc_init plain_engine) 0" "writer (tab (conc_init plain_engine)) = None"
    "\<forall>r. \<not> snapping (snaps (conc_init plain_engine) r)"
    by (simp_all add: busy_def conc_init_def init_shared_def snapping_def)
  with undisturbed_forward [OF example_engines(1) conc_reach.init, of 0 wire_decode wire_ser mtu_io "plain_frame broadcast (station 1)"]
  show ?thesis by (simp del: conc_abs_sel) metis
qed

text \<open>
  C8: A table snapshot is consistent although the switch keeps forwarding. No snapshot indexes a port
  that does not exist; while it copies no writer is inside the table; and when it has copied the last
  entry its rows are, one for one, the entries of the table at that moment, each with the key and the
  name of the port it points to. Only the age of an entry may be refreshed meanwhile.
\<close>
theorem snapshot_consistent:
  assumes "engine_wf e0" and "conc_reach decode ser ops e0 c"
  shows "snaps c r \<noteq> SnapPanic \<and>
     (snapping (snaps c r) \<longrightarrow> writer (tab c) = None) \<and>
     (\<forall>now rows. snaps c r = SnapRows now [] rows \<longrightarrow>
        (\<exists>ks. distinct ks \<and> set ks = dom (ptable (tab c)) \<and> list_all2 (row_about e0 (tab c)) ks rows))"
proof -
  have "snap_ok e0 (tab c) (snaps c r)" using conc_reach_snap [OF assms] by (simp add: snap_inv_def)
  then show ?thesis by (cases "snaps c r") (auto simp: snapping_def)
qed

theorem snapshot_consistent_witness:
  "\<exists>c rows. example_reach c \<and> snaps c 0 = SnapRows 5 [] rows \<and>
     (\<exists>ks. set ks = dom (ptable (tab c)) \<and> list_all2 (row_about plain_engine (tab c)) ks rows)"
proof -
  let ?c1 = "snap_goto 0 (SnapWait 5) (conc_init plain_engine)"
  let ?c2 = "snap_goto 0 (SnapRows 5 [] []) ?c1"
  have "example_reach ?c1"
    by (rule conc_reach.step [OF conc_reach.init conc_step.snap_call]) (simp add: conc_init_def snapping_def)
  then have "example_reach ?c2"
    by (rule conc_reach.step [OF _ conc_step.snap_lock]) (simp_all add: conc_init_def init_shared_def)
  moreover have "snaps ?c2 0 = SnapRows 5 [] []" by simp
  ultimately show ?thesis using snapshot_consistent [OF example_engines(1), of wire_decode wire_ser mtu_io ?c2 0] by blast
qed

end
