(* ===== verification/ConcurLive.thy ===== *)
theory ConcurLive
  imports ConcurProps
begin

text \<open>
  Liveness of the concurrent data path: from every reachable state, however the goroutines are
  entangled, every frame being handled and every snapshot asked for can be finished. First the
  snapshots that hold the read lock run to their end, then whoever holds the write lock, then the one
  that waited.
\<close>

section \<open>Steps of work begun\<close>

definition any_step :: "decoder \<Rightarrow> serializer \<Rightarrow> 'h PacketIO \<Rightarrow> 'h conc \<Rightarrow> 'h conc \<Rightarrow> bool" where
  "any_step decode ser ops c c' \<longleftrightarrow> (\<exists>i. conc_step decode ser ops i c c')"

text \<open>A snapshot goes on, a goroutine goes on with its frame, another thread with its call on the table.\<close>

definition work_step :: "decoder \<Rightarrow> serializer \<Rightarrow> 'h PacketIO \<Rightarrow> 'h conc \<Rightarrow> 'h conc \<Rightarrow> bool" where
  "work_step decode ser ops c c' \<longleftrightarrow>
     (\<exists>r pc. conc_step decode ser ops r c c' \<and> c' = snap_goto r pc c) \<or>
     (\<exists>i. fwd_own decode ser ops i c c') \<or>
     (\<exists>t f. \<not> t < length (ports (sw c)) \<and> own_step t (tab c) f \<and> table_step t c f \<and> c' = c\<lparr>tab := f\<rparr>)"

lemma own_step_not_call: "own_step t f f' \<Longrightarrow> threads f' t \<noteq> LearnRead k p n"
  by (auto simp: own_step_def elim: fdb_step.cases)

lemma work_any: "work_step decode ser ops c c' \<Longrightarrow> any_step decode ser ops c c'"
  by (auto simp: work_step_def any_step_def fwd_own_def own_step_not_call intro!: conc_step.others)

lemma work_run_any: "(work_step decode ser ops)\<^sup>*\<^sup>* c c' \<Longrightarrow> (any_step decode ser ops)\<^sup>*\<^sup>* c c'"
  by (rule rtranclp_mono [THEN predicate2D]) (auto intro: work_any)

lemma work_snapI: "conc_step decode ser ops r c (snap_goto r pc c) \<Longrightarrow> work_step decode ser ops c (snap_goto r pc c)"
  by (auto simp: work_step_def)

lemma work_step_reach: "work_step decode ser ops c c' \<Longrightarrow> conc_reach decode ser ops e0 c \<Longrightarrow> conc_reach decode ser ops e0 c'"
  by (drule work_any) (auto simp: any_step_def intro: conc_reach.step)

lemma work_run_reach: "(work_step decode ser ops)\<^sup>*\<^sup>* c c' \<Longrightarrow> conc_reach decode ser ops e0 c \<Longrightarrow> conc_reach decode ser ops e0 c'"
  by (induction rule: rtranclp_induct) (auto intro: work_step_reach)

lemma own_run_work: "(fwd_own decode ser ops i)\<^sup>*\<^sup>* c c' \<Longrightarrow> (work_step decode ser ops)\<^sup>*\<^sup>* c c'"
  by (rule rtranclp_mono [THEN predicate2D]) (auto simp: work_step_def)

section \<open>Snapshots end\<close>

lemma snap_row_exists:
  assumes wf: "engine_wf e0" and reach: "conc_reach decode ser ops e0 c" and at: "snaps c r = SnapRows now (k # ks) rows"
  shows "\<exists>row. conc_step decode ser ops r c (snap_goto r (SnapRows now ks (rows @ [row])) c)"
proof -
  have "snap_ok e0 (tab c) (SnapRows now (k # ks) rows)"
    using conc_reach_snap [OF wf reach] at by (metis snap_inv_def)
  then have "k \<in> dom (ptable (tab c))" by auto
  then obtain a where a: "ptable (tab c) k = Some a" by blast
  then obtain en where en: "heap (tab c) a = Some en"
    using race_inv_entry [OF conc_reach_race_inv [OF reach] race_inv_owner [OF conc_reach_race_inv [OF reach]]] by blast
  show ?thesis
  proof (cases "fdb_row (ports (sw c)) now k en")
    case None
    from conc_reach.step [OF reach snap_panic [OF at a en None]] have "snap_inv e0 (snap_goto r SnapPanic c)"
      by (rule conc_reach_snap [OF wf])
    then show ?thesis by (auto simp: snap_inv_def dest: spec [of _ r])
  next
    case (Some row)
    from snap_row [OF at a en Some] show ?thesis by blast
  qed
qed

lemma snap_rows_end:
  assumes wf: "engine_wf e0"
  shows "conc_reach decode ser ops e0 c \<Longrightarrow> snaps c r = SnapRows now ks rows \<Longrightarrow>
     \<exists>rows'. (work_step decode ser ops)\<^sup>*\<^sup>* c (snap_goto r (SnapDone rows') c)"
proof (induction ks arbitrary: c rows)
  case Nil
  from work_snapI [OF snap_end [OF Nil(2)]] show ?case by blast
next
  case (Cons k ks)
  obtain row where step: "conc_step decode ser ops r c (snap_goto r (SnapRows now ks (rows @ [row])) c)"
    using snap_row_exists [OF wf Cons.prems] by blast
  let ?c = "snap_goto r (SnapRows now ks (rows @ [row])) c"
  obtain rows' where "(work_step decode ser ops)\<^sup>*\<^sup>* ?c (snap_goto r (SnapDone rows') ?c)"
    using Cons.IH [OF conc_reach.step [OF Cons.prems(1) step]] by auto
  moreover have "snap_goto r (SnapDone rows') ?c = snap_goto r (SnapDone rows') c" by (simp add: snap_goto_def)
  ultimately show ?case using work_snapI [OF step] by (metis converse_rtranclp_into_rtranclp)
qed

lemma finite_snapping: "conc_reach decode ser ops e0 c \<Longrightarrow> finite {r. snapping (snaps c r)}"
proof (induction rule: conc_reach.induct)
  case (step c i c')
  from step(2) have "{r. snapping (snaps c' r)} \<subseteq> insert i {r. snapping (snaps c r)}" by cases auto
  then show ?case using step(3) finite_subset by blast
qed (simp add: conc_init_def snapping_def)

definition only_snaps :: "'h conc \<Rightarrow> 'h conc \<Rightarrow> bool" where
  "only_snaps c c' \<longleftrightarrow> sw c' = sw c \<and> tab c' = tab c \<and> pcs c' = pcs c \<and> adds c' = adds c \<and>
     (\<forall>r. \<not> snapping (snaps c r) \<longrightarrow> snaps c' r = snaps c r)"

lemma snapshots_end:
  assumes wf: "engine_wf e0" and "conc_reach decode ser ops e0 c"
  shows "\<exists>c'. (work_step decode ser ops)\<^sup>*\<^sup>* c c' \<and> only_snaps c c' \<and> (\<forall>r. \<not> snapping (snaps c' r))"
  using assms(2)
proof (induction "card {r. snapping (snaps c r)}" arbitrary: c rule: less_induct)
  case less
  show ?case
  proof (cases "\<forall>r. \<not> snapping (snaps c r)")
    case True
    then show ?thesis by (intro exI [of _ c]) (simp add: only_snaps_def)
  next
    case False
    then obtain r where snap: "snapping (snaps c r)" by blast
    then obtain now ks rows where r: "snaps c r = SnapRows now ks rows" "snapping (snaps c r)"
      by (cases "snaps c r") (simp_all add: snapping_def)
    obtain rows' where run: "(work_step decode ser ops)\<^sup>*\<^sup>* c (snap_goto r (SnapDone rows') c)"
      using snap_rows_end [OF wf less.prems r(1)] by blast
    let ?c = "snap_goto r (SnapDone rows') c"
    have "{q. snapping (snaps ?c q)} = {q. snapping (snaps c q)} - {r}" by (auto simp: snapping_def)
    then have "card {q. snapping (snaps ?c q)} < card {q. snapping (snaps c q)}"
      using r(2) finite_snapping [OF less.prems] by (simp only:) (rule card_Diff1_less, simp_all)
    from less.hyps [OF this work_run_reach [OF run less.prems]] obtain c'
      where c': "(work_step decode ser ops)\<^sup>*\<^sup>* ?c c'" "only_snaps ?c c'" "\<forall>r. \<not> snapping (snaps c' r)" by blast
    have "only_snaps c c'" using c'(2) r by (auto simp: only_snaps_def snapping_def split: if_splits)
    with run c' show ?thesis by (meson rtranclp_trans)
  qed
qed

section \<open>The write lock is given back\<close>

lemma others_run:
  assumes i: "\<not> i < length (ports (sw c))" and quiet: "\<forall>r. \<not> snapping (snaps c r)"
  shows "(own_step i)\<^sup>*\<^sup>* (tab c) f \<Longrightarrow> (work_step decode ser ops)\<^sup>*\<^sup>* c (c\<lparr>tab := f\<rparr>)"
proof (induction rule: rtranclp_induct)
  case (step f1 f2)
  have "table_step i (c\<lparr>tab := f1\<rparr>) f2" using step(2) quiet by (simp add: table_step_def own_step_def)
  then have "work_step decode ser ops (c\<lparr>tab := f1\<rparr>) ((c\<lparr>tab := f1\<rparr>)\<lparr>tab := f2\<rparr>)"
    using step(2) i unfolding work_step_def by (intro disjI2 exI [of _ i] exI [of _ f2]) simp
  then show ?case using step(3) by (simp add: rtranclp.rtrancl_into_rtrancl)
qed simp

lemma finished_no_writer: "race_inv f \<Longrightarrow> finished (threads f t) \<Longrightarrow> writer f \<noteq> Some t"
  using finished_not_critical by (auto simp: race_inv_def lock_ok_def)

lemma own_run_writer: "(own_step t)\<^sup>*\<^sup>* f f' \<Longrightarrow> writer f = None \<or> writer f = Some t \<Longrightarrow> writer f' = None \<or> writer f' = Some t"
  by (induction rule: rtranclp_induct) (use fdb_step_writer in \<open>fastforce simp: own_step_def\<close>)+

lemma fwd_run_keeps:
  "(fwd_own decode ser ops i)\<^sup>*\<^sup>* c c' \<Longrightarrow> conc_reach decode ser ops e0 c \<Longrightarrow> writer (tab c) = None \<or> writer (tab c) = Some i \<Longrightarrow>
     \<forall>r. \<not> snapping (snaps c r) \<Longrightarrow>
     conc_reach decode ser ops e0 c' \<and> (writer (tab c') = None \<or> writer (tab c') = Some i) \<and> snaps c' = snaps c"
proof (induction rule: rtranclp_induct)
  case (step c1 c2)
  then have c1: "conc_reach decode ser ops e0 c1" "writer (tab c1) = None \<or> writer (tab c1) = Some i" "snaps c1 = snaps c" by blast+
  have "\<forall>r. \<not> snapping (snaps c1 r)" using c1(3) step.prems(3) by simp
  from fwd_own_keeps [OF c1(1) step(2) c1(2) this] step(2) c1(3) show ?case by (simp add: fwd_own_def)
qed simp

lemma idle_no_writer:
  assumes wf: "engine_wf e0" and reach: "conc_reach decode ser ops e0 c" and i: "i < length (ports e0)" and "\<not> busy c i"
  shows "writer (tab c) \<noteq> Some i"
proof -
  have "pc_ok e0 i (threads (tab c) i) FwdIdle"
    using conc_reach_inv [OF wf reach] i assms(4) by (auto simp: conc_inv_def busy_def)
  then show ?thesis by (intro finished_no_writer [OF conc_reach_race_inv [OF reach]]) simp
qed

lemma lock_released:
  assumes wf: "engine_wf e0" and reach: "conc_reach decode ser ops e0 c" and quiet: "\<forall>r. \<not> snapping (snaps c r)"
  shows "\<exists>c'. (work_step decode ser ops)\<^sup>*\<^sup>* c c' \<and> writer (tab c') = None \<and> snaps c' = snaps c"
proof (cases "writer (tab c)")
  case None
  then show ?thesis by blast
next
  case (Some u)
  have len: "length (ports (sw c)) = length (ports e0)" using same_config_length [OF conc_reach_config [OF reach]] .
  show ?thesis
  proof (cases "u < length (ports e0)")
    case True
    obtain c' where run: "(fwd_own decode ser ops u)\<^sup>*\<^sup>* c c'" "\<not> busy c' u"
      using fwd_run_ends [OF wf True reach _ quiet] Some by blast
    note k = fwd_run_keeps [OF run(1) reach _ quiet]
    with idle_no_writer [OF wf _ True run(2)] Some own_run_work [OF run(1)] show ?thesis by blast
  next
    case False
    obtain f where f: "(own_step u)\<^sup>*\<^sup>* (tab c) f" "finished (threads f u)"
      using own_run_finishes [OF conc_reach_table [OF reach]] Some by blast
    have run: "(work_step decode ser ops)\<^sup>*\<^sup>* c (c\<lparr>tab := f\<rparr>)"
      using f(1) False len by (intro others_run [OF _ quiet]) simp_all
    have "writer f \<noteq> Some u"
      using conc_reach_race_inv [OF work_run_reach [OF run reach]] f(2) by (intro finished_no_writer) simp_all
    then have "writer f = None" using own_run_writer [OF f(1)] Some by blast
    with run show ?thesis by (intro exI [of _ "c\<lparr>tab := f\<rparr>"]) simp
  qed
qed

section \<open>All work ends\<close>

lemma quiet_unlocked:
  assumes wf: "engine_wf e0" and reach: "conc_reach decode ser ops e0 c"
  shows "\<exists>c'. (work_step decode ser ops)\<^sup>*\<^sup>* c c' \<and> writer (tab c') = None \<and> (\<forall>r. \<not> snapping (snaps c' r)) \<and>
     (\<forall>r. \<not> snapping (snaps c r) \<longrightarrow> snaps c' r = snaps c r)"
proof -
  obtain c1 where c1: "(work_step decode ser ops)\<^sup>*\<^sup>* c c1" "only_snaps c c1" "\<forall>r. \<not> snapping (snaps c1 r)"
    using snapshots_end [OF assms] by blast
  obtain c2 where c2: "(work_step decode ser ops)\<^sup>*\<^sup>* c1 c2" "writer (tab c2) = None" "snaps c2 = snaps c1"
    using lock_released [OF wf work_run_reach [OF c1(1) reach] c1(3)] by blast
  show ?thesis
    by (rule exI [of _ c2]) (use c1 c2 rtranclp_trans [OF c1(1) c2(1)] in \<open>simp add: only_snaps_def\<close>)
qed

lemma frame_ends:
  assumes wf: "engine_wf e0" and reach: "conc_reach decode ser ops e0 c" and i: "i < length (ports e0)"
  shows "\<exists>c'. (work_step decode ser ops)\<^sup>*\<^sup>* c c' \<and> \<not> busy c' i"
proof -
  obtain c1 where c1: "(work_step decode ser ops)\<^sup>*\<^sup>* c c1" "writer (tab c1) = None" "\<forall>r. \<not> snapping (snaps c1 r)"
    using quiet_unlocked [OF wf reach] by blast
  obtain c2 where "(fwd_own decode ser ops i)\<^sup>*\<^sup>* c1 c2" "\<not> busy c2 i"
    using fwd_run_ends [OF wf i work_run_reach [OF c1(1) reach] _ c1(3)] c1(2) by blast
  then show ?thesis using c1(1) own_run_work rtranclp_trans by metis
qed

lemma thread_ends:
  assumes wf: "engine_wf e0" and reach: "conc_reach decode ser ops e0 c" and t: "\<not> t < length (ports e0)"
  shows "\<exists>c'. (work_step decode ser ops)\<^sup>*\<^sup>* c c' \<and> finished (threads (tab c') t)"
proof -
  obtain c1 where c1: "(work_step decode ser ops)\<^sup>*\<^sup>* c c1" "writer (tab c1) = None" "\<forall>r. \<not> snapping (snaps c1 r)"
    using quiet_unlocked [OF wf reach] by blast
  note r1 = work_run_reach [OF c1(1) reach]
  obtain f where f: "(own_step t)\<^sup>*\<^sup>* (tab c1) f" "finished (threads f t)"
    using own_run_finishes [OF conc_reach_table [OF r1]] c1(2) by blast
  have "(work_step decode ser ops)\<^sup>*\<^sup>* c1 (c1\<lparr>tab := f\<rparr>)"
    by (rule others_run [OF _ c1(3) f(1)]) (simp add: same_config_length [OF conc_reach_config [OF r1]] t)
  then have "(work_step decode ser ops)\<^sup>*\<^sup>* c (c1\<lparr>tab := f\<rparr>)" using c1(1) rtranclp_trans by metis
  then show ?thesis using f(2) by (intro exI [of _ "c1\<lparr>tab := f\<rparr>"]) simp
qed

lemma snapshot_ends:
  assumes wf: "engine_wf e0" and reach: "conc_reach decode ser ops e0 c" and wait: "snaps c r = SnapWait now"
  shows "\<exists>c' rows. (work_step decode ser ops)\<^sup>*\<^sup>* c c' \<and> snaps c' r = SnapDone rows"
proof -
  obtain c1 where c1: "(work_step decode ser ops)\<^sup>*\<^sup>* c c1" "writer (tab c1) = None"
      "\<forall>r. \<not> snapping (snaps c r) \<longrightarrow> snaps c1 r = snaps c r"
    using quiet_unlocked [OF wf reach] by blast
  note r1 = work_run_reach [OF c1(1) reach]
  have w: "snaps c1 r = SnapWait now" using wait c1(3) by (simp add: snapping_def)
  obtain ks where ks: "set ks = dom (ptable (tab c1))" "distinct ks"
    using finite_distinct_list [of "dom (ptable (tab c1))"] fdb_reach_fin [OF conc_reach_table [OF r1]] by (auto simp: fin_ok_def)
  note step = snap_lock [OF w c1(2) ks, of decode ser ops]
  let ?c = "snap_goto r (SnapRows now ks []) c1"
  obtain rows where "(work_step decode ser ops)\<^sup>*\<^sup>* ?c (snap_goto r (SnapDone rows) ?c)"
    using snap_rows_end [OF wf conc_reach.step [OF r1 step], of r now ks "[]"] by auto
  then have "(work_step decode ser ops)\<^sup>*\<^sup>* c (snap_goto r (SnapDone rows) ?c)"
    using c1(1) work_snapI [OF step] by (meson converse_rtranclp_into_rtranclp rtranclp_trans)
  then show ?thesis by fastforce
qed

section \<open>Properties\<close>

text \<open>
  C11: Nobody waits for ever in the data path. From every reachable state each goroutine can finish the
  frame it is handling, and each snapshot that has been asked for can be finished and return,
  whoever holds the lock of the table and wherever all the others are.
\<close>
theorem concurrent_progress:
  assumes "engine_wf e0" and "conc_reach decode ser ops e0 c"
  shows "(i < length (ports e0) \<longrightarrow> (\<exists>c'. (any_step decode ser ops)\<^sup>*\<^sup>* c c' \<and> \<not> busy c' i)) \<and>
         (snaps c r = SnapWait now \<longrightarrow> (\<exists>c' rows. (any_step decode ser ops)\<^sup>*\<^sup>* c c' \<and> snaps c' r = SnapDone rows))"
  using frame_ends [OF assms, of i] snapshot_ends [OF assms, of r now] work_run_any by blast

theorem concurrent_progress_witness:
  "\<exists>c'. (any_step wire_decode wire_ser mtu_io)\<^sup>*\<^sup>* (start_frame 0 (plain_frame broadcast (station 1)) (conc_init plain_engine)) c' \<and> \<not> busy c' 0"
proof -
  have "example_reach (start_frame 0 (plain_frame broadcast (station 1)) (conc_init plain_engine))"
    by (rule start_frame_reach [OF conc_reach.init]) (simp_all add: busy_def conc_init_def)
  from concurrent_progress [OF example_engines(1) this, of 0] show ?thesis by auto
qed

end
