(* ===== verification/Runs.thy ===== *)
theory Runs
  imports Switch
begin

text \<open>
  Whole runs of an engine and its accounting. An event is a frame received on a port, a tick of the
  collector or a change of the ageing duration; \<open>engine_run\<close> handles a list of them in turn. The
  lemmas lift the one-frame results to every engine that \<open>NewEngine\<close> builds and every list of
  events, and relate the egress counters to the record of writes.
\<close>

section \<open>Egress counters agree with the wire\<close>

definition writes_to :: "nat \<Rightarrow> bool \<Rightarrow> (nat \<times> frame \<times> bool) list \<Rightarrow> frame list" where
  "writes_to j ok ws = map (\<lambda>(k, pkt, b). pkt) (filter (\<lambda>(k, pkt, b). k = j \<and> b = ok) ws)"

lemma writes_to_append [simp]: "writes_to j ok (ws @ ws') = writes_to j ok ws @ writes_to j ok ws'"
  by (simp add: writes_to_def)

lemma writes_to_single [simp]: "writes_to j ok [(k, pkt, b)] = (if k = j \<and> b = ok then [pkt] else [])"
  by (simp add: writes_to_def)

lemma writes_to_Nil [simp]: "writes_to j ok [] = []"
  by (simp add: writes_to_def)

definition stats_agree :: "'h engine \<Rightarrow> bool" where
  "stats_agree e \<longleftrightarrow> (\<forall>j < length (ports e). let s = stats (ports e ! j) in
     txFrames s = of_nat (length (writes_to j True (wire e))) \<and>
     txDrop s = of_nat (length (writes_to j False (wire e))) \<and>
     txBytes s = of_nat (sum_list (map length (writes_to j True (wire e)))))"

definition egress_counters :: "'h port \<Rightarrow> u64 \<times> u64 \<times> u64" where
  "egress_counters p = (txFrames (stats p), txDrop (stats p), txBytes (stats p))"

lemma egress_counters_frame [frame_simps]:
  "egress_counters (count_rx frm p) = egress_counters p"
  "egress_counters (count_drop p) = egress_counters p"
  "egress_counters (count_flood p) = egress_counters p"
  "egress_counters (p\<lparr>io := h\<rparr>) = egress_counters p"
  "egress_counters (p\<lparr>parser := fp\<rparr>) = egress_counters p"
  by (simp_all add: egress_counters_def count_rx_def count_drop_def count_flood_def)

lemma stats_agree_cong:
  assumes "map egress_counters (ports e') = map egress_counters (ports e)" and "wire e' = wire e"
  shows "stats_agree e' = stats_agree e"
proof -
  have len: "length (ports e') = length (ports e)" by (metis assms(1) length_map)
  have "egress_counters (ports e' ! j) = egress_counters (ports e ! j)" if "j < length (ports e)" for j
    using that len arg_cong [OF assms(1), of "\<lambda>xs. xs ! j"] by simp
  then show ?thesis
    unfolding stats_agree_def Let_def len assms(2) egress_counters_def by simp
qed

lemma emit_stats_agree:
  assumes "stats_agree e" and "emit ser ops j fv vid e = Some e'"
  shows "stats_agree e'"
proof -
  have j: "j < length (ports e)" using assms(2) by (auto simp: emit_def nth_opt_def split: if_splits)
  from emit_effect [OF j, of ops ser fv vid] assms(2) obtain ok h pkt where e':
    "wire e' = wire e @ [(j, pkt, ok)]" "same_config e e'"
    "\<forall>k < length (ports e). ports e' ! k =
        (if k = j then (if ok then count_tx pkt else count_txDrop) ((ports e ! j)\<lparr>io := h\<rparr>) else ports e ! k)"
    by auto
  show ?thesis
    using assms(1) same_config_length [OF e'(2)] e'(1,3)
    by (auto simp: stats_agree_def Let_def count_tx_def count_txDrop_def)
qed

lemma stats_agree_ready: "stats_agree (ready decode i frm now vid fv e) = stats_agree e"
  by (rule stats_agree_cong)
    (simp_all add: ready_def received_def Let_def map_ports_upd frame_simps)

lemma forward_stats_agree:
  assumes wf: "engine_wf e" and agree: "stats_agree e" and fwd: "forward decode ser ops i frm now e = Some e'"
  shows "stats_agree e'"
proof (cases "ingress decode (ports e ! i) frm")
  case None
  have "e' = upd_port i count_drop (received decode i frm e)"
    using fwd forward_dropped [OF forward_index [OF fwd] None] by simp
  then have "stats_agree e' = stats_agree e"
    by (intro stats_agree_cong) (simp_all add: received_def map_ports_upd frame_simps)
  with agree show ?thesis by simp
next
  case (Some a)
  then obtain vid fv where acc: "ingress decode (ports e ! i) frm = Some (vid, fv)" by (cases a) auto
  show ?thesis
    by (rule foldM_invariant [where I = stats_agree, OF emit_stats_agree])
      (use agree fwd forward_ready [OF wf forward_index [OF fwd] acc] in \<open>simp_all add: stats_agree_ready\<close>)
qed

section \<open>Events and runs\<close>

datatype event = Frame nat frame i64 | GcTick i64 | AgeingSet i64

fun engine_step ::
  "decoder \<Rightarrow> serializer \<Rightarrow> 'h PacketIO \<Rightarrow> event \<Rightarrow> 'h engine \<Rightarrow> 'h engine option" where
  "engine_step decode ser ops (Frame i frm now) e = forward decode ser ops i frm now e"
| "engine_step decode ser ops (GcTick now) e = Some (gc_tick e now)"
| "engine_step decode ser ops (AgeingSet d) e = Some (SetAgeing e d)"

definition engine_run ::
  "decoder \<Rightarrow> serializer \<Rightarrow> 'h PacketIO \<Rightarrow> event list \<Rightarrow> 'h engine \<Rightarrow> 'h engine option" where
  "engine_run decode ser ops evs e = foldM (engine_step decode ser ops) evs e"

fun event_ok :: "nat \<Rightarrow> event \<Rightarrow> bool" where
  "event_ok n (Frame i frm now) = (i < n)"
| "event_ok n (GcTick now) = True"
| "event_ok n (AgeingSet d) = True"

lemma engine_run_snoc:
  "engine_run decode ser ops (evs @ [ev]) e =
     (case engine_run decode ser ops evs e of None \<Rightarrow> None | Some e' \<Rightarrow> engine_step decode ser ops ev e')"
  by (auto simp: engine_run_def foldM_append split: option.split)

lemma same_config_fdb: "same_config e (e\<lparr>fdb := f\<rparr>)"
  by (simp add: same_config_def)

lemma gc_tick_wf: "engine_wf e \<Longrightarrow> engine_wf (gc_tick e now)"
  unfolding gc_tick_def
  by (rule same_config_wf [OF same_config_fdb]) (simp_all add: engine_wf_def ft.confined_expire)

lemma SetAgeing_wf: "engine_wf e \<Longrightarrow> engine_wf (SetAgeing e d)"
  unfolding SetAgeing_def
  by (rule same_config_wf [OF same_config_fdb]) (simp_all add: engine_wf_def ft.confined_def)

definition run_inv :: "nat \<Rightarrow> 'h engine \<Rightarrow> bool" where
  "run_inv n e \<longleftrightarrow> engine_wf e \<and> stats_agree e \<and> length (ports e) = n"

lemma engine_step_inv:
  assumes "run_inv n e" and "event_ok n ev"
  shows "\<exists>e'. engine_step decode ser ops ev e = Some e' \<and> run_inv n e'"
proof (cases ev)
  case (Frame i frm now)
  then have i: "i < length (ports e)" using assms by (simp add: run_inv_def)
  then obtain e' where e': "forward decode ser ops i frm now e = Some e'" "engine_wf e'" "same_config e e'"
    using forward_step [of e i decode ser ops frm now] assms(1) by (auto simp: run_inv_def)
  have "stats_agree e'" using forward_stats_agree [OF _ _ e'(1)] assms(1) by (simp add: run_inv_def)
  with e' show ?thesis
    using Frame assms(1) same_config_length [OF e'(3)] by (simp add: run_inv_def)
next
  case (GcTick now)
  have "stats_agree (gc_tick e now) = stats_agree e"
    by (rule stats_agree_cong) (simp_all add: gc_tick_def)
  with assms GcTick show ?thesis by (simp add: run_inv_def gc_tick_wf) (simp add: gc_tick_def)
next
  case (AgeingSet d)
  have "stats_agree (SetAgeing e d) = stats_agree e"
    by (rule stats_agree_cong) (simp_all add: SetAgeing_def)
  with assms AgeingSet show ?thesis by (simp add: run_inv_def SetAgeing_wf) (simp add: SetAgeing_def)
qed

lemma run_inv_NewEngine: "NewEngine cfg ios = Inr e \<Longrightarrow> run_inv (length cfg) e"
  by (auto simp: NewEngine_Inr_iff run_inv_def engine_wf_built)
    (auto simp: built_def stats_agree_def nth_ports_from zeroStats_def Let_def)

lemma engine_run_inv:
  "run_inv n e \<Longrightarrow> \<forall>ev \<in> set evs. event_ok n ev \<Longrightarrow>
     \<exists>e'. engine_run decode ser ops evs e = Some e' \<and> run_inv n e'"
  unfolding engine_run_def by (rule foldM_total) (auto intro: engine_step_inv)

text \<open>
  C3: Every run is safe. From any engine NewEngine builds, any sequence of received frames,
  collector ticks and ageing changes is handled without a panic. The engine stays well-formed,
  and on every port the counters of frames sent, bytes sent and failed writes equal, modulo
  2^64, what was actually written to that port since the start.
\<close>

theorem runs_are_safe:
  assumes "NewEngine cfg ios = Inr e0" and "\<forall>ev \<in> set evs. event_ok (length cfg) ev"
  shows "\<exists>e. engine_run decode ser ops evs e0 = Some e \<and> engine_wf e \<and> stats_agree e"
  using engine_run_inv [OF run_inv_NewEngine [OF assms(1)] assms(2), of decode ser ops]
  by (auto simp: run_inv_def)

theorem runs_are_safe_witness:
  "\<exists>e. engine_run wire_decode wire_ser mtu_io
      [AgeingSet 300, Frame 3 (tagged_frame broadcast (station 4) 10) 7, GcTick 8, Frame 0 (plain_frame (station 4) (station 1)) 9]
      vlan_engine = Some e \<and> engine_wf e \<and> stats_agree e"
  by (rule runs_are_safe [of example_vlan_cfg "[[], [], [], [], []]"])
    (simp_all add: NewEngine_Inr_iff acceptable_examples vlan_engine_def)

section \<open>Where stations come from\<close>

lemma bound_port_learn_source:
  "bound_port (learn_source f vid i fv now) v m = Some p \<Longrightarrow>
     bound_port f v m = Some p \<or> (v = vid \<and> m = src fv \<and> p = i)"
  by (auto simp: learn_source_def ft.binding_learn split: if_splits)

definition taught_by ::
  "decoder \<Rightarrow> serializer \<Rightarrow> 'h PacketIO \<Rightarrow> event list \<Rightarrow> 'h engine \<Rightarrow> u16 \<Rightarrow> mac \<Rightarrow> nat \<Rightarrow> bool" where
  "taught_by decode ser ops evs e0 v m p \<longleftrightarrow>
     (\<exists>pre frm t post e fv. evs = pre @ Frame p frm t # post \<and>
        engine_run decode ser ops pre e0 = Some e \<and>
        ingress decode (ports e ! p) frm = Some (v, fv) \<and> src fv = m)"

lemma taught_by_snoc: "taught_by decode ser ops evs e0 v m p \<Longrightarrow> taught_by decode ser ops (evs @ [ev]) e0 v m p"
  unfolding taught_by_def by (metis append.assoc append_Cons)

lemma taught_by_last:
  "engine_run decode ser ops evs e0 = Some e \<Longrightarrow> ingress decode (ports e ! p) frm = Some (v, fv) \<Longrightarrow>
     taught_by decode ser ops (evs @ [Frame p frm t]) e0 v (src fv) p"
  unfolding taught_by_def by blast

lemma station_origin_inv:
  assumes "run_inv n e0" and "fdb e0 = newFDB" and "\<forall>ev \<in> set evs. event_ok n ev"
    and "engine_run decode ser ops evs e0 = Some e" and "bound_port (fdb e) v m = Some p"
  shows "taught_by decode ser ops evs e0 v m p"
  using assms(3-5)
proof (induction evs arbitrary: e rule: rev_induct)
  case Nil
  then show ?case using assms(2) by (simp add: engine_run_def)
next
  case (snoc ev evs)
  then obtain e1 where e1: "engine_run decode ser ops evs e0 = Some e1" "engine_step decode ser ops ev e1 = Some e"
    by (auto simp: engine_run_snoc split: option.splits)
  have wf: "engine_wf e1"
    using engine_run_inv [OF assms(1), of evs decode ser ops] snoc.prems(1) e1(1) by (auto simp: run_inv_def)
  have keep: "taught_by decode ser ops (evs @ [ev]) e0 v m p" if "bound_port (fdb e1) v m = Some p"
    using snoc.IH [OF _ e1(1) that] snoc.prems(1) by (intro taught_by_snoc) simp
  show ?case
  proof (cases ev)
    case (Frame i frm now)
    with e1(2) have "forward decode ser ops i frm now e1 = Some e" by simp
    with wf show ?thesis
    proof (cases rule: forward_Some_cases)
      case dropped
      with snoc.prems(3) keep show ?thesis by simp
    next
      case (accepted vid fv ws)
      then have "bound_port (fdb e1) v m = Some p \<or> (v = vid \<and> m = src fv \<and> p = i)"
        using snoc.prems(3) by (simp add: bound_port_learn_source)
      with keep taught_by_last [OF e1(1)] accepted(1) Frame show ?thesis by blast
    qed
  next
    case (GcTick now)
    then have "bound_port (reap (fdb e1) now) v m = Some p"
      using e1(2) snoc.prems(3) by (auto simp: gc_tick_def)
    then show ?thesis by (rule keep [OF ft.binding_expire [OF TrueI]])
  next
    case (AgeingSet d)
    with e1(2) snoc.prems(3) keep show ?thesis by (auto simp: SetAgeing_def)
  qed
qed

text \<open>
  C4: No station is invented. In every run from construction, when the table resolves an address
  in a VLAN to a port, then some earlier frame with that source address was received on that
  very port and classified to that very VLAN.
\<close>

theorem lookup_has_origin:
  assumes "NewEngine cfg ios = Inr e0" and "\<forall>ev \<in> set evs. event_ok (length cfg) ev"
    and "engine_run decode ser ops evs e0 = Some e" and "Lookup (fdb e) v m now = Some p"
  shows "taught_by decode ser ops evs e0 v m p"
proof (rule station_origin_inv [OF run_inv_NewEngine [OF assms(1)] _ assms(2,3)])
  show "fdb e0 = newFDB" using assms(1) by (auto simp: NewEngine_Inr_iff built_def)
  show "bound_port (fdb e) v m = Some p" by (rule ft.lookup_binding [OF TrueI assms(4)])
qed

theorem lookup_has_origin_witness:
  "taught_by wire_decode wire_ser mtu_io [Frame 3 (tagged_frame broadcast (station 4) 10) 7] vlan_engine 10 (station 4) 3"
proof -
  have run: "map_option (\<lambda>e. Lookup (fdb e) 10 (station 4) 8)
      (engine_run wire_decode wire_ser mtu_io [Frame 3 (tagged_frame broadcast (station 4) 10) 7] vlan_engine) = Some (Some 3)"
    by code_simp
  then obtain e where e: "engine_run wire_decode wire_ser mtu_io [Frame 3 (tagged_frame broadcast (station 4) 10) 7] vlan_engine = Some e"
    "Lookup (fdb e) 10 (station 4) 8 = Some 3" by auto
  show ?thesis
    by (rule lookup_has_origin [of example_vlan_cfg "[[], [], [], [], []]", OF _ _ e])
      (simp_all add: NewEngine_Inr_iff acceptable_examples vlan_engine_def)
qed

end
