(* ===== verification/Lifecycle.thy ===== *)
theory Lifecycle
  imports Runs Switch
begin

text \<open>
  Start, Stop and the goroutines between them (\<open>Engine.Start\<close>, \<open>Engine.Stop\<close>, \<open>Engine.gcLoop\<close> in
  \<open>internal/goswitch/engine.go\<close>, \<open>Engine.rxLoop\<close> in \<open>afpacket.go\<close>) as a step relation.

  A goroutine of \<open>rxLoop\<close> is a port and a program counter; it checks \<open>done\<close>, reads, forwards. The
  handle is in use between the steps that enter and leave \<open>RxRead\<close> and while a frame is being
  forwarded. Start adds to the wait group and launches, one statement a step; it may be called any
  number of times. Stop runs under \<open>stopOnce\<close>: the first caller closes \<open>done\<close>, waits for the
  group and closes the handles one by one; later callers block until it has finished. A read
  returns whatever the transport gives: a frame, a time-out or an error. Handling one frame is the
  atomic \<open>forward\<close> here; theory \<open>System\<close> puts the interleaved one of theory \<open>Concur\<close> in its place.

  The wait group is the \<open>sync.WaitGroup\<close> of Go with its panics. Wait returns at once when the counter
  is zero and parks otherwise; the Done that brings the counter to zero wakes the one parked, who on
  waking looks at the counter again and panics when an Add has come in between (``WaitGroup is reused
  before previous Wait has returned''). An Add from zero that meets the waiter before the Done has taken
  it off the list panics itself (``Add called concurrently with Wait''); both moments are one state
  here, \<open>StopWoken\<close>, in which an Add may go either way. A panic ends the process; the other
  goroutines are let run on, which only adds behaviour.

  Kept for the proofs: how often \<open>done\<close> and each handle were closed (a second close of a channel
  panics), and whether a Start and the body of a Stop have ever been under way together.
\<close>

section \<open>The model\<close>

datatype rx_pc = RxCheck | RxRead | RxForward frame | RxExited

datatype start_pc = StartIdle | StartAdd nat | StartGo nat | StartAddGc | StartGoGc | StartPanic

datatype stop_pc =
    StopOutside
  | StopClose
  | StopWait
  | StopParked
  | StopWoken
  | StopHandles nat
  | StopBlocked
  | StopReturned
  | StopPanic

datatype once = OnceFresh | OnceBusy | OnceDone

record 'h life =
  eng :: "'h engine"
  rxs :: "(nat \<times> rx_pc) list"
  gcs :: nat
  starter :: start_pc
  stoppers :: "nat \<Rightarrow> stop_pc"
  stopOnce :: once
  wg :: nat
  done_closes :: nat
  handle_closes :: "nat \<Rightarrow> nat"
  overlap :: bool

definition rx_goto :: "nat \<Rightarrow> rx_pc \<Rightarrow> 'h life \<Rightarrow> 'h life" where
  "rx_goto g pc s = s\<lparr>rxs := (rxs s)[g := (fst (rxs s ! g), pc)]\<rparr>"

definition stop_goto :: "nat \<Rightarrow> stop_pc \<Rightarrow> 'h life \<Rightarrow> 'h life" where
  "stop_goto t pc s = s\<lparr>stoppers := (stoppers s)(t := pc)\<rparr>"

definition set_io :: "nat \<Rightarrow> 'h \<Rightarrow> 'h life \<Rightarrow> 'h life" where
  "set_io i h s = s\<lparr>eng := upd_port i (\<lambda>p. p\<lparr>io := h\<rparr>) (eng s)\<rparr>"

text \<open>Done: the one that brings the counter to zero wakes whoever is parked in Wait.\<close>

definition wake :: "stop_pc \<Rightarrow> stop_pc" where
  "wake pc = (if pc = StopParked then StopWoken else pc)"

definition wg_done :: "'h life \<Rightarrow> 'h life" where
  "wg_done s = s\<lparr>wg := wg s - 1, stoppers := (if wg s - 1 = 0 then wake \<circ> stoppers s else stoppers s)\<rparr>"

definition rx_exit :: "nat \<Rightarrow> 'h life \<Rightarrow> 'h life" where
  "rx_exit g s = wg_done (rx_goto g RxExited s)"

text \<open>
  The steps of control: launching, the checks of \<open>done\<close>, reads that give no frame, leaving, and Stop.
\<close>

inductive ctl_step :: "'h PacketIO \<Rightarrow> 'h life \<Rightarrow> 'h life \<Rightarrow> bool" for ops :: "'h PacketIO"
where
  start_call: "starter s = StartIdle \<Longrightarrow>
     ctl_step ops s (s\<lparr>starter := StartAdd 0, overlap := overlap s \<or> stopOnce s = OnceBusy\<rparr>)"
| start_add: "starter s = StartAdd i \<Longrightarrow> i < length (ports (eng s)) \<Longrightarrow>
     ctl_step ops s (s\<lparr>starter := StartGo i, wg := wg s + 1\<rparr>)"
| start_go: "starter s = StartGo i \<Longrightarrow>
     ctl_step ops s (s\<lparr>starter := StartAdd (Suc i), rxs := rxs s @ [(i, RxCheck)]\<rparr>)"
| start_ports_done: "starter s = StartAdd i \<Longrightarrow> \<not> i < length (ports (eng s)) \<Longrightarrow>
     ctl_step ops s (s\<lparr>starter := StartAddGc\<rparr>)"
| start_add_gc: "starter s = StartAddGc \<Longrightarrow>
     ctl_step ops s (s\<lparr>starter := StartGoGc, wg := wg s + 1\<rparr>)"
| start_go_gc: "starter s = StartGoGc \<Longrightarrow>
     ctl_step ops s (s\<lparr>starter := StartIdle, gcs := gcs s + 1\<rparr>)"
| start_misuse: "starter s = StartAdd i \<and> i < length (ports (eng s)) \<or> starter s = StartAddGc \<Longrightarrow>
     wg s = 0 \<Longrightarrow> stoppers s t = StopWoken \<Longrightarrow>
     ctl_step ops s (s\<lparr>starter := StartPanic, wg := wg s + 1\<rparr>)"
| rx_done: "g < length (rxs s) \<Longrightarrow> rxs s ! g = (i, RxCheck) \<Longrightarrow> 0 < done_closes s \<Longrightarrow>
     ctl_step ops s (rx_exit g s)"
| rx_continue: "g < length (rxs s) \<Longrightarrow> rxs s ! g = (i, RxCheck) \<Longrightarrow> done_closes s = 0 \<Longrightarrow>
     ctl_step ops s (rx_goto g RxRead s)"
| rx_timeout: "g < length (rxs s) \<Longrightarrow> rxs s ! g = (i, RxRead) \<Longrightarrow>
     ReadPacketData ops (io (ports (eng s) ! i)) = (ReadTimeout, h) \<Longrightarrow>
     ctl_step ops s (rx_goto g RxCheck (set_io i h s))"
| rx_error: "g < length (rxs s) \<Longrightarrow> rxs s ! g = (i, RxRead) \<Longrightarrow>
     ReadPacketData ops (io (ports (eng s) ! i)) = (ReadError, h) \<Longrightarrow>
     ctl_step ops s (rx_exit g (set_io i h s))"
| gc_done: "0 < gcs s \<Longrightarrow> 0 < done_closes s \<Longrightarrow>
     ctl_step ops s (wg_done (s\<lparr>gcs := gcs s - 1\<rparr>))"
| stop_first: "stoppers s t = StopOutside \<Longrightarrow> stopOnce s = OnceFresh \<Longrightarrow>
     ctl_step ops s (stop_goto t StopClose (s\<lparr>stopOnce := OnceBusy, overlap := overlap s \<or> starter s \<noteq> StartIdle\<rparr>))"
| stop_later: "stoppers s t = StopOutside \<Longrightarrow> stopOnce s = OnceBusy \<Longrightarrow>
     ctl_step ops s (stop_goto t StopBlocked s)"
| stop_noop: "stoppers s t = StopOutside \<Longrightarrow> stopOnce s = OnceDone \<Longrightarrow>
     ctl_step ops s (stop_goto t StopReturned s)"
| stop_unblock: "stoppers s t = StopBlocked \<Longrightarrow> stopOnce s = OnceDone \<Longrightarrow>
     ctl_step ops s (stop_goto t StopReturned s)"
| stop_close: "stoppers s t = StopClose \<Longrightarrow>
     ctl_step ops s (stop_goto t StopWait (s\<lparr>done_closes := done_closes s + 1\<rparr>))"
| stop_wait: "stoppers s t = StopWait \<Longrightarrow> wg s = 0 \<Longrightarrow>
     ctl_step ops s (stop_goto t (StopHandles 0) s)"
| stop_park: "stoppers s t = StopWait \<Longrightarrow> 0 < wg s \<Longrightarrow> ctl_step ops s (stop_goto t StopParked s)"
| stop_woken: "stoppers s t = StopWoken \<Longrightarrow> wg s = 0 \<Longrightarrow>
     ctl_step ops s (stop_goto t (StopHandles 0) s)"
| stop_reused: "stoppers s t = StopWoken \<Longrightarrow> 0 < wg s \<Longrightarrow> ctl_step ops s (stop_goto t StopPanic s)"
| stop_handle: "stoppers s t = StopHandles j \<Longrightarrow> j < length (ports (eng s)) \<Longrightarrow>
     ctl_step ops s (stop_goto t (StopHandles (Suc j))
       ((set_io j (CloseIO ops (io (ports (eng s) ! j))) s)
          \<lparr>handle_closes := (handle_closes s)(j := handle_closes s j + 1)\<rparr>))"
| stop_end: "stoppers s t = StopHandles j \<Longrightarrow> \<not> j < length (ports (eng s)) \<Longrightarrow>
     ctl_step ops s (stop_goto t StopReturned (s\<lparr>stopOnce := OnceDone\<rparr>))"

text \<open>The switch: steps of control, frames, the collector's ticks and changes of the ageing duration.\<close>

inductive life_step ::
  "decoder \<Rightarrow> serializer \<Rightarrow> 'h PacketIO \<Rightarrow> 'h life \<Rightarrow> 'h life \<Rightarrow> bool"
  for decode :: decoder and ser :: serializer and ops :: "'h PacketIO"
where
  control: "ctl_step ops s s' \<Longrightarrow> life_step decode ser ops s s'"
| rx_data: "g < length (rxs s) \<Longrightarrow> rxs s ! g = (i, RxRead) \<Longrightarrow>
     ReadPacketData ops (io (ports (eng s) ! i)) = (ReadData frm, h) \<Longrightarrow>
     life_step decode ser ops s (rx_goto g (RxForward frm) (set_io i h s))"
| rx_forward: "g < length (rxs s) \<Longrightarrow> rxs s ! g = (i, RxForward frm) \<Longrightarrow>
     forward decode ser ops i frm now (eng s) = Some e \<Longrightarrow>
     life_step decode ser ops s (rx_goto g RxCheck (s\<lparr>eng := e\<rparr>))"
| gc_reap: "0 < gcs s \<Longrightarrow> life_step decode ser ops s (s\<lparr>eng := gc_tick (eng s) now\<rparr>)"
| age_set: "life_step decode ser ops s (s\<lparr>eng := SetAgeing (eng s) d\<rparr>)"

definition idle_life :: "'h engine \<Rightarrow> 'h life" where
  "idle_life e = \<lparr>eng = e, rxs = [], gcs = 0, starter = StartIdle, stoppers = (\<lambda>_. StopOutside),
     stopOnce = OnceFresh, wg = 0, done_closes = 0, handle_closes = (\<lambda>_. 0), overlap = False\<rparr>"

inductive life_reach :: "decoder \<Rightarrow> serializer \<Rightarrow> 'h PacketIO \<Rightarrow> 'h engine \<Rightarrow> 'h life \<Rightarrow> bool"
  for decode :: decoder and ser :: serializer and ops :: "'h PacketIO" and e0 :: "'h engine"
where
  init: "life_reach decode ser ops e0 (idle_life e0)"
| step: "life_reach decode ser ops e0 s \<Longrightarrow> life_step decode ser ops s s' \<Longrightarrow> life_reach decode ser ops e0 s'"

section \<open>The invariant\<close>

definition rx_live :: "rx_pc \<Rightarrow> bool" where
  "rx_live pc \<longleftrightarrow> pc \<noteq> RxExited"

definition uses_handle :: "rx_pc \<Rightarrow> bool" where
  "uses_handle pc \<longleftrightarrow> (case pc of RxRead \<Rightarrow> True | RxForward frm \<Rightarrow> True | _ \<Rightarrow> False)"

definition live_count :: "'h life \<Rightarrow> nat" where
  "live_count s = length (filter (\<lambda>r. rx_live (snd r)) (rxs s)) + gcs s +
     (case starter s of StartGo i \<Rightarrow> 1 | StartGoGc \<Rightarrow> 1 | StartPanic \<Rightarrow> 1 | _ \<Rightarrow> 0)"

text \<open>Who runs the body of \<open>stopOnce\<close>, and how far the closing of handles has got.\<close>

definition in_once :: "stop_pc \<Rightarrow> bool" where
  "in_once pc \<longleftrightarrow> pc \<notin> {StopOutside, StopBlocked, StopReturned}"

definition closed_upto :: "'h life \<Rightarrow> nat \<Rightarrow> bool" where
  "closed_upto s n \<longleftrightarrow> (\<forall>j. handle_closes s j = (if j < n then 1 else 0))"

definition no_use :: "'h life \<Rightarrow> bool" where
  "no_use s \<longleftrightarrow> (\<forall>r \<in> set (rxs s). \<not> uses_handle (snd r))"

definition body_ok :: "'h life \<Rightarrow> stop_pc \<Rightarrow> bool" where
  "body_ok s pc =
     (case pc of
        StopClose \<Rightarrow> done_closes s = 0 \<and> closed_upto s 0
      | StopWait \<Rightarrow> done_closes s = 1 \<and> closed_upto s 0
      | StopParked \<Rightarrow> done_closes s = 1 \<and> closed_upto s 0 \<and> 0 < wg s
      | StopWoken \<Rightarrow> done_closes s = 1 \<and> closed_upto s 0
      | StopPanic \<Rightarrow> done_closes s = 1 \<and> closed_upto s 0
      | StopHandles j \<Rightarrow> done_closes s = 1 \<and> closed_upto s j \<and> j \<le> length (ports (eng s)) \<and> no_use s
      | _ \<Rightarrow> False)"

definition once_ok :: "'h life \<Rightarrow> bool" where
  "once_ok s \<longleftrightarrow>
     (case stopOnce s of
        OnceFresh \<Rightarrow> (\<forall>t. stoppers s t = StopOutside) \<and> done_closes s = 0 \<and> closed_upto s 0
      | OnceBusy \<Rightarrow>
          (\<exists>t. (\<forall>u. u \<noteq> t \<longrightarrow> stoppers s u = StopOutside \<or> stoppers s u = StopBlocked) \<and>
               body_ok s (stoppers s t))
      | OnceDone \<Rightarrow> done_closes s = 1 \<and> closed_upto s (length (ports (eng s))) \<and> no_use s \<and>
          (\<forall>t. \<not> in_once (stoppers s t)))"

definition life_inv :: "'h engine \<Rightarrow> 'h life \<Rightarrow> bool" where
  "life_inv e0 s \<longleftrightarrow> engine_wf (eng s) \<and> same_config e0 (eng s) \<and>
     wg s = live_count s \<and> (\<forall>r \<in> set (rxs s). fst r < length (ports e0)) \<and>
     (case starter s of StartGo i \<Rightarrow> i < length (ports e0) | _ \<Rightarrow> True) \<and> once_ok s"

lemma rx_goto_sel [simp]:
  "eng (rx_goto g pc s) = eng s" "gcs (rx_goto g pc s) = gcs s" "starter (rx_goto g pc s) = starter s"
  "stoppers (rx_goto g pc s) = stoppers s" "stopOnce (rx_goto g pc s) = stopOnce s" "wg (rx_goto g pc s) = wg s"
  "done_closes (rx_goto g pc s) = done_closes s" "handle_closes (rx_goto g pc s) = handle_closes s"
  "overlap (rx_goto g pc s) = overlap s"
  "rxs (rx_goto g pc s) = (rxs s)[g := (fst (rxs s ! g), pc)]"
  by (simp_all add: rx_goto_def)

lemma stop_goto_sel [simp]:
  "eng (stop_goto t pc s) = eng s" "gcs (stop_goto t pc s) = gcs s" "starter (stop_goto t pc s) = starter s"
  "stoppers (stop_goto t pc s) = (stoppers s)(t := pc)" "stopOnce (stop_goto t pc s) = stopOnce s"
  "wg (stop_goto t pc s) = wg s" "done_closes (stop_goto t pc s) = done_closes s"
  "overlap (stop_goto t pc s) = overlap s"
  "handle_closes (stop_goto t pc s) = handle_closes s" "rxs (stop_goto t pc s) = rxs s"
  by (simp_all add: stop_goto_def)

lemma set_io_sel [simp]:
  "eng (set_io i h s) = upd_port i (\<lambda>p. p\<lparr>io := h\<rparr>) (eng s)" "gcs (set_io i h s) = gcs s"
  "starter (set_io i h s) = starter s" "stoppers (set_io i h s) = stoppers s" "stopOnce (set_io i h s) = stopOnce s"
  "wg (set_io i h s) = wg s" "done_closes (set_io i h s) = done_closes s"
  "overlap (set_io i h s) = overlap s"
  "handle_closes (set_io i h s) = handle_closes s" "rxs (set_io i h s) = rxs s"
  by (simp_all add: set_io_def)

lemma wg_done_sel [simp]:
  "eng (wg_done s) = eng s" "gcs (wg_done s) = gcs s" "starter (wg_done s) = starter s" "stopOnce (wg_done s) = stopOnce s"
  "stoppers (wg_done s) = (if wg s - 1 = 0 then wake \<circ> stoppers s else stoppers s)" "wg (wg_done s) = wg s - 1"
  "done_closes (wg_done s) = done_closes s" "handle_closes (wg_done s) = handle_closes s" "rxs (wg_done s) = rxs s"
  "overlap (wg_done s) = overlap s"
  by (simp_all add: wg_done_def)

lemma wake_simps [simp]:
  "wake StopParked = StopWoken" "pc \<noteq> StopParked \<Longrightarrow> wake pc = pc" "wake (wake pc) = wake pc" "in_once (wake pc) = in_once pc"
  by (simp_all add: wake_def in_once_def)

lemma length_filter_update:
  "g < length xs \<Longrightarrow> length (filter P (xs[g := x])) + (if P (xs ! g) then 1 else 0) =
     length (filter P xs) + (if P x then 1 else (0::nat))"
proof (induction xs arbitrary: g)
  case (Cons y ys)
  then show ?case by (cases g) auto
qed simp

lemma filter_update_eq:
  "g < length xs \<Longrightarrow> P (xs ! g) \<Longrightarrow> P x \<Longrightarrow> length (filter P (xs[g := x])) = length (filter P xs)"
  "g < length xs \<Longrightarrow> P (xs ! g) \<Longrightarrow> \<not> P x \<Longrightarrow> length (filter P (xs[g := x])) = length (filter P xs) - 1"
  using length_filter_update [of g xs P x] by simp_all

lemma live_pos: "g < length (rxs s) \<Longrightarrow> rx_live (snd (rxs s ! g)) \<Longrightarrow> 0 < length (filter (\<lambda>r. rx_live (snd r)) (rxs s))"
  using nth_mem [of g "rxs s"] by (auto simp: length_greater_0_conv filter_empty_conv simp del: length_0_conv)

lemma live_count_goto [simp]:
  "g < length (rxs s) \<Longrightarrow> rx_live (snd (rxs s ! g)) \<Longrightarrow> rx_live pc \<Longrightarrow> live_count (rx_goto g pc s) = live_count s"
  by (simp add: live_count_def filter_update_eq)

lemma live_count_exit:
  "g < length (rxs s) \<Longrightarrow> rx_live (snd (rxs s ! g)) \<Longrightarrow> live_count (rx_goto g RxExited s) = live_count s - 1"
  using live_pos [of g s]
  by (simp add: live_count_def filter_update_eq rx_live_def del: length_0_conv length_greater_0_conv)

lemma live_count_other [simp]:
  "live_count (s\<lparr>eng := e\<rparr>) = live_count s" "live_count (s\<lparr>wg := w\<rparr>) = live_count s"
  "live_count (set_io i h s) = live_count s" "live_count (stop_goto t pc s) = live_count s"
  "live_count (s\<lparr>handle_closes := hc\<rparr>) = live_count s" "live_count (s\<lparr>done_closes := dc\<rparr>) = live_count s"
  "live_count (s\<lparr>stopOnce := o1\<rparr>) = live_count s" "live_count (wg_done s) = live_count s"
  "live_count (s\<lparr>overlap := ov\<rparr>) = live_count s"
  by (simp_all add: live_count_def)

lemma no_use_goto:
  "no_use s \<Longrightarrow> \<not> uses_handle pc \<Longrightarrow> no_use (rx_goto g pc s)"
  unfolding no_use_def using set_update_subset_insert [of "rxs s" g "(fst (rxs s ! g), pc)"] by auto

lemma no_useD: "no_use s \<Longrightarrow> g < length (rxs s) \<Longrightarrow> rxs s ! g = (i, pc) \<Longrightarrow> \<not> uses_handle pc"
  unfolding no_use_def by (metis nth_mem snd_conv)

lemma no_use_cong: "rxs s' = rxs s \<Longrightarrow> no_use s' = no_use s"
  by (simp add: no_use_def)

lemma once_ok_cong:
  assumes "once_ok s" and "stopOnce s' = stopOnce s" and "stoppers s' = stoppers s"
    and "done_closes s' = done_closes s" and "handle_closes s' = handle_closes s"
    and "length (ports (eng s')) = length (ports (eng s))"
    and "no_use s \<Longrightarrow> 0 < done_closes s \<Longrightarrow> no_use s'" and "wg s \<le> wg s'"
  shows "once_ok s'"
proof (cases "stopOnce s")
  case OnceFresh
  with assms show ?thesis by (simp add: once_ok_def closed_upto_def)
next
  case OnceBusy
  then obtain t where others: "\<forall>u. u \<noteq> t \<longrightarrow> stoppers s u = StopOutside \<or> stoppers s u = StopBlocked"
    and pc: "body_ok s (stoppers s t)"
    using assms(1) by (auto simp: once_ok_def)
  have "body_ok s' (stoppers s' t)"
    using pc assms(3-8) by (cases "stoppers s t") (simp_all add: body_ok_def closed_upto_def)
  with OnceBusy others assms(2,3) show ?thesis by (auto simp: once_ok_def)
next
  case OnceDone
  with assms show ?thesis by (simp add: once_ok_def closed_upto_def)
qed

lemma body_ok_wg_done: "body_ok s pc \<Longrightarrow> body_ok (wg_done s) (if wg s - 1 = 0 then wake pc else pc)"
  by (cases pc) (auto simp: body_ok_def closed_upto_def no_use_def)

lemma once_ok_wg_done: "once_ok s \<Longrightarrow> once_ok (wg_done s)"
proof (cases "stopOnce s")
  case OnceBusy
  moreover assume "once_ok s"
  ultimately obtain t where "\<forall>u. u \<noteq> t \<longrightarrow> stoppers s u = StopOutside \<or> stoppers s u = StopBlocked"
    and "body_ok s (stoppers s t)" by (auto simp: once_ok_def)
  with OnceBusy body_ok_wg_done [of s "stoppers s t"] show ?thesis
    by (auto simp: once_ok_def intro!: exI [of _ t])
qed (auto simp: once_ok_def closed_upto_def no_use_def)

lemma same_config_set_io: "same_config e (upd_port i (\<lambda>p. p\<lparr>io := h\<rparr>) e)"
  by (rule same_config_upd_port) (simp add: port_cfg_def)

lemma wf_set_io: "engine_wf e \<Longrightarrow> engine_wf (upd_port i (\<lambda>p. p\<lparr>io := h\<rparr>) e)"
  by (rule same_config_wf [OF same_config_set_io]) (simp_all add: engine_wf_def)

text \<open>The two kinds of steps: a goroutine moves, or a Stop moves.\<close>

lemma rx_step_inv:
  assumes inv: "life_inv e0 s" and g: "g < length (rxs s)" "rxs s ! g = (i, pc)" "pc \<noteq> RxExited"
    and eng: "engine_wf e" "same_config (eng s) e" and pc': "pc' \<noteq> RxExited"
    and use: "uses_handle pc' \<Longrightarrow> uses_handle pc \<or> done_closes s = 0"
  shows "life_inv e0 (rx_goto g pc' (s\<lparr>eng := e\<rparr>))"
proof -
  have len: "length (ports e) = length (ports (eng s))" by (rule same_config_length [OF eng(2)])
  have "once_ok (rx_goto g pc' (s\<lparr>eng := e\<rparr>))"
  proof (rule once_ok_cong [of s])
    assume "no_use s" and "0 < done_closes s"
    then have "\<not> uses_handle pc'" using use no_useD [OF _ g(1,2)] by auto
    with \<open>no_use s\<close> show "no_use (rx_goto g pc' (s\<lparr>eng := e\<rparr>))"
      by (intro no_use_goto) (simp_all add: no_use_def)
  qed (use inv len in \<open>simp_all add: life_inv_def\<close>)
  moreover have "live_count (rx_goto g pc' (s\<lparr>eng := e\<rparr>)) = live_count s"
    using g pc' by (subst live_count_goto) (simp_all add: rx_live_def)
  ultimately show ?thesis
    using inv eng same_config_trans set_update_subset_insert [of "rxs s" g "(fst (rxs s ! g), pc')"] nth_mem [OF g(1)]
    by (auto simp: life_inv_def intro: same_config_trans)
qed

lemma rx_exit_inv:
  assumes inv: "life_inv e0 s" and g: "g < length (rxs s)" "rxs s ! g = (i, pc)" "pc \<noteq> RxExited"
    and eng: "engine_wf e" "same_config (eng s) e"
  shows "life_inv e0 (rx_exit g (s\<lparr>eng := e\<rparr>))"
proof -
  have len: "length (ports e) = length (ports (eng s))" by (rule same_config_length [OF eng(2)])
  have "once_ok (rx_exit g (s\<lparr>eng := e\<rparr>))"
    unfolding rx_exit_def
  proof (rule once_ok_wg_done, rule once_ok_cong [of s])
    assume "no_use s"
    then have "no_use (rx_goto g RxExited s)" by (rule no_use_goto) (simp add: uses_handle_def)
    then show "no_use (rx_goto g RxExited (s\<lparr>eng := e\<rparr>))" by (simp add: no_use_def)
  qed (use inv len in \<open>simp_all add: life_inv_def\<close>)
  moreover have "live_count (rx_exit g (s\<lparr>eng := e\<rparr>)) = live_count s - 1"
    using g unfolding rx_exit_def by (simp add: live_count_exit rx_live_def)
  ultimately show ?thesis
    using inv eng set_update_subset_insert [of "rxs s" g "(fst (rxs s ! g), RxExited)"] nth_mem [OF g(1)]
    by (auto simp: life_inv_def rx_exit_def intro: same_config_trans)
qed

lemma once_pc:
  assumes "once_ok s" and "in_once (stoppers s t)"
  shows "stopOnce s = OnceBusy" and "\<forall>u. u \<noteq> t \<longrightarrow> stoppers s u = StopOutside \<or> stoppers s u = StopBlocked"
    and "body_ok s (stoppers s t)"
proof -
  show busy: "stopOnce s = OnceBusy"
    using assms by (cases "stopOnce s") (auto simp: once_ok_def in_once_def)
  then obtain v where v: "\<forall>u. u \<noteq> v \<longrightarrow> stoppers s u = StopOutside \<or> stoppers s u = StopBlocked"
    and pc: "body_ok s (stoppers s v)"
    using assms(1) by (auto simp: once_ok_def)
  have "v = t" using v assms(2) by (auto simp: in_once_def)
  with v pc show "\<forall>u. u \<noteq> t \<longrightarrow> stoppers s u = StopOutside \<or> stoppers s u = StopBlocked"
    and "body_ok s (stoppers s t)" by simp_all
qed

lemma no_live_no_use: "live_count s = 0 \<Longrightarrow> no_use s"
  by (auto simp: live_count_def no_use_def filter_empty_conv uses_handle_def rx_live_def split: rx_pc.splits)

lemma life_inv_stop:
  "life_inv e0 s \<Longrightarrow> once_ok s' \<Longrightarrow> engine_wf (eng s') \<Longrightarrow> same_config (eng s) (eng s') \<Longrightarrow> wg s' = wg s \<Longrightarrow>
     live_count s' = live_count s \<Longrightarrow> rxs s' = rxs s \<Longrightarrow> starter s' = starter s \<Longrightarrow> life_inv e0 s'"
  by (auto simp: life_inv_def intro: same_config_trans)

lemma life_inv_lengths: "life_inv e0 s \<Longrightarrow> length (ports (eng s)) = length (ports e0)"
  by (simp add: life_inv_def same_config_length)

lemma stop_step_once:
  assumes "once_ok s" and "in_once (stoppers s t)" and "in_once pc"
    and "stopOnce s' = stopOnce s" and "stoppers s' = (stoppers s)(t := pc)" and "body_ok s' pc"
  shows "once_ok s'"
  using once_pc [OF assms(1,2)] assms(3-6) by (auto simp: once_ok_def intro!: exI [of _ t])

lemma life_inv_eng:
  assumes "life_inv e0 s" and "engine_wf e" and "same_config (eng s) e"
  shows "life_inv e0 (s\<lparr>eng := e\<rparr>)"
proof (rule life_inv_stop [OF assms(1)])
  have "once_ok s" using assms(1) by (simp add: life_inv_def)
  then show "once_ok (s\<lparr>eng := e\<rparr>)"
    by (rule once_ok_cong) (simp_all add: same_config_length [OF assms(3)] no_use_def)
qed (use assms in simp_all)

lemma life_inv_starter:
  assumes "life_inv e0 s" and "wg s' = live_count s'" and "case starter s' of StartGo i \<Rightarrow> i < length (ports e0) | _ \<Rightarrow> True"
    and "eng s' = eng s" "rxs s' = rxs s" "stoppers s' = stoppers s" "stopOnce s' = stopOnce s"
      "done_closes s' = done_closes s" "handle_closes s' = handle_closes s" "wg s \<le> wg s'"
  shows "life_inv e0 s'"
proof -
  have "once_ok s" using assms(1) by (simp add: life_inv_def)
  then have "once_ok s'" by (rule once_ok_cong) (use assms in \<open>simp_all add: no_use_def\<close>)
  with assms show ?thesis by (simp add: life_inv_def)
qed

lemma body_ok_in_once: "body_ok s pc \<Longrightarrow> in_once pc"
  by (cases pc) (simp_all add: body_ok_def in_once_def)

lemma life_inv_waiting:
  assumes inv: "life_inv e0 s" and out: "\<not> in_once (stoppers s t)"
    and pc: "stopOnce s = OnceBusy \<and> pc = StopBlocked \<or> stopOnce s = OnceDone \<and> pc = StopReturned"
  shows "life_inv e0 (stop_goto t pc s)"
proof (rule life_inv_stop [OF inv])
  have ok: "once_ok s" using inv by (simp add: life_inv_def)
  show "once_ok (stop_goto t pc s)"
  proof (cases "stopOnce s = OnceBusy")
    case True
    then obtain u where u: "\<forall>v. v \<noteq> u \<longrightarrow> stoppers s v = StopOutside \<or> stoppers s v = StopBlocked" "body_ok s (stoppers s u)"
      using ok by (auto simp: once_ok_def)
    then have "u \<noteq> t" using out body_ok_in_once by blast
    moreover have "body_ok (stop_goto t pc s) x = body_ok s x" for x
      by (simp add: body_ok_def closed_upto_def no_use_def split: stop_pc.split)
    ultimately show ?thesis
      using u True pc by (auto simp: once_ok_def intro!: exI [of _ u])
  next
    case False
    with pc ok show ?thesis
      by (auto simp: once_ok_def closed_upto_def no_use_def in_once_def)
  qed
qed (use inv in \<open>simp_all add: life_inv_def\<close>)

text \<open>The body of Stop, parked or panicked, has got no further.\<close>

lemma life_inv_held:
  assumes inv: "life_inv e0 s" and pc: "stoppers s t = StopWait \<or> stoppers s t = StopWoken"
    and "pc = StopParked \<or> pc = StopPanic" and "0 < wg s"
  shows "life_inv e0 (stop_goto t pc s)"
proof (rule life_inv_stop [OF inv])
  have once: "once_ok s" "in_once (stoppers s t)" using inv pc by (auto simp: life_inv_def in_once_def)
  with pc have "done_closes s = 1" "closed_upto s 0" using once_pc(3) [OF once] by (auto simp: body_ok_def)
  with once show "once_ok (stop_goto t pc s)"
    using assms(3,4) by (elim stop_step_once [of s t pc]) (auto simp: in_once_def body_ok_def closed_upto_def)
qed (use inv in \<open>simp_all add: life_inv_def\<close>)

lemma ctl_step_inv: "ctl_step ops s s' \<Longrightarrow> life_inv e0 s \<Longrightarrow> life_inv e0 s'"
proof (induction rule: ctl_step.induct)
  case (rx_done g s i)
  then show ?case using rx_exit_inv [of e0 s g i RxCheck "eng s"] by (simp add: life_inv_def)
next
  case (rx_continue g s i)
  then show ?case using rx_step_inv [of e0 s g i RxCheck "eng s" RxRead] by (simp add: life_inv_def)
next
  case (rx_timeout g s i h)
  then show ?case
    unfolding set_io_def
    by (intro rx_step_inv [OF rx_timeout(4,1,2)] wf_set_io same_config_set_io) (simp_all add: life_inv_def uses_handle_def)
next
  case (rx_error g s i h)
  then show ?case
    unfolding set_io_def
    by (intro rx_exit_inv [OF rx_error(4,1,2)] wf_set_io same_config_set_io) (simp_all add: life_inv_def)
next
  case (gc_done s)
  have "once_ok (wg_done (s\<lparr>gcs := gcs s - 1\<rparr>))"
    by (rule once_ok_wg_done, rule once_ok_cong [of s]) (use gc_done(3) in \<open>simp_all add: life_inv_def no_use_def\<close>)
  with gc_done show ?case by (auto simp: life_inv_def live_count_def)
next
  case (stop_close s t)
  then have "once_ok s" "in_once (stoppers s t)" by (simp_all add: life_inv_def in_once_def)
  moreover from this stop_close have "done_closes s = 0" "closed_upto s 0"
    using once_pc(3) [of s t] by (simp_all add: body_ok_def)
  ultimately have "once_ok (stop_goto t StopWait (s\<lparr>done_closes := done_closes s + 1\<rparr>))"
    by (elim stop_step_once [of s t StopWait]) (simp_all add: in_once_def body_ok_def closed_upto_def)
  then show ?case
    by (rule life_inv_stop [OF stop_close(2)]) (use stop_close(2) in \<open>simp_all add: life_inv_def wf_set_io same_config_set_io\<close>)
next
  case (stop_wait s t)
  then have "once_ok s" "in_once (stoppers s t)" "no_use s"
    by (simp_all add: life_inv_def in_once_def no_live_no_use)
  moreover from this stop_wait have "done_closes s = 1" "closed_upto s 0"
    using once_pc(3) [of s t] by (simp_all add: body_ok_def)
  ultimately have "once_ok (stop_goto t (StopHandles 0) s)"
    by (elim stop_step_once [of s t "StopHandles 0"]) (simp_all add: in_once_def body_ok_def closed_upto_def no_use_def)
  then show ?case
    by (rule life_inv_stop [OF stop_wait(3)]) (use stop_wait(3) in \<open>simp_all add: life_inv_def wf_set_io same_config_set_io\<close>)
next
  case (stop_handle s t j)
  let ?s' = "stop_goto t (StopHandles (Suc j)) ((set_io j (CloseIO ops (io (ports (eng s) ! j))) s)
     \<lparr>handle_closes := (handle_closes s)(j := handle_closes s j + 1)\<rparr>)"
  have "once_ok s" "in_once (stoppers s t)" using stop_handle by (simp_all add: life_inv_def in_once_def)
  moreover from this stop_handle have "done_closes s = 1" "closed_upto s j" "no_use s"
    using once_pc(3) [of s t] by (simp_all add: body_ok_def)
  ultimately have "once_ok ?s'"
    using stop_handle(2)
    by (elim stop_step_once [of s t "StopHandles (Suc j)"]) (auto simp: in_once_def body_ok_def closed_upto_def no_use_def)
  then show ?case
    by (rule life_inv_stop [OF stop_handle(3)]) (use stop_handle(3) in \<open>simp_all add: life_inv_def wf_set_io same_config_set_io\<close>)
next
  case (stop_end s t j)
  then have ok: "once_ok s" "in_once (stoppers s t)" by (simp_all add: life_inv_def in_once_def)
  then have "done_closes s = 1" "closed_upto s (length (ports (eng s)))" "no_use s"
    using once_pc(3) [of s t] stop_end by (auto simp: body_ok_def)
  then have "once_ok (stop_goto t StopReturned (s\<lparr>stopOnce := OnceDone\<rparr>))"
    using once_pc(2) [OF ok] by (auto simp: once_ok_def closed_upto_def no_use_def in_once_def)
  then show ?case
    by (rule life_inv_stop [OF stop_end(3)]) (use stop_end(3) in \<open>simp_all add: life_inv_def wf_set_io same_config_set_io\<close>)
next
  case (stop_woken s t)
  then have "once_ok s" "in_once (stoppers s t)" "no_use s"
    by (simp_all add: life_inv_def in_once_def no_live_no_use)
  moreover from this stop_woken have "done_closes s = 1" "closed_upto s 0"
    using once_pc(3) [of s t] by (simp_all add: body_ok_def)
  ultimately have "once_ok (stop_goto t (StopHandles 0) s)"
    by (elim stop_step_once [of s t "StopHandles 0"]) (simp_all add: in_once_def body_ok_def closed_upto_def no_use_def)
  then show ?case
    by (rule life_inv_stop [OF stop_woken(3)]) (use stop_woken(3) in \<open>simp_all add: life_inv_def\<close>)
next
  case (stop_park s t)
  then show ?case by (intro life_inv_held) (simp_all add: body_ok_def)
next
  case (stop_reused s t)
  then show ?case by (intro life_inv_held) (simp_all add: body_ok_def)
next
  case (start_misuse s i t)
  then show ?case by (intro life_inv_starter [OF start_misuse(4)]) (auto simp: life_inv_def live_count_def)
next
  case (stop_first s t)
  then have "once_ok s" by (simp add: life_inv_def)
  then have "once_ok (stop_goto t StopClose (s\<lparr>stopOnce := OnceBusy, overlap := overlap s \<or> starter s \<noteq> StartIdle\<rparr>))"
    using stop_first by (auto simp: once_ok_def body_ok_def closed_upto_def intro!: exI [of _ t])
  then show ?case
    by (rule life_inv_stop [OF stop_first(3)]) (use stop_first(3) in \<open>simp_all add: life_inv_def wf_set_io same_config_set_io\<close>)
next
  case (start_add s i)
  have "once_ok (s\<lparr>starter := StartGo i, wg := wg s + 1\<rparr>)"
    by (rule once_ok_cong [of s]) (use start_add(3) in \<open>simp_all add: life_inv_def no_use_def\<close>)
  with start_add life_inv_lengths [OF start_add(3)] show ?case by (auto simp: life_inv_def live_count_def)
next
  case (start_go s i)
  have "once_ok (s\<lparr>starter := StartAdd (Suc i), rxs := rxs s @ [(i, RxCheck)]\<rparr>)"
    by (rule once_ok_cong [of s]) (use start_go(2) in \<open>auto simp: life_inv_def no_use_def uses_handle_def\<close>)
  with start_go show ?case by (auto simp: life_inv_def live_count_def rx_live_def)
next
  case (start_call s)
  then show ?case by (intro life_inv_starter [OF start_call(2)]) (simp_all add: life_inv_def live_count_def)
next
  case (start_ports_done s i)
  then show ?case by (intro life_inv_starter [OF start_ports_done(3)]) (simp_all add: life_inv_def live_count_def)
next
  case (start_add_gc s)
  then show ?case by (intro life_inv_starter [OF start_add_gc(2)]) (simp_all add: life_inv_def live_count_def)
next
  case (start_go_gc s)
  then show ?case by (intro life_inv_starter [OF start_go_gc(2)]) (simp_all add: life_inv_def live_count_def)
next
  case (stop_later s t)
  then show ?case by (intro life_inv_waiting) (simp_all add: in_once_def)
next
  case (stop_noop s t)
  then show ?case by (intro life_inv_waiting) (simp_all add: in_once_def)
next
  case (stop_unblock s t)
  then show ?case by (intro life_inv_waiting) (simp_all add: in_once_def)
qed

lemma life_step_inv: "life_step decode ser ops s s' \<Longrightarrow> life_inv e0 s \<Longrightarrow> life_inv e0 s'"
proof (induction rule: life_step.induct)
  case (control s s')
  then show ?case by (rule ctl_step_inv)
next
  case (rx_data g s i frm h)
  then show ?case
    unfolding set_io_def
    by (intro rx_step_inv [OF rx_data(4,1,2)] wf_set_io same_config_set_io) (simp_all add: life_inv_def uses_handle_def)
next
  case (rx_forward g s i frm now e)
  have i: "i < length (ports (eng s))"
    using rx_forward(1,2,4) nth_mem [of g "rxs s"] life_inv_lengths by (fastforce simp: life_inv_def)
  have wf: "engine_wf (eng s)" using rx_forward(4) by (simp add: life_inv_def)
  have "engine_wf e" "same_config (eng s) e"
    using forward_step [OF wf i, of decode ser ops frm now] rx_forward(3) by auto
  then show ?case
    using rx_step_inv [OF rx_forward(4,1,2), of e RxCheck] by (simp add: uses_handle_def)
next
  case (gc_reap s now)
  have "engine_wf (gc_tick (eng s) now)"
    using gc_reap(2) by (intro gc_tick_wf) (simp add: life_inv_def)
  moreover have "same_config (eng s) (gc_tick (eng s) now)"
    unfolding gc_tick_def by (rule same_config_fdb)
  ultimately show ?case by (rule life_inv_eng [OF gc_reap(2)])
next
  case (age_set s d)
  have "engine_wf (SetAgeing (eng s) d)"
    using age_set by (intro SetAgeing_wf) (simp add: life_inv_def)
  moreover have "same_config (eng s) (SetAgeing (eng s) d)"
    unfolding SetAgeing_def by (rule same_config_fdb)
  ultimately show ?case by (rule life_inv_eng [OF age_set])
qed

lemma life_reach_inv: "life_reach decode ser ops e0 s \<Longrightarrow> engine_wf e0 \<Longrightarrow> life_inv e0 s"
proof (induction rule: life_reach.induct)
  case init
  then show ?case
    by (simp add: life_inv_def idle_life_def live_count_def once_ok_def closed_upto_def)
next
  case (step s s')
  then show ?case by (blast intro: life_step_inv)
qed

section \<open>When the wait group cannot panic\<close>

text \<open>As long as no Start and no body of a Stop have been under way together, nobody misuses the wait group.\<close>

definition apart :: "'h life \<Rightarrow> bool" where
  "apart s \<longleftrightarrow> overlap s \<or>
     starter s \<noteq> StartPanic \<and> (\<forall>t. stoppers s t \<noteq> StopPanic) \<and> (stopOnce s = OnceBusy \<longrightarrow> starter s = StartIdle) \<and>
     (\<forall>t. stoppers s t = StopWoken \<longrightarrow> wg s = 0)"

lemma apart_wg_done: "apart s \<Longrightarrow> apart (wg_done s)"
  by (auto simp: apart_def wake_def)

lemma apart_cong:
  "apart s \<Longrightarrow> overlap s' = overlap s \<Longrightarrow> starter s' = starter s \<Longrightarrow> stoppers s' = stoppers s \<Longrightarrow>
     stopOnce s' = stopOnce s \<Longrightarrow> wg s' = wg s \<Longrightarrow> apart s'"
  by (simp add: apart_def)

lemma apart_goto [simp]: "apart (rx_goto g pc s) = apart s" "apart (s\<lparr>eng := e\<rparr>) = apart s" "apart (set_io i h s) = apart s"
  by (simp_all add: apart_def)

lemma woken_busy: "once_ok s \<Longrightarrow> stoppers s t = StopWoken \<Longrightarrow> stopOnce s = OnceBusy"
  by (rule once_pc(1) [of s t]) (simp_all add: in_once_def)

lemma ctl_step_apart: "ctl_step ops s s' \<Longrightarrow> once_ok s \<Longrightarrow> apart s \<Longrightarrow> apart s'"
proof (induction rule: ctl_step.induct)
  case (gc_done s)
  then show ?case by (intro apart_wg_done) (simp add: apart_def)
next
  case (start_misuse s i t)
  with woken_busy [of s t] show ?case by (auto simp: apart_def)
qed (auto simp: rx_exit_def apart_wg_done, auto simp: apart_def dest: woken_busy)

lemma life_reach_apart: "life_reach decode ser ops e0 s \<Longrightarrow> engine_wf e0 \<Longrightarrow> apart s"
proof (induction rule: life_reach.induct)
  case init
  show ?case by (simp add: apart_def idle_life_def)
next
  case (step s s')
  note inv = life_reach_inv [OF step(1,4)]
  from step(2) show ?case
    by cases (use step(3,4) inv ctl_step_apart in \<open>auto simp: life_inv_def\<close>)
qed

section \<open>Towards the return of Stop\<close>

definition rx_rank :: "rx_pc \<Rightarrow> nat" where
  "rx_rank pc = (case pc of RxRead \<Rightarrow> 3 | RxForward frm \<Rightarrow> 2 | RxCheck \<Rightarrow> 1 | RxExited \<Rightarrow> 0)"

definition drain_rank :: "'h life \<Rightarrow> nat" where
  "drain_rank s = (\<Sum>r\<leftarrow>rxs s. rx_rank (snd r)) + gcs s"

lemma sum_list_update_less:
  "g < length xs \<Longrightarrow> f x < f (xs ! g) \<Longrightarrow> (\<Sum>r\<leftarrow>xs[g := x]. f r) < ((\<Sum>r\<leftarrow>xs. f r) :: nat)"
proof (induction xs arbitrary: g)
  case (Cons y ys)
  then show ?case by (cases g) auto
qed simp

lemma drain_rank_goto:
  "g < length (rxs s) \<Longrightarrow> rx_rank pc < rx_rank (snd (rxs s ! g)) \<Longrightarrow> gcs s' = gcs s \<Longrightarrow>
     rxs s' = (rxs s)[g := (fst (rxs s ! g), pc)] \<Longrightarrow> drain_rank s' < drain_rank s"
  by (simp add: drain_rank_def sum_list_update_less)

text \<open>What the goroutines on their way out leave of Stop's own state: only the one parked may be woken.\<close>

definition same_stop :: "'h life \<Rightarrow> 'h life \<Rightarrow> bool" where
  "same_stop s s' \<longleftrightarrow> starter s' = starter s \<and> (stoppers s' = stoppers s \<or> stoppers s' = wake \<circ> stoppers s) \<and>
     stopOnce s' = stopOnce s \<and> done_closes s' = done_closes s"

lemma same_stop_refl [simp]: "same_stop s s"
  by (simp add: same_stop_def)

lemma same_stop_trans: "same_stop s1 s2 \<Longrightarrow> same_stop s2 s3 \<Longrightarrow> same_stop s1 s3"
  by (auto simp: same_stop_def fun_eq_iff)

lemma same_stop_exit [simp]: "same_stop s (rx_exit g (s\<lparr>eng := e\<rparr>))" "same_stop s (rx_exit g s)"
  by (simp_all add: same_stop_def rx_exit_def)

text \<open>When the counter is zero the body of Stop is not parked: it has been woken or has not looked yet.\<close>

lemma drained_body:
  assumes "once_ok s" and "wg s = 0" and "stoppers s t \<in> {StopWait, StopParked, StopWoken}"
  shows "stoppers s t = StopWait \<or> stoppers s t = StopWoken"
proof -
  have "body_ok s (stoppers s t)" using assms by (intro once_pc(3)) (auto simp: in_once_def)
  with assms(2,3) show ?thesis by (auto simp: body_ok_def)
qed

text \<open>A step of Start that does not panic.\<close>

definition start_move :: "'h PacketIO \<Rightarrow> 'h life \<Rightarrow> 'h life \<Rightarrow> bool" where
  "start_move ops s s' \<longleftrightarrow> ctl_step ops s s' \<and> starter s' \<noteq> StartPanic \<and> gcs s \<le> gcs s' \<and> stoppers s' = stoppers s \<and>
     stopOnce s' = stopOnce s \<and> done_closes s' = done_closes s"

fun start_rank :: "nat \<Rightarrow> start_pc \<Rightarrow> nat" where
  "start_rank n (StartAdd i) = 2 * (n - i) + 3"
| "start_rank n (StartGo i) = 2 * (n - i) + 2"
| "start_rank n StartAddGc = 2"
| "start_rank n StartGoGc = 1"
| "start_rank n pc = 0"

lemma start_moves:
  assumes "starter s \<noteq> StartIdle" and "starter s \<noteq> StartPanic" and "life_inv e0 s"
  shows "\<exists>s'. start_move ops s s' \<and> start_rank (length (ports e0)) (starter s') < start_rank (length (ports e0)) (starter s)"
proof (cases "starter s")
  case (StartAdd i)
  note n = life_inv_lengths [OF assms(3)]
  show ?thesis
  proof (cases "i < length (ports e0)")
    case True
    with start_add [OF StartAdd] StartAdd n show ?thesis
      by (intro exI [of _ "s\<lparr>starter := StartGo i, wg := wg s + 1\<rparr>"]) (simp add: start_move_def)
  next
    case False
    with start_ports_done [OF StartAdd] StartAdd n show ?thesis
      by (intro exI [of _ "s\<lparr>starter := StartAddGc\<rparr>"]) (simp add: start_move_def)
  qed
next
  case (StartGo i)
  have "i < length (ports e0)" using assms(3) StartGo by (simp add: life_inv_def)
  with start_go [OF StartGo] StartGo show ?thesis
    by (intro exI [of _ "s\<lparr>starter := StartAdd (Suc i), rxs := rxs s @ [(i, RxCheck)]\<rparr>"]) (simp add: start_move_def)
next
  case StartAddGc
  with start_add_gc [OF StartAddGc] show ?thesis
    by (intro exI [of _ "s\<lparr>starter := StartGoGc, wg := wg s + 1\<rparr>"]) (simp add: start_move_def)
next
  case StartGoGc
  with start_go_gc [OF StartGoGc] show ?thesis
    by (intro exI [of _ "s\<lparr>starter := StartIdle, gcs := gcs s + 1\<rparr>"]) (simp add: start_move_def)
qed (use assms in simp_all)

text \<open>A step of control that neither launches nor ends a collector.\<close>

definition stop_move :: "'h PacketIO \<Rightarrow> 'h life \<Rightarrow> 'h life \<Rightarrow> bool" where
  "stop_move ops s s' \<longleftrightarrow> ctl_step ops s s' \<and> starter s' = starter s \<and> gcs s' = gcs s"

lemma stop_run_life: "(stop_move ops)\<^sup>*\<^sup>* s s' \<Longrightarrow> (life_step decode ser ops)\<^sup>*\<^sup>* s s'"
  by (rule rtranclp_mono [THEN predicate2D]) (auto simp: stop_move_def intro: control)

lemma closes_handles:
  "stoppers s t = StopHandles j \<Longrightarrow> j \<le> length (ports (eng s)) \<Longrightarrow>
     \<exists>s'. (stop_move ops)\<^sup>*\<^sup>* s s' \<and> stoppers s' = (stoppers s)(t := StopReturned) \<and> stopOnce s' = OnceDone"
proof (induction "length (ports (eng s)) - j" arbitrary: s j)
  case 0
  then have "stop_move ops s (stop_goto t StopReturned (s\<lparr>stopOnce := OnceDone\<rparr>))"
    by (auto simp: stop_move_def intro: stop_end)
  then show ?case by (intro exI conjI) (erule r_into_rtranclp, simp_all)
next
  case (Suc n)
  let ?s1 = "stop_goto t (StopHandles (Suc j)) ((set_io j (CloseIO ops (io (ports (eng s) ! j))) s)
     \<lparr>handle_closes := (handle_closes s)(j := handle_closes s j + 1)\<rparr>)"
  have "stop_move ops s ?s1" using Suc stop_handle [of s t j ops] by (simp add: stop_move_def)
  moreover have "\<exists>s'. (stop_move ops)\<^sup>*\<^sup>* ?s1 s' \<and> stoppers s' = (stoppers ?s1)(t := StopReturned) \<and>
      stopOnce s' = OnceDone"
    using Suc(2-) by (intro Suc(1) [of ?s1 "Suc j"]) simp_all
  ultimately show ?case by (auto intro: converse_rtranclp_into_rtranclp)
qed

section \<open>A run\<close>

text \<open>
  A one-port switch: Start, the reader enters a read, Stop is called meanwhile, the read times out,
  both goroutines leave, the handle is closed.
\<close>

definition solo_engine :: "frame list engine" where
  "solo_engine = built [\<lparr>Name = ''p1'', AccessVID = 0, Trunk = []\<rparr>] [[]]"

definition solo :: "frame list engine \<Rightarrow> (nat \<times> rx_pc) list \<Rightarrow> nat \<Rightarrow> start_pc \<Rightarrow> stop_pc \<Rightarrow> once \<Rightarrow> nat \<Rightarrow> nat \<Rightarrow>
    nat \<Rightarrow> frame list life" where
  "solo e rs gc st sp o1 w dc hc =
     \<lparr>eng = e, rxs = rs, gcs = gc, starter = st, stoppers = (\<lambda>t. if t = 0 then sp else StopOutside),
      stopOnce = o1, wg = w, done_closes = dc, handle_closes = (\<lambda>j. if j = 0 then hc else 0), overlap = False\<rparr>"

lemma solo_sel [simp]:
  "eng (solo e rs gc st sp o1 w dc hc) = e" "rxs (solo e rs gc st sp o1 w dc hc) = rs"
  "gcs (solo e rs gc st sp o1 w dc hc) = gc" "starter (solo e rs gc st sp o1 w dc hc) = st"
  "stoppers (solo e rs gc st sp o1 w dc hc) 0 = sp" "stopOnce (solo e rs gc st sp o1 w dc hc) = o1"
  "wg (solo e rs gc st sp o1 w dc hc) = w" "done_closes (solo e rs gc st sp o1 w dc hc) = dc"
  "handle_closes (solo e rs gc st sp o1 w dc hc) 0 = hc" "overlap (solo e rs gc st sp o1 w dc hc) = False"
  by (simp_all add: solo_def)

lemma solo_upd:
  "(solo e rs gc st sp o1 w dc hc)\<lparr>starter := st'\<rparr> = solo e rs gc st' sp o1 w dc hc"
  "(solo e rs gc st sp o1 w dc hc)\<lparr>rxs := rs'\<rparr> = solo e rs' gc st sp o1 w dc hc"
  "(solo e rs gc st sp o1 w dc hc)\<lparr>gcs := gc'\<rparr> = solo e rs gc' st sp o1 w dc hc"
  "(solo e rs gc st sp o1 w dc hc)\<lparr>wg := w'\<rparr> = solo e rs gc st sp o1 w' dc hc"
  "(solo e rs gc st sp o1 w dc hc)\<lparr>stopOnce := o'\<rparr> = solo e rs gc st sp o' w dc hc"
  "(solo e rs gc st sp o1 w dc hc)\<lparr>done_closes := dc'\<rparr> = solo e rs gc st sp o1 w dc' hc"
  "(solo e rs gc st sp o1 w dc hc)\<lparr>overlap := False\<rparr> = solo e rs gc st sp o1 w dc hc"
  "wg_done (solo e rs gc st StopWait o1 w dc hc) = solo e rs gc st StopWait o1 (w - 1) dc hc"
  "(solo e rs gc st sp o1 w dc hc)\<lparr>handle_closes := (handle_closes (solo e rs gc st sp o1 w dc hc))(0 := hc')\<rparr> =
     solo e rs gc st sp o1 w dc hc'"
  "stop_goto 0 sp' (solo e rs gc st sp o1 w dc hc) = solo e rs gc st sp' o1 w dc hc"
  "rx_goto g pc (solo e rs gc st sp o1 w dc hc) = solo e (rs[g := (fst (rs ! g), pc)]) gc st sp o1 w dc hc"
  "set_io i h (solo e rs gc st sp o1 w dc hc) = solo (upd_port i (\<lambda>p. p\<lparr>io := h\<rparr>) e) rs gc st sp o1 w dc hc"
  by (auto simp: solo_def stop_goto_def rx_goto_def set_io_def wg_done_def wake_def fun_eq_iff)

lemma solo_wf: "engine_wf solo_engine" "length (ports solo_engine) = 1"
proof -
  have "acceptable [\<lparr>Name = ''p1'', AccessVID = 0, Trunk = []\<rparr>]" by code_simp
  then show "engine_wf solo_engine" by (simp add: solo_engine_def engine_wf_built)
  show "length (ports solo_engine) = 1" by (simp add: solo_engine_def built_def)
qed

abbreviation solo_reach :: "frame list life \<Rightarrow> bool" where
  "solo_reach \<equiv> life_reach wire_decode wire_ser mtu_io solo_engine"

lemma solo_by:
  "solo_reach s \<Longrightarrow> life_step wire_decode wire_ser mtu_io s s1 \<Longrightarrow> s1 = s' \<Longrightarrow> solo_reach s'"
  by (blast intro: life_reach.step)

lemma solo_reading: "solo_reach (solo solo_engine [(0, RxRead)] 1 StartIdle StopWait OnceBusy 2 1 0)"
proof -
  let ?s = "\<lambda>rs gc st sp o1 w dc. solo solo_engine rs gc st sp o1 w dc 0"
  have "solo_reach (?s [] 0 StartIdle StopOutside OnceFresh 0 0)"
    using life_reach.init [of wire_decode wire_ser mtu_io solo_engine] by (simp add: idle_life_def solo_def)
  then have "solo_reach (?s [] 0 (StartAdd 0) StopOutside OnceFresh 0 0)"
    by (rule solo_by [OF _ control [OF start_call]]) (simp_all add: solo_upd)
  then have "solo_reach (?s [] 0 (StartGo 0) StopOutside OnceFresh 1 0)"
    by (rule solo_by [OF _ control [OF start_add [of _ 0]]]) (simp_all add: solo_upd solo_wf)
  then have "solo_reach (?s [(0, RxCheck)] 0 (StartAdd 1) StopOutside OnceFresh 1 0)"
    by (rule solo_by [OF _ control [OF start_go [of _ 0]]]) (simp_all add: solo_upd)
  then have "solo_reach (?s [(0, RxCheck)] 0 StartAddGc StopOutside OnceFresh 1 0)"
    by (rule solo_by [OF _ control [OF start_ports_done [of _ 1]]]) (simp_all add: solo_upd solo_wf)
  then have "solo_reach (?s [(0, RxCheck)] 0 StartGoGc StopOutside OnceFresh 2 0)"
    by (rule solo_by [OF _ control [OF start_add_gc]]) (simp_all add: solo_upd numeral_2_eq_2)
  then have "solo_reach (?s [(0, RxCheck)] 1 StartIdle StopOutside OnceFresh 2 0)"
    by (rule solo_by [OF _ control [OF start_go_gc]]) (simp_all add: solo_upd)
  then have "solo_reach (?s [(0, RxRead)] 1 StartIdle StopOutside OnceFresh 2 0)"
    by (rule solo_by [OF _ control [OF rx_continue [of 0 _ 0]]]) (simp_all add: solo_upd)
  then have "solo_reach (?s [(0, RxRead)] 1 StartIdle StopClose OnceBusy 2 0)"
    by (rule solo_by [OF _ control [OF stop_first [of _ 0]]]) (simp_all add: solo_upd)
  then show ?thesis
    by (rule solo_by [OF _ control [OF stop_close [of _ 0]]]) (simp_all add: solo_upd)
qed

lemma solo_closed:
  "\<exists>e. solo_reach (solo e [(0, RxExited)] 0 StartIdle (StopHandles 1) OnceBusy 0 1 1)"
proof -
  let ?e1 = "upd_port 0 (\<lambda>p. p\<lparr>io := io (ports solo_engine ! 0)\<rparr>) solo_engine"
  have "solo_reach (solo ?e1 [(0, RxCheck)] 1 StartIdle StopWait OnceBusy 2 1 0)"
    by (rule solo_by [OF solo_reading control [OF rx_timeout [of 0 _ 0]]]) (simp_all add: solo_upd mtu_io_def)
  then have "solo_reach (solo ?e1 [(0, RxExited)] 1 StartIdle StopWait OnceBusy 1 1 0)"
    by (rule solo_by [OF _ control [OF rx_done [of 0 _ 0]]]) (simp_all add: solo_upd rx_exit_def numeral_2_eq_2)
  then have "solo_reach (solo ?e1 [(0, RxExited)] 0 StartIdle StopWait OnceBusy 0 1 0)"
    by (rule solo_by [OF _ control [OF gc_done]]) (simp_all add: solo_upd)
  then have "solo_reach (solo ?e1 [(0, RxExited)] 0 StartIdle (StopHandles 0) OnceBusy 0 1 0)"
    by (rule solo_by [OF _ control [OF stop_wait [of _ 0]]]) (simp_all add: solo_upd)
  then have "solo_reach (solo (upd_port 0 (\<lambda>p. p\<lparr>io := CloseIO mtu_io (io (ports ?e1 ! 0))\<rparr>) ?e1)
      [(0, RxExited)] 0 StartIdle (StopHandles 1) OnceBusy 0 1 1)"
    by (rule solo_by [OF _ control [OF stop_handle [of _ 0 0]]]) (simp_all add: solo_upd solo_wf, simp add: solo_def stop_goto_def set_io_def fun_eq_iff)
  then show ?thesis by blast
qed

text \<open>
  The misuse is real: Stop is called while Start is launching, and parks; the only goroutine leaves and
  wakes it, and before it has looked at the counter again Start adds the collector. Stop panics, or
  Start does.
\<close>

lemma overlapping_start_stop_panics:
  "(\<exists>s. solo_reach s \<and> stoppers s 0 = StopPanic) \<and> (\<exists>s. solo_reach s \<and> starter s = StartPanic)"
proof -
  let ?s = "\<lambda>rs st sp o1 w dc ov. (solo solo_engine rs 0 st sp o1 w dc 0)\<lparr>overlap := ov\<rparr>"
  note d = solo_def stop_goto_def rx_goto_def wg_done_def rx_exit_def wake_def fun_eq_iff
  have "solo_reach (?s [] StartIdle StopOutside OnceFresh 0 0 False)"
    using life_reach.init [of wire_decode wire_ser mtu_io solo_engine] by (simp add: idle_life_def solo_def)
  then have "solo_reach (?s [] (StartAdd 0) StopOutside OnceFresh 0 0 False)"
    by (rule solo_by [OF _ control [OF start_call]]) (simp_all add: d)
  then have "solo_reach (?s [] (StartGo 0) StopOutside OnceFresh 1 0 False)"
    by (rule solo_by [OF _ control [OF start_add [of _ 0]]]) (simp_all add: d solo_wf)
  then have "solo_reach (?s [(0, RxCheck)] (StartAdd 1) StopOutside OnceFresh 1 0 False)"
    by (rule solo_by [OF _ control [OF start_go [of _ 0]]]) (simp_all add: d)
  then have "solo_reach (?s [(0, RxCheck)] StartAddGc StopOutside OnceFresh 1 0 False)"
    by (rule solo_by [OF _ control [OF start_ports_done [of _ 1]]]) (simp_all add: d solo_wf)
  then have "solo_reach (?s [(0, RxCheck)] StartAddGc StopClose OnceBusy 1 0 True)"
    by (rule solo_by [OF _ control [OF stop_first [of _ 0]]]) (simp_all add: d)
  then have "solo_reach (?s [(0, RxCheck)] StartAddGc StopWait OnceBusy 1 1 True)"
    by (rule solo_by [OF _ control [OF stop_close [of _ 0]]]) (simp_all add: d)
  then have "solo_reach (?s [(0, RxCheck)] StartAddGc StopParked OnceBusy 1 1 True)"
    by (rule solo_by [OF _ control [OF stop_park [of _ 0]]]) (simp_all add: d)
  then have woken: "solo_reach (?s [(0, RxExited)] StartAddGc StopWoken OnceBusy 0 1 True)"
    by (rule solo_by [OF _ control [OF rx_done [of 0 _ 0]]]) (simp_all add: d)
  then have "solo_reach (?s [(0, RxExited)] StartPanic StopWoken OnceBusy 1 1 True)"
    by (rule solo_by [OF _ control [OF start_misuse [of _ 0 0]]]) (simp_all add: d)
  moreover from woken have "solo_reach (?s [(0, RxExited)] StartGoGc StopWoken OnceBusy 1 1 True)"
    by (rule solo_by [OF _ control [OF start_add_gc]]) (simp_all add: d)
  then have "solo_reach (?s [(0, RxExited)] StartGoGc StopPanic OnceBusy 1 1 True)"
    by (rule solo_by [OF _ control [OF stop_reused [of _ 0]]]) (simp_all add: d)
  ultimately show ?thesis by (force simp: solo_def)
qed

section \<open>Properties\<close>

lemma body_ok_closes:
  "body_ok s pc \<Longrightarrow> done_closes s \<le> 1 \<and> handle_closes s j \<le> 1 \<and> (0 < handle_closes s j \<longrightarrow> no_use s)"
  by (cases pc) (auto simp: body_ok_def closed_upto_def)

lemma once_ok_closes:
  assumes "once_ok s"
  shows "done_closes s \<le> 1 \<and> handle_closes s j \<le> 1 \<and> (0 < handle_closes s j \<longrightarrow> no_use s) \<and>
         (stoppers s t = StopReturned \<and> j < length (ports (eng s)) \<longrightarrow> handle_closes s j = 1)"
proof (cases "stopOnce s")
  case OnceFresh
  with assms show ?thesis by (simp add: once_ok_def closed_upto_def)
next
  case OnceBusy
  then obtain u where u: "\<forall>v. v \<noteq> u \<longrightarrow> stoppers s v = StopOutside \<or> stoppers s v = StopBlocked" "body_ok s (stoppers s u)"
    using assms by (auto simp: once_ok_def)
  then have "stoppers s t \<noteq> StopReturned"
    using body_ok_in_once [OF u(2)] by (cases "t = u") (auto simp: in_once_def)
  with body_ok_closes [OF u(2)] show ?thesis by simp
next
  case OnceDone
  with assms show ?thesis by (simp add: once_ok_def closed_upto_def)
qed

text \<open>
  No handle is closed under a reader. However Start, any number of Stop calls, the receive
  loops, the collector and ageing changes interleave, once the first handle has been closed no
  goroutine is inside a read or is forwarding a frame, and none ever enters one again.
\<close>
theorem stop_waits_for_readers:
  assumes "engine_wf e0" and "life_reach decode ser ops e0 s" and "0 < handle_closes s j"
    and "(life_step decode ser ops)\<^sup>*\<^sup>* s s'" and "(i, pc) \<in> set (rxs s')"
  shows "\<not> uses_handle pc"
proof -
  have closed: "0 < handle_closes s' j"
    using assms(4,3) by (induction rule: rtranclp_induct) (auto elim!: life_step.cases ctl_step.cases simp: rx_exit_def)
  have "life_inv e0 s'"
    using assms(4) life_reach_inv [OF assms(2,1)] by (induction rule: rtranclp_induct) (auto intro: life_step_inv)
  then have "no_use s'"
    using closed once_ok_closes [of s' j] by (simp add: life_inv_def)
  with assms(5) show ?thesis by (auto simp: no_use_def)
qed

theorem stop_waits_for_readers_witness:
  "\<exists>e. solo_reach (solo e [(0, RxExited)] 0 StartIdle (StopHandles 1) OnceBusy 0 1 1) \<and> \<not> uses_handle RxExited"
proof -
  obtain e where e: "solo_reach (solo e [(0, RxExited)] 0 StartIdle (StopHandles 1) OnceBusy 0 1 1)"
    using solo_closed by blast
  then show ?thesis
    using stop_waits_for_readers [OF solo_wf(1) e _ rtranclp.rtrancl_refl, of 0 0 RxExited] by auto
qed

text \<open>
  Stop does its work exactly once. Under every interleaving \<open>done\<close> and each handle are closed at
  most once however often Stop is called, and whenever any Stop call has returned every port's
  handle has been closed.
\<close>
theorem stop_closes_once:
  assumes "engine_wf e0" and "life_reach decode ser ops e0 s"
  shows "done_closes s \<le> 1 \<and> (\<forall>j. handle_closes s j \<le> 1) \<and>
         ((\<exists>t. stoppers s t = StopReturned) \<longrightarrow> (\<forall>j < length (ports e0). handle_closes s j = 1))"
proof -
  have inv: "life_inv e0 s" by (rule life_reach_inv [OF assms(2,1)])
  then have "once_ok s" and len: "length (ports (eng s)) = length (ports e0)"
    by (simp_all add: life_inv_def same_config_length)
  then show ?thesis using once_ok_closes [of s] by metis
qed

theorem stop_closes_once_witness:
  "done_closes (solo solo_engine [(0, RxRead)] 1 StartIdle StopWait OnceBusy 2 1 0) \<le> 1"
  using stop_closes_once [OF solo_wf(1) solo_reading] by blast

text \<open>
  The goroutines do not panic. Under every interleaving the wait group counts exactly the goroutines
  launched and not yet gone (and the Add that Start has made for the next), so its counter is never
  negative; a frame a receive loop has read is always handled: forward is defined on it and the engine
  invariant holds again; and unless a Start and the body of a Stop have been under way together, the
  wait group does not panic either.
\<close>
theorem goroutines_never_panic:
  assumes "engine_wf e0" and "life_reach decode ser ops e0 s"
  shows "wg s = live_count s \<and> engine_wf (eng s) \<and>
         (\<forall>i frm now. (i, RxForward frm) \<in> set (rxs s) \<longrightarrow> (\<exists>e. forward decode ser ops i frm now (eng s) = Some e \<and> engine_wf e)) \<and>
         (\<not> overlap s \<longrightarrow> starter s \<noteq> StartPanic \<and> (\<forall>t. stoppers s t \<noteq> StopPanic))"
proof -
  have inv: "life_inv e0 s" by (rule life_reach_inv [OF assms(2,1)])
  have "\<exists>e. forward decode ser ops i frm now (eng s) = Some e \<and> engine_wf e"
    if "(i, RxForward frm) \<in> set (rxs s)" for i frm now
    using that inv forward_step [of "eng s" i decode ser ops frm now] life_inv_lengths [OF inv]
    by (fastforce simp: life_inv_def)
  with inv life_reach_apart [OF assms(2,1)] show ?thesis by (auto simp: life_inv_def apart_def)
qed

theorem goroutines_never_panic_witness:
  "wg (solo solo_engine [(0, RxRead)] 1 StartIdle StopWait OnceBusy 2 1 0) =
   live_count (solo solo_engine [(0, RxRead)] 1 StartIdle StopWait OnceBusy 2 1 0)"
  using goroutines_never_panic [OF solo_wf(1) solo_reading] by blast

end
