(* ===== verification/System.thy ===== *)
theory System
  imports ConcurLive Lifecycle
begin

text \<open>
  The switch as a whole while it runs: Start, Stop and the goroutines of theory \<open>Lifecycle\<close>, with the
  interleaved data path of theory \<open>Concur\<close> in the place of the atomic \<open>forward\<close>. The control state keeps
  the engine, so the state of the data path (\<open>dp\<close>) is a view: the engine together with the table, the
  program counters inside \<open>forward\<close>, the snapshots and the log.

  \<open>Start\<close> is called once, as \<open>main.go\<close> and the harness do: goroutine \<open>g\<close> serves port \<open>g\<close> and is thread \<open>g\<close>
  of the table; the collector is the thread after them. A receive loop reads, and the frame it gets
  starts the data path's goroutine; the loop goes on when that has finished. The collector takes a
  tick, runs \<open>reap\<close> step by step, and looks at \<open>done\<close> only between two ticks. Changes of the ageing
  duration and snapshots may come at any time. All of it interleaves with any number of Stop calls.
\<close>

section \<open>The model\<close>

record 'h system =
  ctl :: "'h life"
  started :: bool
  collecting :: bool
  stab :: shared
  spcs :: "nat \<Rightarrow> fwd_pc"
  sadds :: "nat \<Rightarrow> add list"
  ssnaps :: "nat \<Rightarrow> snap_pc"
  sevents :: "Concur.event list"

definition dp :: "'h system \<Rightarrow> 'h conc" where
  "dp s = \<lparr>sw = eng (ctl s), tab = stab s, pcs = spcs s, adds = sadds s, snaps = ssnaps s, events = sevents s\<rparr>"

definition set_dp :: "'h conc \<Rightarrow> 'h system \<Rightarrow> 'h system" where
  "set_dp c s = s\<lparr>ctl := (ctl s)\<lparr>eng := sw c\<rparr>, stab := tab c, spcs := pcs c, sadds := adds c,
     ssnaps := snaps c, sevents := events c\<rparr>"

definition collector_tid :: "'h system \<Rightarrow> nat" where
  "collector_tid s = length (ports (eng (ctl s)))"

inductive system_step :: "decoder \<Rightarrow> serializer \<Rightarrow> 'h PacketIO \<Rightarrow> 'h system \<Rightarrow> 'h system \<Rightarrow> bool"
  for decode :: decoder and ser :: serializer and ops :: "'h PacketIO"
where
  steer: "ctl_step ops (ctl s) l \<Longrightarrow> (starter (ctl s) = StartIdle \<and> starter l \<noteq> StartIdle \<longrightarrow> \<not> started s) \<Longrightarrow>
     (gcs l < gcs (ctl s) \<longrightarrow> \<not> collecting s) \<Longrightarrow>
     system_step decode ser ops s (s\<lparr>ctl := l, started := started s \<or> starter l \<noteq> StartIdle\<rparr>)"
| read: "g < length (rxs (ctl s)) \<Longrightarrow> rxs (ctl s) ! g = (i, RxRead) \<Longrightarrow>
     ReadPacketData ops (io (ports (eng (ctl s)) ! i)) = (ReadData frm, h) \<Longrightarrow>
     s1 = s\<lparr>ctl := rx_goto g (RxForward frm) (set_io i h (ctl s))\<rparr> \<Longrightarrow>
     system_step decode ser ops s (set_dp (start_frame i frm (dp s1)) s1)"
| work: "g < length (rxs (ctl s)) \<Longrightarrow> rxs (ctl s) ! g = (i, RxForward frm) \<Longrightarrow> busy (dp s) i \<Longrightarrow>
     conc_step decode ser ops i (dp s) c \<Longrightarrow> system_step decode ser ops s (set_dp c s)"
| handled: "g < length (rxs (ctl s)) \<Longrightarrow> rxs (ctl s) ! g = (i, RxForward frm) \<Longrightarrow> \<not> busy (dp s) i \<Longrightarrow>
     system_step decode ser ops s (s\<lparr>ctl := rx_goto g RxCheck (ctl s)\<rparr>)"
| tick: "0 < gcs (ctl s) \<Longrightarrow> \<not> collecting s \<Longrightarrow>
     system_step decode ser ops s (s\<lparr>collecting := True, stab := goto (collector_tid s) (ReapAge now) (stab s)\<rparr>)"
| reap_run: "collecting s \<Longrightarrow> \<not> finished (threads (stab s) (collector_tid s)) \<Longrightarrow> table_step (collector_tid s) (dp s) f \<Longrightarrow>
     system_step decode ser ops s (s\<lparr>stab := f\<rparr>)"
| reaped: "collecting s \<Longrightarrow> finished (threads (stab s) (collector_tid s)) \<Longrightarrow>
     system_step decode ser ops s (s\<lparr>collecting := False\<rparr>)"
| ageing: "system_step decode ser ops s (s\<lparr>stab := (stab s)\<lparr>age_ns := d\<rparr>\<rparr>)"
| snapshot: "conc_step decode ser ops r (dp s) c \<Longrightarrow> c = snap_goto r pc (dp s) \<Longrightarrow>
     system_step decode ser ops s (set_dp c s)"

definition new_system :: "'h engine \<Rightarrow> 'h system" where
  "new_system e = \<lparr>ctl = idle_life e, started = False, collecting = False, stab = tab (conc_init e), spcs = (\<lambda>_. FwdIdle),
     sadds = (\<lambda>_. []), ssnaps = (\<lambda>_. SnapOut), sevents = []\<rparr>"

inductive system_reach :: "decoder \<Rightarrow> serializer \<Rightarrow> 'h PacketIO \<Rightarrow> 'h engine \<Rightarrow> 'h system \<Rightarrow> bool"
  for decode :: decoder and ser :: serializer and ops :: "'h PacketIO" and e0 :: "'h engine"
where
  init: "system_reach decode ser ops e0 (new_system e0)"
| step: "system_reach decode ser ops e0 s \<Longrightarrow> system_step decode ser ops s s' \<Longrightarrow> system_reach decode ser ops e0 s'"

section \<open>The view\<close>

lemma dp_sel [simp]:
  "sw (dp s) = eng (ctl s)" "tab (dp s) = stab s" "pcs (dp s) = spcs s" "adds (dp s) = sadds s"
  "snaps (dp s) = ssnaps s" "events (dp s) = sevents s"
  by (simp_all add: dp_def)

lemma set_dp_sel [simp]:
  "ctl (set_dp c s) = (ctl s)\<lparr>eng := sw c\<rparr>" "started (set_dp c s) = started s" "collecting (set_dp c s) = collecting s"
  "stab (set_dp c s) = tab c" "spcs (set_dp c s) = pcs c" "sadds (set_dp c s) = adds c" "ssnaps (set_dp c s) = snaps c"
  "sevents (set_dp c s) = events c"
  by (simp_all add: set_dp_def)

lemma dp_set_dp [simp]: "dp (set_dp c s) = c"
  by (simp add: dp_def)

lemma dp_upd [simp]:
  "dp (s\<lparr>ctl := l\<rparr>) = (dp s)\<lparr>sw := eng l\<rparr>" "dp (s\<lparr>started := b\<rparr>) = dp s" "dp (s\<lparr>collecting := b\<rparr>) = dp s"
  "dp (s\<lparr>stab := f\<rparr>) = (dp s)\<lparr>tab := f\<rparr>"
  by (simp_all add: dp_def)

lemma dp_same [simp]: "(dp s)\<lparr>sw := eng (ctl s)\<rparr> = dp s" "(dp s)\<lparr>tab := stab s\<rparr> = dp s"
  by (simp_all add: dp_def)

lemma busy_cong: "pcs c' i = pcs c i \<Longrightarrow> adds c' i = adds c i \<Longrightarrow> busy c' i = busy c i"
  by (simp add: busy_def)

section \<open>What steps of the parts leave alone\<close>

lemma ctl_step_eng: "ctl_step ops l l' \<Longrightarrow> eng l' = eng l \<or> (\<exists>j h. eng l' = set_handle j h (eng l))"
  by (induction rule: ctl_step.induct) (simp_all add: rx_exit_def set_handle_def [symmetric], blast+)

definition forwarding :: "'h life \<Rightarrow> nat \<Rightarrow> bool" where
  "forwarding l i \<longleftrightarrow> i < length (rxs l) \<and> (\<exists>frm. snd (rxs l ! i) = RxForward frm)"

lemma forwarding_goto:
  "g < length (rxs l) \<Longrightarrow> forwarding (rx_goto g pc l) i \<longleftrightarrow> (if i = g then \<exists>frm. pc = RxForward frm else forwarding l i)"
  by (auto simp: forwarding_def nth_list_update)

lemma forwarding_cong: "rxs l' = rxs l \<Longrightarrow> forwarding l' i = forwarding l i"
  by (simp add: forwarding_def)

lemma ctl_step_forwarding: "ctl_step ops l l' \<Longrightarrow> forwarding l' i = forwarding l i"
proof (induction rule: ctl_step.induct)
  case (start_go s j)
  then show ?case by (auto simp: forwarding_def nth_append less_Suc_eq)
qed (auto simp: rx_exit_def forwarding_goto nth_list_update forwarding_def split: if_splits)

text \<open>How far Start has got.\<close>

definition launched :: "'h life \<Rightarrow> bool \<Rightarrow> bool" where
  "launched l st \<longleftrightarrow> gcs l \<le> 1 \<and> (\<forall>g < length (rxs l). fst (rxs l ! g) = g) \<and>
     (case starter l of
        StartIdle \<Rightarrow> \<not> st \<longrightarrow> rxs l = [] \<and> gcs l = 0
      | StartAdd i \<Rightarrow> st \<and> length (rxs l) = i \<and> gcs l = 0
      | StartGo i \<Rightarrow> st \<and> length (rxs l) = i \<and> gcs l = 0
      | _ \<Rightarrow> st \<and> gcs l = 0)"

lemma launched_goto: "launched l st \<Longrightarrow> g < length (rxs l) \<Longrightarrow> launched (rx_goto g pc l) st"
  by (cases "starter l") (auto simp: launched_def nth_list_update)

lemma launched_cong: "rxs l' = rxs l \<Longrightarrow> gcs l' = gcs l \<Longrightarrow> starter l' = starter l \<Longrightarrow> launched l' st = launched l st"
  by (cases "starter l") (simp_all add: launched_def)

lemma control_eng [simp]: "launched (l\<lparr>eng := e\<rparr>) st = launched l st" "forwarding (l\<lparr>eng := e\<rparr>) i = forwarding l i"
  by (rule launched_cong) (simp_all add: forwarding_def)

lemma launched_started: "launched l st \<Longrightarrow> starter l \<noteq> StartIdle \<Longrightarrow> st"
  by (cases "starter l") (simp_all add: launched_def)

lemma ctl_step_launched:
  assumes "ctl_step ops l l'" and "launched l st" and "starter l = StartIdle \<and> starter l' \<noteq> StartIdle \<longrightarrow> \<not> st"
  shows "launched l' (st \<or> starter l' \<noteq> StartIdle)"
  using assms
proof (induction rule: ctl_step.induct)
  case (start_go s j)
  then show ?case by (auto simp: launched_def nth_append less_Suc_eq)
next
  case (gc_done s)
  then show ?case by (cases "starter s") (auto simp: launched_def)
qed (auto simp: launched_def rx_exit_def nth_list_update split: start_pc.splits)

lemma conc_step_thread: "conc_step decode ser ops i c c' \<Longrightarrow> u \<noteq> i \<Longrightarrow> threads (tab c') u = threads (tab c) u"
  by (cases rule: conc_step.cases) (auto dest: table_step_fdb simp: fdb_step_other)

lemma conc_step_fdb: "conc_step decode ser ops i c c' \<Longrightarrow> fdb (sw c') = fdb (sw c)"
proof (induction rule: conc_step.induct)
  case (add c a as)
  then show ?case by (cases a) (simp add: atomic_add.simps upd_port_def)
qed (auto simp: set_parser_def set_handle_def write_port_def Let_def upd_port_def)

lemma conc_reach_wf: "conc_reach decode ser ops e0 c \<Longrightarrow> engine_wf e0 \<Longrightarrow> engine_wf (sw c)"
proof (rule same_config_wf [of e0])
  assume "conc_reach decode ser ops e0 c" and wf: "engine_wf e0"
  then have "fdb (sw c) = fdb e0"
    by (induction rule: conc_reach.induct) (auto simp: conc_init_def conc_step_fdb)
  then show "ft.confined (in_vlan e0) (fdb (sw c))" using wf by (simp add: engine_wf_def)
qed (simp_all add: conc_reach_config)

section \<open>The invariant\<close>

text \<open>Where the collector's thread may be: inside \<open>reap\<close>, or out of it.\<close>

fun reaping :: "thread \<Rightarrow> bool" where
  "reaping Idle = True"
| "reaping (ReapAge n) = True"
| "reaping (ReapLock n d) = True"
| "reaping (ReapLoop n d ks) = True"
| "reaping Unlocking = True"
| "reaping th = False"

lemma reaping_finished: "reaping th \<Longrightarrow> finished th \<longleftrightarrow> th = Idle"
  by (cases th) (simp_all add: finished_def)

lemma reaping_step:
  "fdb_step t f f' \<Longrightarrow> reaping (threads f t) \<Longrightarrow> \<not> finished (threads f t) \<Longrightarrow>
     reaping (threads f' t) \<and> dom (ptable f') \<subseteq> dom (ptable f)"
  by (cases rule: fdb_step.cases) (auto split: if_splits)

definition placed :: "'h system \<Rightarrow> bool" where
  "placed s \<longleftrightarrow> launched (ctl s) (started s) \<and> (\<forall>i. \<not> forwarding (ctl s) i \<longrightarrow> \<not> busy (dp s) i) \<and>
     (collecting s \<longrightarrow> gcs (ctl s) = 1) \<and> reaping (threads (stab s) (collector_tid s)) \<and>
     (\<not> collecting s \<longrightarrow> threads (stab s) (collector_tid s) = Idle) \<and>
     (\<forall>t > collector_tid s. threads (stab s) t = Idle)"

definition system_inv :: "decoder \<Rightarrow> serializer \<Rightarrow> 'h PacketIO \<Rightarrow> 'h engine \<Rightarrow> 'h system \<Rightarrow> bool" where
  "system_inv decode ser ops e0 s \<longleftrightarrow> life_inv e0 (ctl s) \<and> conc_reach decode ser ops e0 (dp s) \<and> placed s"

lemma system_invD:
  assumes "system_inv decode ser ops e0 s"
  shows "life_inv e0 (ctl s)" "conc_reach decode ser ops e0 (dp s)" "placed s" "collector_tid s = length (ports e0)"
    "engine_wf (eng (ctl s))" "launched (ctl s) (started s)"
  using assms life_inv_lengths [of e0 "ctl s"] by (auto simp: system_inv_def collector_tid_def life_inv_def placed_def)

lemma rx_port:
  assumes "system_inv decode ser ops e0 s" and "g < length (rxs (ctl s))" and "rxs (ctl s) ! g = (i, pc)"
  shows "i = g" and "g < length (ports e0)"
proof -
  have "fst (rxs (ctl s) ! g) = g" using system_invD(6) [OF assms(1)] assms(2) by (simp add: launched_def)
  then show i: "i = g" using assms(3) by simp
  show "g < length (ports e0)"
    using system_invD(1) [OF assms(1)] nth_mem [OF assms(2)] assms(3) i by (fastforce simp: life_inv_def)
qed

lemma not_forwarding: "rxs l ! g = (i, pc) \<Longrightarrow> (\<forall>frm. pc \<noteq> RxForward frm) \<Longrightarrow> \<not> forwarding l g"
  by (simp add: forwarding_def)

lemma conc_handle:
  assumes "conc_reach decode ser ops e0 c"
  shows "conc_reach decode ser ops e0 (c\<lparr>sw := set_handle j h (sw c)\<rparr>)"
  by (rule conc_reach.step [OF assms handle [of "length (ports (sw c))"]]) simp

lemma placed_table:
  assumes "placed s" and "reaping (threads f (collector_tid s))" and "c \<longrightarrow> gcs (ctl s) = 1"
    and "\<not> c \<longrightarrow> threads f (collector_tid s) = Idle" and "\<forall>t > collector_tid s. threads f t = threads (stab s) t"
  shows "placed (s\<lparr>collecting := c, stab := f\<rparr>)"
  using assms by (auto simp: placed_def launched_def collector_tid_def busy_def)

lemma system_inv_steer:
  assumes inv: "system_inv decode ser ops e0 s" and step: "ctl_step ops (ctl s) l"
    and once: "starter (ctl s) = StartIdle \<and> starter l \<noteq> StartIdle \<longrightarrow> \<not> started s"
    and gc: "gcs l < gcs (ctl s) \<longrightarrow> \<not> collecting s"
  shows "system_inv decode ser ops e0 (s\<lparr>ctl := l, started := started s \<or> starter l \<noteq> StartIdle\<rparr>)"
    (is "system_inv _ _ _ _ ?s")
  unfolding system_inv_def
proof (intro conjI)
  note i = system_invD [OF inv]
  show life: "life_inv e0 (ctl ?s)" using ctl_step_inv [OF step i(1)] by simp
  show "conc_reach decode ser ops e0 (dp ?s)"
    using ctl_step_eng [OF step] i(2) conc_handle [OF i(2)] by auto
  have "launched l (started ?s)" using ctl_step_launched [OF step i(6) once] by simp
  moreover have "collector_tid ?s = collector_tid s"
    using life_inv_lengths [OF life] i(4) by (simp add: collector_tid_def)
  moreover have "gcs l = 1" if "collecting s"
    using that i(3) gc \<open>launched l _\<close> by (auto simp: placed_def launched_def)
  ultimately show "placed ?s" using i(3) ctl_step_forwarding [OF step] by (simp add: placed_def busy_def)
qed

lemma system_inv_read:
  assumes inv: "system_inv decode ser ops e0 s" and g: "g < length (rxs (ctl s))" "rxs (ctl s) ! g = (i, RxRead)"
    and read: "ReadPacketData ops (io (ports (eng (ctl s)) ! i)) = (ReadData frm, h)"
    and s1: "s1 = s\<lparr>ctl := rx_goto g (RxForward frm) (set_io i h (ctl s))\<rparr>"
  shows "system_inv decode ser ops e0 (set_dp (start_frame i frm (dp s1)) s1)" (is "system_inv _ _ _ _ ?s")
  unfolding system_inv_def
proof (intro conjI)
  note v = system_invD [OF inv] and i = rx_port [OF inv g]
  have l: "life_inv e0 (ctl s1)"
    using life_step_inv [OF rx_data [OF g read] v(1)] s1 by simp
  moreover have "ctl ?s = ctl s1" by simp
  ultimately show "life_inv e0 (ctl ?s)" by simp
  have "dp s1 = (dp s)\<lparr>sw := set_handle i h (sw (dp s))\<rparr>" by (simp add: s1 set_handle_def)
  then have r1: "conc_reach decode ser ops e0 (dp s1)" using conc_handle [OF v(2)] by simp
  have "\<not> busy (dp s) i" using v(3) not_forwarding [OF g(2)] i(1) by (auto simp: placed_def)
  then have idle: "\<not> busy (dp s1) i" by (simp add: s1 busy_def)
  show "conc_reach decode ser ops e0 (dp ?s)" using start_frame_reach [OF r1 _ idle] i by simp
  have "launched (ctl s1) (started s)" using v(6) s1 launched_cong [of "set_io i h (ctl s)" "ctl s"]
    by (simp add: launched_goto g(1))
  moreover have "forwarding (ctl s1) k \<longleftrightarrow> k = g \<or> forwarding (ctl s) k" for k
    using g(1) s1 forwarding_cong [of "set_io i h (ctl s)" "ctl s" k] by (simp add: forwarding_goto)
  moreover have "collector_tid ?s = collector_tid s" by (simp add: s1 collector_tid_def)
  moreover have "busy (dp ?s) k \<longleftrightarrow> busy (dp s) k" if "k \<noteq> g" for k
    using that i by (simp add: busy_def s1 start_frame_def)
  ultimately show "placed ?s" using v(3) s1 by (auto simp: placed_def)
qed

lemma system_inv_work:
  assumes inv: "system_inv decode ser ops e0 s" and step: "conc_step decode ser ops i (dp s) c"
    and i: "i < length (ports e0) \<and> forwarding (ctl s) i \<or> (\<exists>pc. c = snap_goto i pc (dp s))"
  shows "system_inv decode ser ops e0 (set_dp c s)"
  unfolding system_inv_def
proof (intro conjI)
  note v = system_invD [OF inv]
  have reach: "conc_reach decode ser ops e0 c" by (rule conc_reach.step [OF v(2) step])
  then show "conc_reach decode ser ops e0 (dp (set_dp c s))" by simp
  have wf0: "engine_wf (sw c)" and sc: "same_config (eng (ctl s)) (sw c)"
  proof -
    show sc: "same_config (eng (ctl s)) (sw c)"
      using conc_reach_config [OF reach] conc_reach_config [OF v(2)]
      by (auto simp: same_config_def)
    have "fdb (sw c) = fdb (eng (ctl s))" using conc_step_fdb [OF step] by simp
    then show "engine_wf (sw c)" using v(5) by (intro same_config_wf [OF sc]) (simp_all add: engine_wf_def)
  qed
  show "life_inv e0 (ctl (set_dp c s))" using life_inv_eng [OF v(1) wf0 sc] by simp
  have tid: "collector_tid (set_dp c s) = collector_tid s"
    using same_config_length [OF sc] by (simp add: collector_tid_def)
  have "forwarding (ctl (set_dp c s)) k = forwarding (ctl s) k" for k by (simp add: forwarding_def)
  moreover have "busy c k = busy (dp s) k" if "\<not> forwarding (ctl s) k" for k
    using i that conc_step_others [OF step, of k] by (cases "k = i") (auto simp: busy_def)
  moreover have "threads (tab c) t = threads (stab s) t" if "collector_tid s \<le> t" for t
    using i that conc_step_thread [OF step, of t] v(4) by auto
  ultimately show "placed (set_dp c s)" using v(3) launched_cong [of "ctl (set_dp c s)" "ctl s"] by (simp add: placed_def tid)
qed

lemma system_inv_handled:
  assumes inv: "system_inv decode ser ops e0 s" and g: "g < length (rxs (ctl s))" "rxs (ctl s) ! g = (i, RxForward frm)"
    and idle: "\<not> busy (dp s) i"
  shows "system_inv decode ser ops e0 (s\<lparr>ctl := rx_goto g RxCheck (ctl s)\<rparr>)" (is "system_inv _ _ _ _ ?s")
  unfolding system_inv_def
proof (intro conjI)
  note v = system_invD [OF inv] and i = rx_port [OF inv g]
  show "life_inv e0 (ctl ?s)"
    using rx_step_inv [OF v(1) g, of "eng (ctl s)" RxCheck] v(5) by (simp add: uses_handle_def)
  show "conc_reach decode ser ops e0 (dp ?s)" using v(2) by simp
  have "launched (ctl ?s) (started ?s)" using launched_goto [OF v(6) g(1)] by simp
  then show "placed ?s"
    using v(3) idle i(1) g(1) by (auto simp: placed_def forwarding_goto collector_tid_def busy_def)
qed

lemma system_inv_table:
  assumes inv: "system_inv decode ser ops e0 s" and step: "table_step (collector_tid s) (dp s) f"
    and thread: "reaping (threads f (collector_tid s))" "c \<longrightarrow> gcs (ctl s) = 1" "\<not> c \<longrightarrow> threads f (collector_tid s) = Idle"
  shows "system_inv decode ser ops e0 (s\<lparr>collecting := c, stab := f\<rparr>)"
  unfolding system_inv_def
proof (intro conjI)
  note v = system_invD [OF inv]
  have "\<forall>k p n. threads f (collector_tid s) \<noteq> LearnRead k p n" using thread(1) by (cases "threads f (collector_tid s)") auto
  from conc_step.others [OF _ step this]
  have "conc_step decode ser ops (collector_tid s) (dp s) ((dp s)\<lparr>tab := f\<rparr>)" by (simp add: collector_tid_def)
  from conc_reach.step [OF v(2) this] show "conc_reach decode ser ops e0 (dp (s\<lparr>collecting := c, stab := f\<rparr>))" by simp
  show "placed (s\<lparr>collecting := c, stab := f\<rparr>)"
    using placed_table [OF v(3) thread] fdb_step_other [OF table_step_fdb [OF step]] by simp
qed (use system_invD(1) [OF inv] in simp)

lemma table_step_keeps:
  "fdb_step t (tab c) f \<Longrightarrow> writer f = writer (tab c) \<Longrightarrow> table_step t c f"
  by (auto simp: table_step_def)

lemma system_step_inv:
  assumes "system_step decode ser ops s s'" and "system_inv decode ser ops e0 s"
  shows "system_inv decode ser ops e0 s'"
  using assms
proof (induction rule: system_step.induct)
  case (steer s l)
  then show ?case by (intro system_inv_steer)
next
  case (read g s i frm h s1)
  then show ?case by (intro system_inv_read)
next
  case (work g s i frm c)
  have "i < length (ports e0) \<and> forwarding (ctl s) i"
    using rx_port [OF work(5,1,2)] work(1,2) by (simp add: forwarding_def)
  then show ?case using system_inv_work [OF work(5,4)] by blast
next
  case (handled g s i frm)
  then show ?case by (intro system_inv_handled)
next
  case (tick s now)
  note v = system_invD [OF tick(3)]
  have th: "threads (stab s) (collector_tid s) = Idle" using v(3) tick(2) by (simp add: placed_def)
  then have "fdb_step (collector_tid s) (tab (dp s)) (goto (collector_tid s) (ReapAge now) (stab s))"
    using fdb_step.call_reap [of "stab s"] by simp
  from system_inv_table [OF tick(3) table_step_keeps [OF this], of True] show ?case
    using tick(1) v(6) by (simp add: launched_def)
next
  case (reap_run s f)
  note v = system_invD [OF reap_run(4)]
  have "reaping (threads f (collector_tid s))"
    using reaping_step [OF table_step_fdb [OF reap_run(3)]] v(3) reap_run(2) by (simp add: placed_def)
  then have "system_inv decode ser ops e0 (s\<lparr>collecting := collecting s, stab := f\<rparr>)"
    using v(3) reap_run(1) by (intro system_inv_table [OF reap_run(4,3)]) (simp_all add: placed_def)
  then show ?case by simp
next
  case (reaped s)
  then show ?case by (auto simp: system_inv_def placed_def collector_tid_def busy_def reaping_finished)
next
  case (ageing s d)
  note v = system_invD [OF ageing]
  have "fdb_step (collector_tid s) (tab (dp s)) ((stab s)\<lparr>age_ns := d\<rparr>)" using fdb_step.set_age [of _ "stab s"] by simp
  from system_inv_table [OF ageing table_step_keeps [OF this], of "collecting s"] v(3) show ?case by (simp add: placed_def)
next
  case (snapshot r s c pc)
  then show ?case by (auto intro: system_inv_work)
qed

lemma system_reach_inv:
  "system_reach decode ser ops e0 s \<Longrightarrow> engine_wf e0 \<Longrightarrow> system_inv decode ser ops e0 s"
proof (induction rule: system_reach.induct)
  case init
  have "dp (new_system e0) = conc_init e0" by (simp add: new_system_def dp_def conc_init_def idle_life_def)
  then have "conc_reach decode ser ops e0 (dp (new_system e0))" by (simp add: conc_reach.init)
  moreover have "life_inv e0 (ctl (new_system e0))"
    using life_reach_inv [OF life_reach.init init] by (simp add: new_system_def)
  moreover have "placed (new_system e0)"
    by (simp add: placed_def new_system_def launched_def idle_life_def busy_def conc_init_def init_shared_def)
  ultimately show ?case by (simp add: system_inv_def)
next
  case (step s s')
  then show ?case by (blast intro: system_step_inv)
qed

lemma system_run_inv:
  "(system_step decode ser ops)\<^sup>*\<^sup>* s s' \<Longrightarrow> system_inv decode ser ops e0 s \<Longrightarrow> system_inv decode ser ops e0 s'"
  by (induction rule: rtranclp_induct) (auto intro: system_step_inv)

lemma system_reach_apart: "system_reach decode ser ops e0 s \<Longrightarrow> engine_wf e0 \<Longrightarrow> apart (ctl s)"
proof (induction rule: system_reach.induct)
  case init
  show ?case by (simp add: apart_def new_system_def idle_life_def)
next
  case (step s s')
  have "once_ok (ctl s)" using system_invD(1) [OF system_reach_inv [OF step(1,4)]] by (simp add: life_inv_def)
  from step(2) show ?case
    by cases (use step(3,4) \<open>once_ok (ctl s)\<close> ctl_step_apart in auto)
qed

section \<open>After the first handle has been closed\<close>

text \<open>What the world can see of the switch.\<close>

definition silent :: "'h system \<Rightarrow> 'h system \<Rightarrow> bool" where
  "silent s s' \<longleftrightarrow> wire (eng (ctl s')) = wire (eng (ctl s)) \<and> map stats (ports (eng (ctl s'))) = map stats (ports (eng (ctl s))) \<and>
     sevents s' = sevents s \<and> dom (ptable (stab s')) \<subseteq> dom (ptable (stab s))"

lemma silent_trans: "silent s1 s2 \<Longrightarrow> silent s2 s3 \<Longrightarrow> silent s1 s3"
  unfolding silent_def by (metis subset_trans)

lemma map_stats_upd: "map stats (ports (set_handle j h e)) = map stats (ports e)"
  by (rule nth_equalityI) simp_all

lemma system_closed:
  assumes "system_inv decode ser ops e0 s" and "0 < handle_closes (ctl s) j"
  shows "(i, pc) \<in> set (rxs (ctl s)) \<Longrightarrow> \<not> uses_handle pc" and "\<not> busy (dp s) k"
proof -
  note v = system_invD [OF assms(1)]
  have no: "no_use (ctl s)" using v(1) once_ok_closes [of "ctl s" j] assms(2) by (simp add: life_inv_def)
  then show "\<not> uses_handle pc" if "(i, pc) \<in> set (rxs (ctl s))" using that by (auto simp: no_use_def)
  have "\<not> forwarding (ctl s) k"
  proof
    assume "forwarding (ctl s) k"
    then obtain frm where k: "k < length (rxs (ctl s))" "rxs (ctl s) ! k = (fst (rxs (ctl s) ! k), RxForward frm)"
      unfolding forwarding_def by (metis prod.collapse)
    show False using no_useD [OF no k] by (simp add: uses_handle_def)
  qed
  then show "\<not> busy (dp s) k" using v(3) by (simp add: placed_def)
qed

lemma system_step_silent:
  assumes "system_step decode ser ops s s'" and "system_inv decode ser ops e0 s" and "0 < handle_closes (ctl s) j"
  shows "silent s s' \<and> 0 < handle_closes (ctl s') j"
  using assms
proof (induction rule: system_step.induct)
  case (steer s l)
  have "handle_closes (ctl s) j \<le> handle_closes l j"
    using steer(1) by (cases rule: ctl_step.cases) (auto simp: rx_exit_def)
  moreover have "silent s (s\<lparr>ctl := l, started := st\<rparr>)" for st
    using ctl_step_eng [OF steer(1)] by (auto simp: silent_def map_stats_upd)
  ultimately show ?case using steer(5) by simp
next
  case (read g s i frm h s1)
  then show ?case using system_closed(1) [OF read(5,6), of i RxRead] nth_mem [OF read(1)] by (simp add: uses_handle_def)
next
  case (work g s i frm c)
  then show ?case using system_closed(2) [OF work(5,6)] by blast
next
  case (tick s now)
  then show ?case by (simp add: silent_def)
next
  case (reap_run s f)
  note v = system_invD [OF reap_run(4)]
  have "dom (ptable f) \<subseteq> dom (ptable (stab s))"
    using reaping_step [OF table_step_fdb [OF reap_run(3)]] v(3) reap_run(2) by (simp add: placed_def)
  with reap_run(5) show ?case by (simp add: silent_def)
qed (auto simp: silent_def)

lemma system_run_silent:
  assumes "(system_step decode ser ops)\<^sup>*\<^sup>* s s'" and "system_inv decode ser ops e0 s" and "0 < handle_closes (ctl s) j"
  shows "silent s s' \<and> 0 < handle_closes (ctl s') j"
  using assms
proof (induction rule: rtranclp_induct)
  case base
  then show ?case by (simp add: silent_def)
next
  case (step s1 s2)
  then show ?case
    using system_step_silent [OF step(2) system_run_inv [OF step(1)]] silent_trans by blast
qed

section \<open>Stop returns\<close>

lemma set_dp_set_dp [simp]: "set_dp c2 (set_dp c1 s) = set_dp c2 s" "set_dp (dp s) s = s"
  by (simp_all add: set_dp_def)

text \<open>Work begun in the data path can be gone on with in the switch.\<close>

lemma work_lift:
  assumes inv: "system_inv decode ser ops e0 s" and step: "work_step decode ser ops (dp s) c"
  shows "system_step decode ser ops s (set_dp c s)"
proof -
  note v = system_invD [OF inv]
  consider (snap) r pc where "conc_step decode ser ops r (dp s) c" "c = snap_goto r pc (dp s)"
    | (own) i where "fwd_own decode ser ops i (dp s) c"
    | (table) t f where "\<not> t < length (ports (eng (ctl s)))" "own_step t (stab s) f" "table_step t (dp s) f" "c = (dp s)\<lparr>tab := f\<rparr>"
    using step by (auto simp: work_step_def)
  then show ?thesis
  proof cases
    case snap
    then show ?thesis by (rule system_step.snapshot)
  next
    case own
    then have own: "conc_step decode ser ops i (dp s) c" "busy (dp s) i" by (simp_all add: fwd_own_def)
    then have "forwarding (ctl s) i" using v(3) by (auto simp: placed_def)
    then obtain frm where i: "i < length (rxs (ctl s))" "snd (rxs (ctl s) ! i) = RxForward frm" by (auto simp: forwarding_def)
    have "fst (rxs (ctl s) ! i) = i" using v(6) i(1) by (simp add: launched_def)
    then have "rxs (ctl s) ! i = (i, RxForward frm)" using i(2) by (metis prod.collapse)
    from system_step.work [OF i(1) this own(2,1)] show ?thesis .
  next
    case table
    have busy: "\<not> finished (threads (stab s) t)" using table(2) by (simp add: own_step_def)
    then have "\<not> collector_tid s < t" using v(3) by (auto simp: placed_def)
    then have t: "t = collector_tid s" using table(1) by (simp add: collector_tid_def)
    then have "collecting s" using busy v(3) by (auto simp: placed_def)
    moreover have "set_dp c s = s\<lparr>stab := f\<rparr>" by (simp add: table(4) set_dp_def)
    ultimately show ?thesis using system_step.reap_run [of s] busy table(3) t by simp
  qed
qed

lemma work_run_lift:
  assumes "(work_step decode ser ops)\<^sup>*\<^sup>* c c'" and "system_inv decode ser ops e0 s" and "c = dp s"
  shows "(system_step decode ser ops)\<^sup>*\<^sup>* s (set_dp c' s)"
  using assms
proof (induction rule: rtranclp_induct)
  case (step c1 c2)
  then have run: "(system_step decode ser ops)\<^sup>*\<^sup>* s (set_dp c1 s)" by blast
  from work_lift [OF system_run_inv [OF run step.prems(1)], of c2] step(2)
  have "system_step decode ser ops (set_dp c1 s) (set_dp c2 s)" by simp
  with run show ?case by (rule rtranclp.rtrancl_into_rtrancl)
qed simp

lemma move_lift:
  "stop_move ops (ctl s) l \<Longrightarrow> starter (ctl s) = StartIdle \<Longrightarrow> system_step decode ser ops s (s\<lparr>ctl := l\<rparr>)"
  using system_step.steer [of ops s l decode ser] by (simp add: stop_move_def)

lemma move_run_lift:
  assumes "(stop_move ops)\<^sup>*\<^sup>* l l'" and "starter l = StartIdle" and "l = ctl s"
  shows "(system_step decode ser ops)\<^sup>*\<^sup>* s (s\<lparr>ctl := l'\<rparr>) \<and> starter l' = StartIdle"
  using assms
proof (induction rule: rtranclp_induct)
  case (step l1 l2)
  then have run: "(system_step decode ser ops)\<^sup>*\<^sup>* s (s\<lparr>ctl := l1\<rparr>)" and idle: "starter l1 = StartIdle" by blast+
  have "system_step decode ser ops (s\<lparr>ctl := l1\<rparr>) ((s\<lparr>ctl := l1\<rparr>)\<lparr>ctl := l2\<rparr>)"
    by (rule move_lift) (use step(2) idle in simp_all)
  with run idle step(2) show ?case by (auto simp: stop_move_def intro: rtranclp.rtrancl_into_rtrancl)
qed simp

lemma collector_leaves:
  assumes inv: "system_inv decode ser ops e0 s" and wf: "engine_wf e0" and gc: "0 < gcs (ctl s)"
    and idle: "starter (ctl s) = StartIdle" and closed: "0 < done_closes (ctl s)"
  shows "\<exists>s' e. (system_step decode ser ops)\<^sup>*\<^sup>* s s' \<and>
           ctl s' = wg_done ((ctl s)\<lparr>eng := e, gcs := gcs (ctl s) - 1\<rparr>)"
proof -
  note v = system_invD [OF inv]
  have "\<exists>s1 e. (system_step decode ser ops)\<^sup>*\<^sup>* s s1 \<and> \<not> collecting s1 \<and> ctl s1 = (ctl s)\<lparr>eng := e\<rparr>"
  proof (cases "collecting s")
    case True
    obtain c where c: "(work_step decode ser ops)\<^sup>*\<^sup>* (dp s) c" "finished (threads (tab c) (collector_tid s))"
      using thread_ends [OF wf v(2), of "collector_tid s"] v(4) by auto
    note run = work_run_lift [OF c(1) inv refl]
    have "collector_tid (set_dp c s) = collector_tid s"
      using system_invD(4) [OF system_run_inv [OF run inv]] v(4) by simp
    then have "system_step decode ser ops (set_dp c s) ((set_dp c s)\<lparr>collecting := False\<rparr>)"
      using True c(2) by (intro system_step.reaped) simp_all
    with run have "(system_step decode ser ops)\<^sup>*\<^sup>* s ((set_dp c s)\<lparr>collecting := False\<rparr>)" by (rule rtranclp.rtrancl_into_rtrancl)
    then show ?thesis by (intro exI [of _ "(set_dp c s)\<lparr>collecting := False\<rparr>"] exI [of _ "sw c"]) simp
  next
    case False
    then show ?thesis by (intro exI [of _ s] exI [of _ "eng (ctl s)"]) simp
  qed
  then obtain s1 e where s1: "(system_step decode ser ops)\<^sup>*\<^sup>* s s1" "\<not> collecting s1" "ctl s1 = (ctl s)\<lparr>eng := e\<rparr>" by blast
  let ?l = "wg_done ((ctl s1)\<lparr>gcs := gcs (ctl s1) - 1\<rparr>)"
  have "ctl_step ops (ctl s1) ?l" by (rule gc_done) (simp_all add: s1(3) gc closed)
  from system_step.steer [OF this] have "system_step decode ser ops s1 (s1\<lparr>ctl := ?l, started := started s1 \<or> starter ?l \<noteq> StartIdle\<rparr>)"
    using s1(2,3) idle by simp
  with s1 show ?thesis by (intro exI conjI) (erule (1) rtranclp.rtrancl_into_rtrancl, simp)
qed

lemma reader_leaves:
  assumes inv: "system_inv decode ser ops e0 s" and wf: "engine_wf e0"
    and idle: "starter (ctl s) = StartIdle" and closed: "0 < done_closes (ctl s)"
    and g: "g < length (rxs (ctl s))" "rxs (ctl s) ! g = (i, pc)" "pc \<noteq> RxExited"
  shows "\<exists>s'. (system_step decode ser ops)\<^sup>*\<^sup>* s s' \<and> same_stop (ctl s) (ctl s') \<and> drain_rank (ctl s') < drain_rank (ctl s)"
proof -
  note v = system_invD [OF inv]
  have ctl: ?thesis if "stop_move ops (ctl s) l" "same_stop (ctl s) l" "drain_rank l < drain_rank (ctl s)" for l
    using move_lift [OF that(1) idle, of decode ser] that(2,3) by (intro exI [of _ "s\<lparr>ctl := l\<rparr>"]) auto
  show ?thesis
  proof (cases pc)
    case RxCheck
    have "stop_move ops (ctl s) (rx_exit g (ctl s))"
      using rx_done [of g "ctl s" i ops] g RxCheck closed by (simp add: stop_move_def rx_exit_def)
    then show ?thesis
      by (rule ctl) (use g RxCheck in \<open>auto simp: same_stop_def rx_exit_def rx_rank_def intro!: drain_rank_goto [of g "ctl s" RxExited]\<close>)
  next
    case RxRead
    obtain r h where r: "ReadPacketData ops (io (ports (eng (ctl s)) ! i)) = (r, h)"
      by (cases "ReadPacketData ops (io (ports (eng (ctl s)) ! i))")
    show ?thesis
    proof (cases r)
      case (ReadData frm)
      let ?s1 = "s\<lparr>ctl := rx_goto g (RxForward frm) (set_io i h (ctl s))\<rparr>"
      let ?s2 = "set_dp (start_frame i frm (dp ?s1)) ?s1"
      have "system_step decode ser ops s ?s2" using g RxRead r ReadData by (intro system_step.read [OF _ _ _ refl]) simp_all
      moreover have "drain_rank (ctl ?s2) < drain_rank (ctl s)"
        using g RxRead by (intro drain_rank_goto [of g "ctl s" "RxForward frm"]) (simp_all add: rx_rank_def)
      ultimately show ?thesis by (intro exI [of _ ?s2]) (auto simp: same_stop_def)
    next
      case ReadTimeout
      have "stop_move ops (ctl s) (rx_goto g RxCheck (set_io i h (ctl s)))"
        using rx_timeout [of g "ctl s" i ops h] g RxRead r ReadTimeout by (simp add: stop_move_def)
      then show ?thesis
      by (rule ctl) (use g RxRead in \<open>auto simp: same_stop_def rx_rank_def intro!: drain_rank_goto [of g "ctl s" RxCheck]\<close>)
    next
      case ReadError
      have "stop_move ops (ctl s) (rx_exit g (set_io i h (ctl s)))"
        using rx_error [of g "ctl s" i ops h] g RxRead r ReadError by (simp add: stop_move_def rx_exit_def)
      then show ?thesis
      by (rule ctl) (use g RxRead in \<open>auto simp: same_stop_def rx_exit_def rx_rank_def intro!: drain_rank_goto [of g "ctl s" RxExited]\<close>)
    qed
  next
    case (RxForward frm)
    obtain c where c: "(work_step decode ser ops)\<^sup>*\<^sup>* (dp s) c" "\<not> busy c i"
      using frame_ends [OF wf v(2), of i] rx_port [OF inv g(1,2)] by auto
    let ?s1 = "set_dp c s"
    let ?s2 = "?s1\<lparr>ctl := rx_goto g RxCheck (ctl ?s1)\<rparr>"
    have "system_step decode ser ops ?s1 ?s2" using g RxForward c(2) by (intro system_step.handled) simp_all
    with work_run_lift [OF c(1) inv refl] have "(system_step decode ser ops)\<^sup>*\<^sup>* s ?s2" by (rule rtranclp.rtrancl_into_rtrancl)
    moreover have "drain_rank (ctl ?s2) < drain_rank (ctl s)"
      using g RxForward by (intro drain_rank_goto [of g "ctl s" RxCheck]) (simp_all add: rx_rank_def)
    ultimately show ?thesis by (intro exI [of _ ?s2]) (simp add: same_stop_def)
  qed (use g in simp)
qed

lemma system_drains:
  assumes wf: "engine_wf e0"
  shows "system_inv decode ser ops e0 s \<Longrightarrow> starter (ctl s) = StartIdle \<Longrightarrow> 0 < done_closes (ctl s) \<Longrightarrow>
     \<exists>s'. (system_step decode ser ops)\<^sup>*\<^sup>* s s' \<and> same_stop (ctl s) (ctl s') \<and> wg (ctl s') = 0"
proof (induction "drain_rank (ctl s)" arbitrary: s rule: less_induct)
  case less
  note v = system_invD [OF less.prems(1)]
  show ?case
  proof (cases "wg (ctl s) = 0")
    case True
    then show ?thesis by (intro exI [of _ s]) (simp add: same_stop_def)
  next
    case False
    have "\<exists>s1. (system_step decode ser ops)\<^sup>*\<^sup>* s s1 \<and> same_stop (ctl s) (ctl s1) \<and> drain_rank (ctl s1) < drain_rank (ctl s)"
    proof (cases "gcs (ctl s) = 0")
      case True
      then have "filter (\<lambda>r. rx_live (snd r)) (rxs (ctl s)) \<noteq> []"
        using v(1) False less.prems(2) by (auto simp: life_inv_def live_count_def)
      then obtain g i pc where "g < length (rxs (ctl s))" "rxs (ctl s) ! g = (i, pc)" "pc \<noteq> RxExited"
        by (auto simp: filter_empty_conv in_set_conv_nth rx_live_def)
      from reader_leaves [OF less.prems(1) wf less.prems(2,3) this] show ?thesis .
    next
      case False
      then obtain s1 e where s1: "(system_step decode ser ops)\<^sup>*\<^sup>* s s1"
          "ctl s1 = wg_done ((ctl s)\<lparr>eng := e, gcs := gcs (ctl s) - 1\<rparr>)"
        using collector_leaves [OF less.prems(1) wf _ less.prems(2,3)] by blast
      then show ?thesis using False by (intro exI [of _ s1]) (simp add: same_stop_def drain_rank_def)
    qed
    then obtain s1 where s1: "(system_step decode ser ops)\<^sup>*\<^sup>* s s1" "same_stop (ctl s) (ctl s1)" "drain_rank (ctl s1) < drain_rank (ctl s)"
      by blast
    obtain s' where "(system_step decode ser ops)\<^sup>*\<^sup>* s1 s'" "same_stop (ctl s1) (ctl s')" "wg (ctl s') = 0"
      using less.hyps [OF s1(3) system_run_inv [OF s1(1) less.prems(1)]] s1(2) less.prems(2,3) by (auto simp: same_stop_def)
    with s1 show ?thesis by (intro exI [of _ s']) (auto simp: same_stop_def intro: rtranclp_trans)
  qed
qed

text \<open>Start, begun and not panicked, can run to its end.\<close>

lemma start_finishes:
  "system_inv decode ser ops e0 s \<Longrightarrow> starter (ctl s) \<noteq> StartPanic \<Longrightarrow>
     \<exists>s'. (system_step decode ser ops)\<^sup>*\<^sup>* s s' \<and> starter (ctl s') = StartIdle \<and> stoppers (ctl s') = stoppers (ctl s) \<and>
       stopOnce (ctl s') = stopOnce (ctl s) \<and> done_closes (ctl s') = done_closes (ctl s)"
proof (induction "start_rank (length (ports e0)) (starter (ctl s))" arbitrary: s rule: less_induct)
  case less
  show ?case
  proof (cases "starter (ctl s) = StartIdle")
    case False
    obtain l where l: "start_move ops (ctl s) l"
        "start_rank (length (ports e0)) (starter l) < start_rank (length (ports e0)) (starter (ctl s))"
      using start_moves [OF False less.prems(2) system_invD(1) [OF less.prems(1)]] by blast
    let ?s1 = "s\<lparr>ctl := l, started := started s \<or> starter l \<noteq> StartIdle\<rparr>"
    have step: "system_step decode ser ops s ?s1"
      using l(1) False by (intro system_step.steer) (simp_all add: start_move_def)
    obtain s' where "(system_step decode ser ops)\<^sup>*\<^sup>* ?s1 s'" "starter (ctl s') = StartIdle" "stoppers (ctl s') = stoppers l"
        "stopOnce (ctl s') = stopOnce l" "done_closes (ctl s') = done_closes l"
      using less.hyps [of ?s1] l system_step_inv [OF step less.prems(1)] by (auto simp: start_move_def)
    with step l(1) show ?thesis
      by (intro exI [of _ s']) (auto simp: start_move_def intro: converse_rtranclp_into_rtranclp)
  qed (intro exI [of _ s], simp)
qed

text \<open>From the wait on, the body of Stop can run to its end.\<close>

lemma system_wait_returns:
  assumes inv: "system_inv decode ser ops e0 s" and wf: "engine_wf e0" and idle: "starter (ctl s) = StartIdle"
    and closed: "0 < done_closes (ctl s)"
    and pc: "stoppers (ctl s) t \<in> {StopWait, StopParked, StopWoken} \<or> (\<exists>j. stoppers (ctl s) t = StopHandles j)"
  shows "\<exists>s'. (system_step decode ser ops)\<^sup>*\<^sup>* s s' \<and> stoppers (ctl s') = (stoppers (ctl s))(t := StopReturned) \<and>
           stopOnce (ctl s') = OnceDone"
proof -
  have ok: "once_ok (ctl s)" using system_invD(1) [OF inv] by (simp add: life_inv_def)
  have body: "in_once (stoppers (ctl s) t)" using pc by (auto simp: in_once_def)
  have from_handles: ?thesis
    if run: "(system_step decode ser ops)\<^sup>*\<^sup>* s s1" and st: "stoppers (ctl s1) = (stoppers (ctl s))(t := StopHandles j)"
      and j: "j \<le> length (ports (eng (ctl s1)))" "starter (ctl s1) = StartIdle" for s1 j
  proof -
    obtain l where l: "(stop_move ops)\<^sup>*\<^sup>* (ctl s1) l" "stoppers l = (stoppers (ctl s1))(t := StopReturned)" "stopOnce l = OnceDone"
      using closes_handles [of "ctl s1" t j ops] st j by auto
    then have "(system_step decode ser ops)\<^sup>*\<^sup>* s1 (s1\<lparr>ctl := l\<rparr>)" using move_run_lift [OF l(1) j(2) refl] by blast
    then show ?thesis
      using run st l(2,3) by (intro exI [of _ "s1\<lparr>ctl := l\<rparr>"]) (auto intro: rtranclp_trans)
  qed
  show ?thesis
  proof (cases "\<exists>j. stoppers (ctl s) t = StopHandles j")
    case True
    then obtain j where j: "stoppers (ctl s) t = StopHandles j" by blast
    have "j \<le> length (ports (eng (ctl s)))" using once_pc(3) [OF ok body] j by (simp add: body_ok_def)
    then show ?thesis by (intro from_handles [of s j]) (use j idle in auto)
  next
    case False
    obtain s2 where s2: "(system_step decode ser ops)\<^sup>*\<^sup>* s s2" "same_stop (ctl s) (ctl s2)" "wg (ctl s2) = 0"
      using system_drains [OF wf inv idle closed] by blast
    have ok2: "once_ok (ctl s2)" using system_invD(1) [OF system_run_inv [OF s2(1) inv]] by (simp add: life_inv_def)
    have "stoppers (ctl s2) t \<in> {StopWait, StopParked, StopWoken}" using s2(2) pc False by (auto simp: same_stop_def)
    from drained_body [OF ok2 s2(3) this]
    have "ctl_step ops (ctl s2) (stop_goto t (StopHandles 0) (ctl s2))" using s2(3) stop_wait stop_woken by blast
    then have "stop_move ops (ctl s2) (stop_goto t (StopHandles 0) (ctl s2))" by (simp add: stop_move_def)
    then have "system_step decode ser ops s2 (s2\<lparr>ctl := stop_goto t (StopHandles 0) (ctl s2)\<rparr>)"
      by (rule move_lift) (use s2(2) idle in \<open>simp add: same_stop_def\<close>)
    with s2(1) have run: "(system_step decode ser ops)\<^sup>*\<^sup>* s (s2\<lparr>ctl := stop_goto t (StopHandles 0) (ctl s2)\<rparr>)"
      by (rule rtranclp.rtrancl_into_rtrancl)
    have "stoppers (ctl s) u \<noteq> StopParked" if "u \<noteq> t" for u using once_pc(2) [OF ok body] that by fastforce
    then have "(stoppers (ctl s2))(t := StopHandles 0) = (stoppers (ctl s))(t := StopHandles 0)"
      using s2(2) by (auto simp: same_stop_def fun_eq_iff)
    then show ?thesis by (intro from_handles [OF run, of 0]) (use s2(2) idle in \<open>simp_all add: same_stop_def\<close>)
  qed
qed

lemma system_body_returns:
  assumes inv: "system_inv decode ser ops e0 s" and wf: "engine_wf e0" and start: "starter (ctl s) \<noteq> StartPanic"
    and body: "in_once (stoppers (ctl s) t)" and live: "stoppers (ctl s) t \<noteq> StopPanic"
  shows "\<exists>s'. (system_step decode ser ops)\<^sup>*\<^sup>* s s' \<and> stoppers (ctl s') = (stoppers (ctl s))(t := StopReturned) \<and>
           stopOnce (ctl s') = OnceDone"
proof -
  obtain s1 where s1: "(system_step decode ser ops)\<^sup>*\<^sup>* s s1" "starter (ctl s1) = StartIdle" "stoppers (ctl s1) = stoppers (ctl s)"
    using start_finishes [OF inv start] by blast
  note inv1 = system_run_inv [OF s1(1) inv]
  have ok: "once_ok (ctl s1)" using system_invD(1) [OF inv1] by (simp add: life_inv_def)
  have body1: "in_once (stoppers (ctl s1) t)" using body s1(3) by simp
  have "\<exists>s'. (system_step decode ser ops)\<^sup>*\<^sup>* s1 s' \<and> stoppers (ctl s') = (stoppers (ctl s1))(t := StopReturned) \<and>
      stopOnce (ctl s') = OnceDone"
  proof (cases "stoppers (ctl s1) t = StopClose")
    case True
    let ?s2 = "s1\<lparr>ctl := stop_goto t StopWait ((ctl s1)\<lparr>done_closes := done_closes (ctl s1) + 1\<rparr>)\<rparr>"
    have step: "system_step decode ser ops s1 ?s2"
      using stop_close [OF True] s1(2) by (intro move_lift) (simp_all add: stop_move_def)
    from system_wait_returns [OF system_step_inv [OF step inv1] wf, of t] s1(2)
    obtain s' where "(system_step decode ser ops)\<^sup>*\<^sup>* ?s2 s'" "stoppers (ctl s') = (stoppers (ctl s1))(t := StopReturned)"
      "stopOnce (ctl s') = OnceDone" by auto
    with step show ?thesis by (blast intro: converse_rtranclp_into_rtranclp)
  next
    case False
    then have "0 < done_closes (ctl s1)"
      and "stoppers (ctl s1) t \<in> {StopWait, StopParked, StopWoken} \<or> (\<exists>j. stoppers (ctl s1) t = StopHandles j)"
      using once_pc(3) [OF ok body1] live s1(3) body1 by (cases "stoppers (ctl s1) t"; simp add: body_ok_def in_once_def)+
    then show ?thesis by (intro system_wait_returns [OF inv1 wf s1(2)])
  qed
  with s1 show ?thesis by (metis rtranclp_trans)
qed

lemma system_unblocks:
  assumes inv: "system_inv decode ser ops e0 s" and wf: "engine_wf e0" and start: "starter (ctl s) \<noteq> StartPanic"
    and live: "\<And>u. stoppers (ctl s) u \<noteq> StopPanic" and called: "stoppers (ctl s) t \<noteq> StopOutside"
  shows "\<exists>s'. (system_step decode ser ops)\<^sup>*\<^sup>* s s' \<and> stoppers (ctl s') t = StopReturned"
proof (cases "stoppers (ctl s) t")
  case StopBlocked
  have ok: "once_ok (ctl s)" using system_invD(1) [OF inv] by (simp add: life_inv_def)
  have unblock: ?thesis if "(system_step decode ser ops)\<^sup>*\<^sup>* s s1" "stoppers (ctl s1) t = StopBlocked"
      "stopOnce (ctl s1) = OnceDone" for s1
  proof -
    have "system_step decode ser ops s1 (s1\<lparr>ctl := stop_goto t StopReturned (ctl s1),
        started := started s1 \<or> starter (stop_goto t StopReturned (ctl s1)) \<noteq> StartIdle\<rparr>)"
      by (rule system_step.steer [OF stop_unblock [OF that(2,3)]]) simp_all
    with that(1) show ?thesis by (intro exI conjI) (erule (1) rtranclp.rtrancl_into_rtrancl, simp)
  qed
  show ?thesis
  proof (cases "stopOnce (ctl s)")
    case OnceBusy
    then obtain u where "body_ok (ctl s) (stoppers (ctl s) u)" using ok by (auto simp: once_ok_def)
    then have u: "in_once (stoppers (ctl s) u)" by (rule body_ok_in_once)
    with StopBlocked have "u \<noteq> t" by (auto simp: in_once_def)
    with system_body_returns [OF inv wf start u live] StopBlocked unblock show ?thesis by force
  qed (use ok StopBlocked unblock in \<open>auto simp: once_ok_def\<close>)
qed (use called live system_body_returns [OF inv wf start, of t] in \<open>force simp: in_once_def\<close>)+

section \<open>A run\<close>

text \<open>One port on which a broadcast waits: it is read, and Stop is called before it has been handled.\<close>

definition feed_io :: "frame list PacketIO" where
  "feed_io = \<lparr>ReadPacketData = (\<lambda>h. case h of [] \<Rightarrow> (ReadTimeout, []) | b # bs \<Rightarrow> (ReadData b, bs)),
              WritePacketData = (\<lambda>h pkt. (True, h)), CloseIO = (\<lambda>h. h)\<rparr>"

definition fed_engine :: "frame list engine" where
  "fed_engine = built [\<lparr>Name = ''p1'', AccessVID = 0, Trunk = []\<rparr>] [[plain_frame broadcast (station 1)]]"

lemma fed_wf: "engine_wf fed_engine" "length (ports fed_engine) = 1"
proof -
  have "acceptable [\<lparr>Name = ''p1'', AccessVID = 0, Trunk = []\<rparr>]" by code_simp
  then show "engine_wf fed_engine" by (simp add: fed_engine_def engine_wf_built)
  show "length (ports fed_engine) = 1" by (simp add: fed_engine_def built_def)
qed

abbreviation fed_reach :: "frame list system \<Rightarrow> bool" where
  "fed_reach \<equiv> system_reach wire_decode wire_ser feed_io fed_engine"

lemma fed_steer:
  assumes "fed_reach s" and "ctl_step feed_io (ctl s) l" and "starter (ctl s) = StartIdle \<and> starter l \<noteq> StartIdle \<longrightarrow> \<not> started s"
    and "gcs (ctl s) \<le> gcs l" and "l = l'" and "b = (started s \<or> starter l \<noteq> StartIdle)"
  shows "fed_reach (s\<lparr>ctl := l', started := b\<rparr>)"
  using system_reach.step [OF assms(1) system_step.steer [OF assms(2,3)]] assms(4-6) by simp

lemma fed_reading:
  "\<exists>s. fed_reach s \<and> started s \<and> sevents s = [] \<and> ctl s = solo fed_engine [(0, RxRead)] 1 StartIdle StopOutside OnceFresh 2 0 0"
proof -
  let ?s = "\<lambda>rs gc st w b. (new_system fed_engine)\<lparr>ctl := solo fed_engine rs gc st StopOutside OnceFresh w 0 0, started := b\<rparr>"
  have "fed_reach (?s [] 0 StartIdle 0 False)"
    using system_reach.init [of wire_decode wire_ser feed_io fed_engine] by (simp add: new_system_def idle_life_def solo_def)
  from fed_steer [OF this start_call, of _ True] have "fed_reach (?s [] 0 (StartAdd 0) 0 True)" by (simp add: solo_upd)
  from fed_steer [OF this start_add [of _ 0], of _ True] have "fed_reach (?s [] 0 (StartGo 0) 1 True)" by (simp add: solo_upd fed_wf)
  from fed_steer [OF this start_go [of _ 0], of _ True] have "fed_reach (?s [(0, RxCheck)] 0 (StartAdd 1) 1 True)" by (simp add: solo_upd)
  from fed_steer [OF this start_ports_done [of _ 1], of _ True] have "fed_reach (?s [(0, RxCheck)] 0 StartAddGc 1 True)"
    by (simp add: solo_upd fed_wf)
  from fed_steer [OF this start_add_gc, of _ True] have "fed_reach (?s [(0, RxCheck)] 0 StartGoGc 2 True)"
    by (simp add: solo_upd numeral_2_eq_2)
  from fed_steer [OF this start_go_gc, of _ True] have "fed_reach (?s [(0, RxCheck)] 1 StartIdle 2 True)" by (simp add: solo_upd)
  from fed_steer [OF this rx_continue [of 0 _ 0], of _ True] have "fed_reach (?s [(0, RxRead)] 1 StartIdle 2 True)" by (simp add: solo_upd)
  then show ?thesis by (intro exI [of _ "?s [(0, RxRead)] 1 StartIdle 2 True"]) (simp add: new_system_def)
qed

lemma fed_stopping:
  "\<exists>s. fed_reach s \<and> \<not> overlap (ctl s) \<and> stoppers (ctl s) 0 = StopClose \<and> busy (dp s) 0 \<and>
       sevents s = [Received 0 (plain_frame broadcast (station 1))]"
proof -
  let ?frm = "plain_frame broadcast (station 1)"
  obtain s where s: "fed_reach s" "started s" "sevents s = []"
      "ctl s = solo fed_engine [(0, RxRead)] 1 StartIdle StopOutside OnceFresh 2 0 0" using fed_reading by (elim exE conjE)
  have io: "io (ports fed_engine ! 0) = [?frm]" by (simp add: fed_engine_def built_def make_port_def Let_def)
  let ?s1 = "s\<lparr>ctl := rx_goto 0 (RxForward ?frm) (set_io 0 [] (ctl s))\<rparr>"
  let ?s2 = "set_dp (start_frame 0 ?frm (dp ?s1)) ?s1"
  have "system_step wire_decode wire_ser feed_io s ?s2"
    by (rule system_step.read [of 0 s 0 feed_io ?frm "[]", OF _ _ _ refl]) (simp_all add: s(4) io feed_io_def)
  with s(1) have s2: "fed_reach ?s2" by (rule system_reach.step)
  let ?s3 = "?s2\<lparr>ctl := stop_goto 0 StopClose ((ctl ?s2)\<lparr>stopOnce := OnceBusy, overlap := False\<rparr>), started := True\<rparr>"
  have "fed_reach ?s3"
    by (rule fed_steer [OF s2 stop_first [of _ 0]]) (simp_all add: s(2) s(4))
  moreover have "\<not> overlap (ctl ?s3)" "stoppers (ctl ?s3) 0 = StopClose" "sevents ?s3 = [Received 0 ?frm]"
    by (simp_all add: s(3) s(4) dp_def)
  moreover have "busy (dp ?s3) 0" by (simp add: busy_def)
  ultimately show ?thesis by blast
qed

section \<open>Properties\<close>

text \<open>
  C12: The running switch does not panic unless Start and Stop overlap. However Start, any number of Stop
  calls, the receive loops, the frames being handled, the collector, ageing changes and snapshots
  interleave, no goroutine panics while it handles a frame, the wait group counts exactly the goroutines
  launched and not yet gone, \<open>done\<close> and each handle are closed at most once, the engine keeps its
  invariant, and the data path is one of those theory Concur describes, so that its isolation and its
  exact counters hold here. And if no Start has been under way together with the body of a Stop, neither
  Start's Add nor Stop's Wait panics over a misuse of the wait group; overlapping ones can
  (\<open>overlapping_start_stop_panics\<close> of theory Lifecycle).
\<close>
theorem system_never_panics:
  assumes "engine_wf e0" and "system_reach decode ser ops e0 s"
  shows "(\<forall>i < length (ports e0). spcs s i \<noteq> FwdPanic) \<and> wg (ctl s) = live_count (ctl s) \<and>
         done_closes (ctl s) \<le> 1 \<and> (\<forall>j. handle_closes (ctl s) j \<le> 1) \<and> engine_wf (eng (ctl s)) \<and>
         conc_reach decode ser ops e0 (dp s) \<and>
         (\<not> overlap (ctl s) \<longrightarrow> starter (ctl s) \<noteq> StartPanic \<and> (\<forall>t. stoppers (ctl s) t \<noteq> StopPanic))"
proof -
  note v = system_invD [OF system_reach_inv [OF assms(2,1)]]
  have "pcs (dp s) i \<noteq> FwdPanic" if "i < length (ports e0)" for i
    using conc_reach_inv [OF assms(1) v(2)] that by (metis conc_inv_def pc_ok.simps(9))
  with v(1,2,5) once_ok_closes [of "ctl s"] system_reach_apart [OF assms(2,1)] show ?thesis
    by (auto simp: life_inv_def apart_def)
qed

theorem system_never_panics_witness:
  "\<exists>s. fed_reach s \<and> stoppers (ctl s) 0 = StopClose \<and> busy (dp s) 0 \<and> spcs s 0 \<noteq> FwdPanic \<and>
     wg (ctl s) = live_count (ctl s) \<and> \<not> overlap (ctl s) \<and> starter (ctl s) \<noteq> StartPanic \<and> stoppers (ctl s) 0 \<noteq> StopPanic"
proof -
  obtain s where s: "fed_reach s" "\<not> overlap (ctl s)" "stoppers (ctl s) 0 = StopClose" "busy (dp s) 0"
    using fed_stopping by (elim exE conjE)
  with system_never_panics [OF fed_wf(1) s(1)] fed_wf(2) show ?thesis by auto
qed

text \<open>
  C13: A closed switch is silent. Once Stop has closed the first handle no goroutine is inside a read or
  has a frame in progress, and whatever any of them does from then on, nothing is written to a port,
  no counter moves, nothing more is received and the table learns nothing.
\<close>
theorem closed_switch_silent:
  assumes "engine_wf e0" and "system_reach decode ser ops e0 s" and "0 < handle_closes (ctl s) j"
    and "(system_step decode ser ops)\<^sup>*\<^sup>* s s'"
  shows "(\<forall>(i, pc) \<in> set (rxs (ctl s')). \<not> uses_handle pc) \<and> (\<forall>i. \<not> busy (dp s') i) \<and> silent s s'"
proof -
  note inv = system_reach_inv [OF assms(2,1)]
  note run = system_run_silent [OF assms(4) inv assms(3)]
  with system_closed [OF system_run_inv [OF assms(4) inv], of j] show ?thesis by fast
qed

text \<open>
  C14: Stop returns although frames are in flight. From every reachable state in which the wait group has
  not panicked, so from every one if no Start overlaps a Stop, each call of Stop that has been made can
  run to its return, whatever the transport answers, wherever the receive loops are inside a frame,
  whoever holds the lock of the table, and also while Start is still launching; when it has returned
  every handle has been closed exactly once.
\<close>
theorem system_stop_returns:
  assumes "engine_wf e0" and "system_reach decode ser ops e0 s" and "stoppers (ctl s) t \<noteq> StopOutside"
    and "\<not> overlap (ctl s) \<or> starter (ctl s) \<noteq> StartPanic \<and> (\<forall>u. stoppers (ctl s) u \<noteq> StopPanic)"
  shows "\<exists>s'. (system_step decode ser ops)\<^sup>*\<^sup>* s s' \<and> stoppers (ctl s') t = StopReturned \<and>
           (\<forall>j < length (ports e0). handle_closes (ctl s') j = 1)"
proof -
  note inv = system_reach_inv [OF assms(2,1)]
  have quiet: "starter (ctl s) \<noteq> StartPanic" "stoppers (ctl s) u \<noteq> StopPanic" for u
    using assms(4) system_reach_apart [OF assms(2,1)] by (auto simp: apart_def)
  obtain s' where s': "(system_step decode ser ops)\<^sup>*\<^sup>* s s'" "stoppers (ctl s') t = StopReturned"
    using system_unblocks [OF inv assms(1) quiet assms(3)] by blast
  note life = system_invD(1) [OF system_run_inv [OF s'(1) inv]]
  then have "handle_closes (ctl s') j = 1" if "j < length (ports e0)" for j
    using that s'(2) once_ok_closes [of "ctl s'" j t] life_inv_lengths [OF life] by (simp add: life_inv_def)
  with s' show ?thesis by blast
qed

theorem system_stop_returns_witness:
  "\<exists>s s'. fed_reach s \<and> busy (dp s) 0 \<and> (system_step wire_decode wire_ser feed_io)\<^sup>*\<^sup>* s s' \<and>
     stoppers (ctl s') 0 = StopReturned \<and> handle_closes (ctl s') 0 = 1"
proof -
  obtain s where s: "fed_reach s" "\<not> overlap (ctl s)" "stoppers (ctl s) 0 = StopClose" "busy (dp s) 0"
    using fed_stopping by (elim exE conjE)
  with system_stop_returns [OF fed_wf(1) s(1), of 0] fed_wf(2) show ?thesis by auto
qed

lemma system_run_reach:
  "(system_step decode ser ops)\<^sup>*\<^sup>* s s' \<Longrightarrow> system_reach decode ser ops e0 s \<Longrightarrow> system_reach decode ser ops e0 s'"
  by (induction rule: rtranclp_induct) (auto intro: system_reach.step)

text \<open>The broadcast has been handled, the switch is closed, and a change of the ageing duration changes nothing.\<close>

theorem closed_switch_silent_witness:
  "\<exists>s. fed_reach s \<and> 0 < handle_closes (ctl s) 0 \<and> silent s (s\<lparr>stab := (stab s)\<lparr>age_ns := 7\<rparr>\<rparr>) \<and> \<not> busy (dp s) 0"
proof -
  obtain s where s: "fed_reach s" "\<not> overlap (ctl s)" "stoppers (ctl s) 0 = StopClose"
    using fed_stopping by (elim exE conjE)
  note inv = system_reach_inv [OF s(1) fed_wf(1)]
  have quiet: "starter (ctl s) \<noteq> StartPanic" "stoppers (ctl s) u \<noteq> StopPanic" for u
    using s(2) system_reach_apart [OF s(1) fed_wf(1)] by (auto simp: apart_def)
  obtain s' where s': "(system_step wire_decode wire_ser feed_io)\<^sup>*\<^sup>* s s'" "stoppers (ctl s') 0 = StopReturned"
    using system_unblocks [OF inv fed_wf(1) quiet, of 0] s(3) by auto
  note reach = system_run_reach [OF s'(1) s(1)] and inv' = system_run_inv [OF s'(1) inv]
  have closed: "0 < handle_closes (ctl s') 0"
    using once_ok_closes [of "ctl s'" 0 0] s'(2) system_invD(1) [OF inv'] life_inv_lengths [OF system_invD(1) [OF inv']] fed_wf(2)
    by (simp add: life_inv_def)
  have "(system_step wire_decode wire_ser feed_io)\<^sup>*\<^sup>* s' (s'\<lparr>stab := (stab s')\<lparr>age_ns := 7\<rparr>\<rparr>)"
    by (rule r_into_rtranclp) (rule system_step.ageing)
  from closed_switch_silent [OF fed_wf(1) reach closed this]
  have "silent s' (s'\<lparr>stab := (stab s')\<lparr>age_ns := 7\<rparr>\<rparr>)" "\<not> busy (dp s') 0" by (auto simp: busy_def)
  with reach closed show ?thesis by blast
qed

end
