(* ===== verification/Client.thy ===== *)
theory Client
  imports Stats Switch Runs "HOL-Library.Char_ord" "HOL-Library.List_Lexorder" "HOL-Library.Multiset"
begin

text \<open>
  The control client, \<open>internal/control/client.go\<close>: what \<open>vibe-switch ctl\<close> prints. A table goes
  through \<open>text/tabwriter\<close> with padding 2, modelled for the rectangular tables the client writes:
  every cell but a row's last is padded to the widest of its column plus 2. The server is a record of
  calls on a connection of any type, each answering an error text or a reply; theory \<open>Service\<close> gives
  the calls of a real server.

  \<open>sort.Slice\<close> promises a sorted permutation and no more; the locale \<open>slice_sort\<close> states that
  contract, and inside it the result is unique when no two rows compare equal.
\<close>

section \<open>The order of the rows\<close>

text \<open>The comparison of \<open>renderFDB\<close>: by VLAN, then by the text of the address.\<close>

datatype fdb_order = FdbOrder u16 string

instantiation fdb_order :: linorder
begin

fun less_fdb_order :: "fdb_order \<Rightarrow> fdb_order \<Rightarrow> bool" where
  "less_fdb_order (FdbOrder v m) (FdbOrder v' m') = (if v \<noteq> v' then v < v' else m < m')"

definition less_eq_fdb_order :: "fdb_order \<Rightarrow> fdb_order \<Rightarrow> bool" where
  "less_eq_fdb_order a b \<longleftrightarrow> a < b \<or> a = b"

instance
proof
  fix a b c :: fdb_order
  show "(a < b) = (a \<le> b \<and> \<not> b \<le> a)"
    by (cases a; cases b) (auto simp: less_eq_fdb_order_def)
  show "a \<le> a" by (simp add: less_eq_fdb_order_def)
  show "a \<le> b \<Longrightarrow> b \<le> c \<Longrightarrow> a \<le> c"
    by (cases a; cases b; cases c) (auto simp: less_eq_fdb_order_def split: if_splits)
  show "a \<le> b \<Longrightarrow> b \<le> a \<Longrightarrow> a = b"
    by (cases a; cases b) (auto simp: less_eq_fdb_order_def split: if_splits)
  show "a \<le> b \<or> b \<le> a"
    by (cases a; cases b) (auto simp: less_eq_fdb_order_def)
qed

end

locale slice_sort =
  fixes sorter :: "('a \<Rightarrow> 'k :: linorder) \<Rightarrow> 'a list \<Rightarrow> 'a list"
  assumes mset_sorter: "mset (sorter key xs) = mset xs"
    and sorted_sorter: "sorted (map key (sorter key xs))"
begin

lemma sorter_unique:
  assumes perm: "mset xs = mset ys" and keys: "distinct (map key xs)"
  shows "sorter key xs = sorter key ys"
proof -
  have set: "set (sorter key xs) = set xs" "set (sorter key ys) = set xs"
    using perm mset_eq_setD [OF mset_sorter] mset_eq_setD by metis+
  have "mset (map key (sorter key xs)) = mset (map key xs)" "mset (map key (sorter key ys)) = mset (map key xs)"
    using perm mset_sorter by (metis mset_map)+
  then have "distinct (map key (sorter key xs))" "distinct (map key (sorter key ys))"
    using keys by (metis mset_eq_imp_distinct_iff)+
  then show ?thesis
    using set keys by (intro map_sorted_distinct_set_unique [of key]) (simp_all add: sorted_sorter distinct_map)
qed

lemma length_sorter: "length (sorter key xs) = length xs"
  by (metis mset_sorter size_mset)

end

definition sort_Slice :: "('a \<Rightarrow> 'k :: linorder) \<Rightarrow> 'a list \<Rightarrow> 'a list" where
  "sort_Slice key xs = sort_key key xs"

interpretation slices: slice_sort sort_Slice
  by unfold_locales (simp_all add: sort_Slice_def)

section \<open>Tables\<close>

definition nl :: string where
  "nl = [CHR 0x0A]"

definition col_width :: "string list list \<Rightarrow> nat \<Rightarrow> nat" where
  "col_width rows j = fold max (map (\<lambda>r. length (r ! j)) rows) 0 + 2"

definition pad_cell :: "nat \<Rightarrow> string \<Rightarrow> string" where
  "pad_cell w c = c @ replicate (w - length c) CHR '' ''"

definition table_row :: "string list list \<Rightarrow> string list \<Rightarrow> string" where
  "table_row rows r =
     concat (map (\<lambda>j. pad_cell (col_width rows j) (r ! j)) [0..<length r - 1]) @ last r @ nl"

definition tabulate :: "string list list \<Rightarrow> string" where
  "tabulate rows = concat (map (table_row rows) rows)"

definition fmt_bool :: "bool \<Rightarrow> string" where
  "fmt_bool b = (if b then ''true'' else ''false'')"

section \<open>Rendering\<close>

definition fdb_cells :: "FDBEntry \<Rightarrow> string list" where
  "fdb_cells r = [Itoa (unat (VID r)), MAC r, entry_Port r, fmt_f 1 (AgeSeconds r)]"

definition fdb_order_of :: "FDBEntry \<Rightarrow> fdb_order" where
  "fdb_order_of r = FdbOrder (VID r) (MAC r)"

definition renderFDB :: "FDBEntry list \<Rightarrow> string" where
  "renderFDB entries =
     tabulate ([''VLAN'', ''MAC'', ''PORT'', ''AGE(s)''] # map fdb_cells (sort_Slice fdb_order_of entries)) @
     (if length entries = 0 then ''(empty)'' @ nl else [])"

definition port_cells :: "PortInfo \<Rightarrow> string list" where
  "port_cells p =
     (let trunk = (if 0 < length (info_Trunk p) then Join '','' (map (\<lambda>v. Itoa (unat v)) (info_Trunk p)) else ''-'');
          pvid = (if PVID p \<noteq> 0 then Itoa (unat (PVID p)) else ''-'')
      in [info_Name p, Role p, pvid, trunk, fmt_bool (Up p)])"

definition renderPorts :: "PortInfo list \<Rightarrow> string" where
  "renderPorts ps = tabulate ([''PORT'', ''ROLE'', ''PVID'', ''TRUNK'', ''UP''] # map port_cells ps)"

definition stats_cells :: "PortStats \<Rightarrow> string list" where
  "stats_cells s =
     stats_Name s # map (\<lambda>n. Itoa (unat n))
       [RxFrames s, RxBytes s, TxFrames s, TxBytes s, Flooded s, ForwardDrop s, TxDrop s]"

definition renderStats :: "PortStats list \<Rightarrow> string" where
  "renderStats ss =
     tabulate ([''PORT'', ''RX_FRAMES'', ''RX_BYTES'', ''TX_FRAMES'', ''TX_BYTES'', ''FLOODED'', ''FWD_DROP'',
                ''TX_DROP''] # map stats_cells ss)"

definition renderConfig :: "EngineConfig \<Rightarrow> string" where
  "renderConfig c =
     tabulate [[''ports'', Itoa (NumPorts c)], [''vlan-aware'', fmt_bool (cfg_VLANAware c)],
               [''ageing(s)'', fmt_f 0 (AgeingSeconds c)]]"

section \<open>Rates\<close>

definition perSec :: "u64 \<Rightarrow> u64 \<Rightarrow> rat \<Rightarrow> rat" where
  "perSec now prev elapsed =
     (if now < prev then 0 else fl (fl (of_nat (unat (now - prev))) / elapsed))"

definition humanRate :: "rat \<Rightarrow> string" where
  "humanRate bytesPerSec =
     (let bps = fl (bytesPerSec * 8)
      in if bps \<ge> 1000000000 then fmt_f 2 (fl (bps / 1000000000)) @ '' Gbit/s''
         else if bps \<ge> 1000000 then fmt_f 2 (fl (bps / 1000000)) @ '' Mbit/s''
         else if bps \<ge> 1000 then fmt_f 2 (fl (bps / 1000)) @ '' Kbit/s''
         else fmt_f 0 bps @ '' bit/s'')"

definition zero_PortStats :: PortStats where
  "zero_PortStats = \<lparr>stats_Name = [], RxFrames = 0, RxBytes = 0, TxFrames = 0, TxBytes = 0, Flooded = 0,
     ForwardDrop = 0, TxDrop = 0\<rparr>"

definition prev_of :: "PortStats list \<Rightarrow> string \<Rightarrow> PortStats" where
  "prev_of first n =
     (case fold (\<lambda>s m. m(stats_Name s \<mapsto> s)) first Map.empty n of None \<Rightarrow> zero_PortStats | Some s \<Rightarrow> s)"

definition rate_cells :: "PortStats \<Rightarrow> PortStats \<Rightarrow> rat \<Rightarrow> string list" where
  "rate_cells s p elapsed =
     [stats_Name s,
      fmt_f 1 (perSec (RxFrames s) (RxFrames p) elapsed), humanRate (perSec (RxBytes s) (RxBytes p) elapsed),
      fmt_f 1 (perSec (TxFrames s) (TxFrames p) elapsed), humanRate (perSec (TxBytes s) (TxBytes p) elapsed),
      fmt_f 1 (perSec (ForwardDrop s) (ForwardDrop p) elapsed), fmt_f 1 (perSec (TxDrop s) (TxDrop p) elapsed)]"

definition renderRate :: "PortStats list \<Rightarrow> PortStats list \<Rightarrow> rat \<Rightarrow> string" where
  "renderRate first second elapsed0 =
     (let elapsed = (if elapsed0 \<le> 0 then 1 else elapsed0)
      in tabulate ([''PORT'', ''RX_PPS'', ''RX_RATE'', ''TX_PPS'', ''TX_RATE'', ''FWD_DROP_PS'', ''TX_DROP_PS''] #
           map (\<lambda>s. rate_cells s (prev_of first (stats_Name s)) elapsed) second))"

section \<open>Queries\<close>

text \<open>
  A connection \<open>'c\<close> and the RPCs on it; \<open>Elapsed\<close> is the measured window of \<open>showRate\<close>, in
  seconds. A query yields the error, if any, and what it has written so far.
\<close>

record 'c rpc_client =
  CallFDB :: "'c \<Rightarrow> (string + FDBEntry list) \<times> 'c"
  CallPorts :: "'c \<Rightarrow> (string + PortInfo list) \<times> 'c"
  CallStats :: "'c \<Rightarrow> (string + PortStats list) \<times> 'c"
  CallConfig :: "'c \<Rightarrow> (string + EngineConfig) \<times> 'c"
  Elapsed :: "'c \<Rightarrow> rat \<times> 'c"

type_synonym 'c query_result = "string option \<times> string \<times> 'c"

definition render_reply :: "('r \<Rightarrow> string) \<Rightarrow> (string + 'r) \<times> 'c \<Rightarrow> 'c query_result" where
  "render_reply render r =
     (case r of (Inl err, c) \<Rightarrow> (Some err, [], c) | (Inr x, c) \<Rightarrow> (None, render x, c))"

definition showRate :: "'c rpc_client \<Rightarrow> 'c \<Rightarrow> 'c query_result" where
  "showRate rpc c =
     (case CallStats rpc c of
        (Inl err, c1) \<Rightarrow> (Some err, [], c1)
      | (Inr first, c1) \<Rightarrow>
          (case CallStats rpc c1 of
             (Inl err, c2) \<Rightarrow> (Some err, [], c2)
           | (Inr second, c2) \<Rightarrow>
               (case Elapsed rpc c2 of (d, c3) \<Rightarrow> (None, renderRate first second d, c3))))"

definition query_one :: "'c rpc_client \<Rightarrow> string \<Rightarrow> 'c \<Rightarrow> 'c query_result" where
  "query_one rpc what c =
     (if what = ''fdb'' then render_reply renderFDB (CallFDB rpc c)
      else if what = ''ports'' then render_reply renderPorts (CallPorts rpc c)
      else if what = ''stats'' then render_reply renderStats (CallStats rpc c)
      else if what = ''rate'' then showRate rpc c
      else if what = ''config'' then render_reply renderConfig (CallConfig rpc c)
      else (Some (''unknown target '' @ what), [], c))"

fun query_all :: "'c rpc_client \<Rightarrow> string list \<Rightarrow> 'c \<Rightarrow> 'c query_result" where
  "query_all rpc [] c = (None, [], c)"
| "query_all rpc (sub # subs) c =
     (let header = ''== '' @ sub @ '' =='' @ nl
      in case query_one rpc sub c of
           (Some err, out, c1) \<Rightarrow> (Some err, header @ out, c1)
         | (None, out, c1) \<Rightarrow>
             (case query_all rpc subs c1 of (err, out', c2) \<Rightarrow> (err, header @ out @ out', c2)))"

definition query :: "'c rpc_client \<Rightarrow> string \<Rightarrow> 'c \<Rightarrow> 'c query_result" where
  "query rpc what c =
     (if what = ''all'' then query_all rpc [''config'', ''ports'', ''fdb'', ''stats''] c
      else query_one rpc what c)"

text \<open>
  The loop of \<open>Shell\<close> over the lines of standard input. What goes to standard output is the
  concatenation of the query outputs; what goes to standard error is a list of messages (the
  prompt is left out).
\<close>

datatype shell_msg = ShellHelp | ShellError string | ShellUnknown string

fun shell_loop :: "'c rpc_client \<Rightarrow> string list \<Rightarrow> 'c \<Rightarrow> string \<times> shell_msg list \<times> 'c" where
  "shell_loop rpc [] c = ([], [], c)"
| "shell_loop rpc (text # rest) c =
     (let line = TrimSpace text
      in if line = [] then shell_loop rpc rest c
         else if line = ''quit'' \<or> line = ''exit'' then ([], [], c)
         else if line = ''help'' then
           (case shell_loop rpc rest c of (out, msgs, c') \<Rightarrow> (out, ShellHelp # msgs, c'))
         else if HasPrefix line ''show '' then
           (case query rpc (TrimSpace (drop (length ''show '') line)) c of
              (err, out, c1) \<Rightarrow>
                (case shell_loop rpc rest c1 of
                   (out', msgs, c2) \<Rightarrow>
                     (out @ out', (case err of None \<Rightarrow> [] | Some e \<Rightarrow> [ShellError e]) @ msgs, c2)))
         else
           (case shell_loop rpc rest c of (out, msgs, c') \<Rightarrow> (out, ShellUnknown line # msgs, c')))"

section \<open>Lemmas\<close>

lemma fdb_order_inj:
  "fdb_order_of (row_of e now k) = fdb_order_of (row_of e now' k') \<longleftrightarrow> k = k'"
  by (cases k; cases k') (auto simp: fdb_order_of_def)

lemma distinct_fdb_orders: "distinct ks \<Longrightarrow> distinct (map fdb_order_of (map (row_of e now) ks))"
  by (simp add: distinct_map inj_on_def fdb_order_inj)

lemma renderFDB_perm:
  assumes "mset rows = mset rows'" and "distinct (map fdb_order_of rows)"
  shows "renderFDB rows = renderFDB rows'"
  using slices.sorter_unique [OF assms] mset_eq_length [OF assms(1)] by (simp add: renderFDB_def)

lemma prev_of_fold:
  "distinct (map stats_Name ss) \<Longrightarrow> s \<in> set ss \<Longrightarrow>
     fold (\<lambda>s m. m(stats_Name s \<mapsto> s)) ss m (stats_Name s) = Some s"
proof (induction ss arbitrary: m)
  case (Cons a ss)
  have other: "n \<notin> stats_Name ` set ss \<Longrightarrow> fold (\<lambda>s m. m(stats_Name s \<mapsto> s)) ss m n = m n" for n m
    by (induction ss arbitrary: m) auto
  show ?case
  proof (cases "s = a")
    case True
    with Cons.prems other [of "stats_Name a"] show ?thesis by (simp del: fun_upd_apply) (simp add: fun_upd_same)
  next
    case False
    with Cons show ?thesis by (simp del: fun_upd_apply)
  qed
qed simp

lemma prev_of_same:
  "distinct (map stats_Name ss) \<Longrightarrow> s \<in> set ss \<Longrightarrow> prev_of ss (stats_Name s) = s"
  by (simp add: prev_of_def prev_of_fold)

lemma names_ports_from: "map name (ports_from i cs) = map (\<lambda>(c, h). Name c) cs"
proof (induction cs arbitrary: i)
  case (Cons x cs)
  then show ?case by (cases x) simp
qed simp

lemma distinct_names_built:
  assumes "acceptable cfg" and "length cfg = length ios"
  shows "distinct (map name (ports (built cfg ios)))"
proof -
  have "map (\<lambda>(c, h). Name c) (zip cfg ios) = map Name cfg"
    using assms(2) by (metis (no_types, lifting) map_fst_zip map_map comp_def split_def map_cong)
  then show ?thesis using assms(1) by (simp add: built_def names_ports_from acceptable_def cfg_ok_def)
qed

lemma same_config_names: "same_config e e' \<Longrightarrow> map name (ports e') = map name (ports e)"
proof -
  assume "same_config e e'"
  then have "map (fst \<circ> snd) (map port_cfg (ports e')) = map (fst \<circ> snd) (map port_cfg (ports e))"
    by (simp add: same_config_def)
  then show ?thesis by (simp add: port_cfg_def comp_def)
qed

text \<open>A row of a second snapshot finds the row of the same port in the first.\<close>

lemma prev_of_snapshot:
  assumes "distinct (map name (ports e))" and "same_config e e'" and "i < length (ports e')"
  shows "prev_of (StatsSnapshot e) (name (ports e' ! i)) = port_stats (ports e ! i)"
proof -
  have len: "i < length (ports e)" using assms(2,3) by (simp add: same_config_length)
  then have "name (ports e' ! i) = name (ports e ! i)"
    using same_config_names [OF assms(2)] assms(3) by (metis nth_map)
  also have "\<dots> = stats_Name (port_stats (ports e ! i))" by (simp add: port_stats_def)
  finally show ?thesis
    using assms(1) len
    by (simp add: StatsSnapshot_def)
      (intro prev_of_same, simp_all add: comp_def port_stats_def)
qed

lemma perSec_nonneg: "0 < elapsed \<Longrightarrow> 0 \<le> perSec now prev elapsed"
  using of_nat_0_le_iff [of "unat (now - prev)", where 'a = rat]
  by (auto simp: perSec_def intro!: fl_nonneg divide_nonneg_pos)

lemma perSec_error:
  assumes "0 < elapsed" and "prev \<le> now"
  shows "\<bar>perSec now prev elapsed - of_nat (unat now - unat prev) / elapsed\<bar>
         \<le> of_nat (unat now - unat prev) / elapsed / 2 ^ 51"
proof -
  have "unat (now - prev) = unat now - unat prev"
    using assms(2) by (simp add: unat_sub)
  then have "perSec now prev elapsed = fl (fl (of_nat (unat now - unat prev)) / elapsed)"
    using assms(2) unfolding perSec_def by (metis leD)
  then show ?thesis
    using fl_div_error [OF assms(1), of "of_nat (unat now - unat prev)"] assms(1) by simp
qed

text \<open>An engine with two learned stations, for the witnesses.\<close>

definition two_stations :: "frame list engine" where
  "two_stations = vlan_engine\<lparr>fdb := Learn (Learn newFDB 10 (station 4) 3 0) 10 (station 1) 0 5\<rparr>"

lemma two_stations_wf: "engine_wf two_stations"
proof -
  have vlan: "in_vlan vlan_engine 10 3" "in_vlan vlan_engine 10 0" by code_simp+
  have "ft.confined (in_vlan vlan_engine) newFDB" by (simp add: ft.confined_def bound_port_def)
  then have "ft.confined (in_vlan vlan_engine) (Learn (Learn newFDB 10 (station 4) 3 0) 10 (station 1) 0 5)"
    using vlan by (intro ft.confined_learn) simp_all
  then show ?thesis
    unfolding two_stations_def
    by (intro same_config_wf [OF same_config_fdb]) simp_all
qed

lemma two_stations_dom: "dom (table (fdb two_stations)) = {macKey_of 10 (station 1), macKey_of 10 (station 4)}"
  by (auto simp: two_stations_def table_Learn split: if_splits)

section \<open>Properties\<close>

text \<open>
  C27: \<open>show fdb\<close> is deterministic. On a well-formed engine the snapshot of the learning table never
  panics, and the text printed for it is the same whatever order Go visits the map in: one row per
  entry, sorted by VLAN and address.
\<close>
theorem show_fdb_deterministic:
  assumes "engine_wf e" and "set ks = dom (table (fdb e))" "distinct ks"
    and "set ks' = dom (table (fdb e))" "distinct ks'"
  shows "\<exists>rows rows'. FDBSnapshot ks now e = Some rows \<and> FDBSnapshot ks' now e = Some rows' \<and>
           length rows = card (dom (table (fdb e))) \<and> renderFDB rows = renderFDB rows' \<and>
           sorted (map fdb_order_of (sort_Slice fdb_order_of rows))"
proof -
  have "mset ks = mset ks'" using assms(2-5) by (metis set_eq_iff_mset_eq_distinct)
  then have "mset (map (row_of e now) ks) = mset (map (row_of e now) ks')" by simp
  then have "renderFDB (map (row_of e now) ks) = renderFDB (map (row_of e now) ks')"
    by (rule renderFDB_perm) (rule distinct_fdb_orders [OF assms(3)])
  moreover have "length ks = card (dom (table (fdb e)))" using assms(2,3) distinct_card by metis
  ultimately show ?thesis
    using assms(2,4) FDBSnapshot_rows [OF assms(1)] slices.sorted_sorter by (metis length_map)
qed

theorem show_fdb_deterministic_witness:
  "\<exists>rows rows'. FDBSnapshot [macKey_of 10 (station 4), macKey_of 10 (station 1)] 7 two_stations = Some rows \<and>
     FDBSnapshot [macKey_of 10 (station 1), macKey_of 10 (station 4)] 7 two_stations = Some rows' \<and>
     length rows = 2 \<and> renderFDB rows = renderFDB rows'"
proof -
  have d: "card (dom (table (fdb two_stations))) = 2"
    by (simp add: two_stations_dom station_def)
  have ks: "set [macKey_of 10 (station 4), macKey_of 10 (station 1)] = dom (table (fdb two_stations))"
    "distinct [macKey_of 10 (station 4), macKey_of 10 (station 1)]"
    "set [macKey_of 10 (station 1), macKey_of 10 (station 4)] = dom (table (fdb two_stations))"
    "distinct [macKey_of 10 (station 1), macKey_of 10 (station 4)]"
    by (auto simp: two_stations_dom station_def)
  show ?thesis
    using show_fdb_deterministic [OF two_stations_wf ks, of 7] d by auto
qed

text \<open>
  \<open>show rate\<close> compares each port with itself. For an engine that NewEngine built and any later
  state of it, the row of a port is computed from the two readings of that port's own counters over
  the measured window, and each rate is within one part in 2^51 of the exact quotient when the
  counter did not go back.
\<close>
theorem show_rate_rows:
  assumes "NewEngine cfg ios = Inr e0" and "same_config e0 e1" and "same_config e0 e2"
    and "i < length cfg" and "0 < elapsed"
  shows "rate_cells (StatsSnapshot e2 ! i) (prev_of (StatsSnapshot e1) (stats_Name (StatsSnapshot e2 ! i))) elapsed =
           rate_cells (port_stats (ports e2 ! i)) (port_stats (ports e1 ! i)) elapsed \<and>
         (rxBytes (stats (ports e1 ! i)) \<le> rxBytes (stats (ports e2 ! i)) \<longrightarrow>
           \<bar>perSec (rxBytes (stats (ports e2 ! i))) (rxBytes (stats (ports e1 ! i))) elapsed -
             of_nat (unat (rxBytes (stats (ports e2 ! i))) - unat (rxBytes (stats (ports e1 ! i)))) / elapsed\<bar>
           \<le> of_nat (unat (rxBytes (stats (ports e2 ! i))) - unat (rxBytes (stats (ports e1 ! i)))) / elapsed / 2 ^ 51)"
proof (intro conjI impI)
  have e0: "length cfg = length ios" "acceptable cfg" "e0 = built cfg ios"
    using assms(1) by (simp_all add: NewEngine_Inr_iff)
  then have "distinct (map name (ports e0))" and len: "length (ports e0) = length cfg"
    using distinct_names_built by (auto simp: built_def)
  then have names: "distinct (map name (ports e1))" by (simp add: same_config_names [OF assms(2)])
  have "same_config e1 e2" using assms(2,3) by (simp add: same_config_def)
  then have "prev_of (StatsSnapshot e1) (name (ports e2 ! i)) = port_stats (ports e1 ! i)"
    using assms(4) len same_config_length [OF assms(3)] by (intro prev_of_snapshot [OF names]) simp_all
  then show "rate_cells (StatsSnapshot e2 ! i) (prev_of (StatsSnapshot e1) (stats_Name (StatsSnapshot e2 ! i))) elapsed =
      rate_cells (port_stats (ports e2 ! i)) (port_stats (ports e1 ! i)) elapsed"
    using assms(4) len same_config_length [OF assms(3)] by (simp add: StatsSnapshot_def port_stats_def)
qed (rule perSec_error [OF assms(5)])

definition busy_engine :: "frame list engine" where
  "busy_engine = upd_port 1 (count_rx (replicate 64 0)) plain_engine"

theorem show_rate_rows_witness:
  "rate_cells (StatsSnapshot busy_engine ! 1) (prev_of (StatsSnapshot plain_engine) (stats_Name (StatsSnapshot busy_engine ! 1))) 1 =
     rate_cells (port_stats (ports busy_engine ! 1)) (port_stats (ports plain_engine ! 1)) 1 \<and>
   rate_cells (port_stats (ports busy_engine ! 1)) (port_stats (ports plain_engine ! 1)) 1 =
     [''sw2'', ''1.0'', ''512 bit/s'', ''0.0'', ''0 bit/s'', ''0.0'', ''0.0'']"
proof
  have "NewEngine example_plain_cfg [[], [], []] = Inr plain_engine"
    unfolding NewEngine_Inr_iff plain_engine_def by (simp add: acceptable_examples)
  moreover have "same_config plain_engine busy_engine"
    unfolding busy_engine_def by (rule same_config_upd_port) simp
  ultimately show "rate_cells (StatsSnapshot busy_engine ! 1)
      (prev_of (StatsSnapshot plain_engine) (stats_Name (StatsSnapshot busy_engine ! 1))) 1 =
     rate_cells (port_stats (ports busy_engine ! 1)) (port_stats (ports plain_engine ! 1)) 1"
    using show_rate_rows [OF _ same_config_refl, of example_plain_cfg "[[], [], []]" plain_engine busy_engine 1 1]
    by (simp add: example_plain_cfg_def)
  show "rate_cells (port_stats (ports busy_engine ! 1)) (port_stats (ports plain_engine ! 1)) 1 =
     [''sw2'', ''1.0'', ''512 bit/s'', ''0.0'', ''0 bit/s'', ''0.0'', ''0.0'']"
    by code_simp
qed

end
