(* ===== verification/Service.thy ===== *)
theory Service
  imports Client
begin

text \<open>
  The control server, \<open>internal/control/service.go\<close>. The world is what matters of the file system and
  of Unix sockets: what is at a path, and which listeners are open. Go's Unix listener unlinks its
  path when it is closed, whatever is there by then. The RPC machinery is the standard library's;
  \<open>engine_client\<close> is a connection to a server, each call of which answers the snapshot verbatim.
\<close>

section \<open>Sockets\<close>

datatype fs_entry = PlainFile | SocketOf nat

record world =
  files :: "string \<rightharpoonup> fs_entry"
  listeners :: "nat \<rightharpoonup> string"
  next_listener :: nat

definition os_Remove :: "string \<Rightarrow> world \<Rightarrow> world" where
  "os_Remove p w = w\<lparr>files := (files w)(p := None)\<rparr>"

definition net_Listen :: "string \<Rightarrow> world \<Rightarrow> (nat \<times> world) option" where
  "net_Listen p w =
     (if files w p \<noteq> None then None
      else Some (next_listener w,
             w\<lparr>files := (files w)(p \<mapsto> SocketOf (next_listener w)),
               listeners := (listeners w)(next_listener w \<mapsto> p), next_listener := next_listener w + 1\<rparr>))"

definition ln_Close :: "nat \<Rightarrow> world \<Rightarrow> world" where
  "ln_Close l w =
     (case listeners w l of
        None \<Rightarrow> w
      | Some p \<Rightarrow> os_Remove p (w\<lparr>listeners := (listeners w)(l := None)\<rparr>))"

definition net_Dial :: "string \<Rightarrow> world \<Rightarrow> nat option" where
  "net_Dial p w =
     (case files w p of
        Some (SocketOf l) \<Rightarrow> (if listeners w l = None then None else Some l)
      | _ \<Rightarrow> None)"

section \<open>The server\<close>

record server =
  listener :: nat
  sockPath :: string
  done_closed :: bool
  accept_running :: bool

definition Serve :: "bool \<Rightarrow> string \<Rightarrow> world \<Rightarrow> server option \<times> world" where
  "Serve register_ok p w =
     (let w1 = os_Remove p w
      in case net_Listen p w1 of
           None \<Rightarrow> (None, w1)
         | Some (l, w2) \<Rightarrow>
             (if \<not> register_ok then (None, os_Remove p (ln_Close l w2))
              else (Some \<lparr>listener = l, sockPath = p, done_closed = False, accept_running = True\<rparr>, w2)))"

text \<open>
  \<open>acceptLoop\<close> over what Accept returns: it starts one \<open>ServeConn\<close> per connection and ends at the
  first error.
\<close>

fun acceptLoop :: "'conn option list \<Rightarrow> 'conn list" where
  "acceptLoop [] = []"
| "acceptLoop (None # rs) = []"
| "acceptLoop (Some c # rs) = c # acceptLoop rs"

text \<open>
  Closing the listener makes Accept fail, so the accept loop ends and the wait returns. A second call
  closes a closed channel, which panics.
\<close>

definition Server_Close :: "server \<Rightarrow> world \<Rightarrow> (server \<times> world) option" where
  "Server_Close s w =
     (if done_closed s then None
      else Some (s\<lparr>done_closed := True, accept_running := False\<rparr>, os_Remove (sockPath s) (ln_Close (listener s) w)))"

section \<open>The calls\<close>

record 'h serving =
  served :: "'h engine"
  clock :: i64
  order :: "macKey list"
  window :: rat

definition Control_FDB :: "'h serving \<Rightarrow> FDBEntry list option" where
  "Control_FDB c = FDBSnapshot (order c) (clock c) (served c)"

definition Control_Ports :: "'h serving \<Rightarrow> PortInfo list" where
  "Control_Ports c = PortsSnapshot (served c)"

definition Control_Stats :: "'h serving \<Rightarrow> PortStats list" where
  "Control_Stats c = StatsSnapshot (served c)"

definition Control_Config :: "'h serving \<Rightarrow> EngineConfig" where
  "Control_Config c = ConfigSnapshot (served c)"

definition engine_client :: "'h serving rpc_client" where
  "engine_client =
     \<lparr>CallFDB = (\<lambda>c. ((case Control_FDB c of None \<Rightarrow> Inl ''unexpected EOF'' | Some r \<Rightarrow> Inr r), c)),
      CallPorts = (\<lambda>c. (Inr (Control_Ports c), c)),
      CallStats = (\<lambda>c. (Inr (Control_Stats c), c)),
      CallConfig = (\<lambda>c. (Inr (Control_Config c), c)),
      Elapsed = (\<lambda>c. (window c, c))\<rparr>"

section \<open>Clients\<close>

text \<open>
  \<open>Show\<close> and \<open>Shell\<close> of \<open>client.go\<close>: dial, then query. \<open>conn l\<close> is the connection to the server that listens
  as l, \<open>why\<close> the text of the dial error. The banner and the prompt go to standard error and are left out.
\<close>

definition Show ::
  "string \<Rightarrow> (nat \<Rightarrow> 'c rpc_client) \<Rightarrow> world \<Rightarrow> string \<Rightarrow> string \<Rightarrow> 'c \<Rightarrow> 'c query_result" where
  "Show why conn w path what c =
     (case net_Dial path w of
        None \<Rightarrow> (Some (''connect '' @ path @ '': '' @ why), [], c)
      | Some l \<Rightarrow> query (conn l) what c)"

definition Shell ::
  "string \<Rightarrow> (nat \<Rightarrow> 'c rpc_client) \<Rightarrow> world \<Rightarrow> string \<Rightarrow> string list \<Rightarrow> 'c \<Rightarrow> string option \<times> string \<times> shell_msg list \<times> 'c" where
  "Shell why conn w path input c =
     (case net_Dial path w of
        None \<Rightarrow> (Some (''connect '' @ path @ '': '' @ why), [], [], c)
      | Some l \<Rightarrow> (None, shell_loop (conn l) input c))"

section \<open>Lemmas\<close>

lemma os_Remove_sel [simp]:
  "files (os_Remove p w) = (files w)(p := None)" "listeners (os_Remove p w) = listeners w"
  "next_listener (os_Remove p w) = next_listener w"
  by (simp_all add: os_Remove_def)

lemma Serve_ok:
  "Serve True p w =
     (Some \<lparr>listener = next_listener w, sockPath = p, done_closed = False, accept_running = True\<rparr>,
      w\<lparr>files := (files w)(p \<mapsto> SocketOf (next_listener w)),
        listeners := (listeners w)(next_listener w \<mapsto> p), next_listener := next_listener w + 1\<rparr>)"
  by (simp add: Serve_def net_Listen_def os_Remove_def Let_def)

lemma query_engine:
  assumes "engine_wf (served c)" and "set (order c) = dom (table (fdb (served c)))"
    and "what \<in> {''fdb'', ''ports'', ''stats'', ''config'', ''rate''}"
  shows "\<exists>out. query engine_client what c = (None, out, c)"
  using assms(3) FDBSnapshot_rows [OF assms(1,2)]
  by (auto simp: query_def query_one_def render_reply_def engine_client_def Control_FDB_def showRate_def)

text \<open>A client finds the server from its start to its end, and gets an error after.\<close>

lemma Show_served:
  assumes "Serve True p w0 = (Some sv, w)" and "engine_wf (served c)" and "set (order c) = dom (table (fdb (served c)))"
    and "what \<in> {''fdb'', ''ports'', ''stats'', ''config'', ''rate''}"
  shows "\<exists>out. Show why (\<lambda>_. engine_client) w p what c = (None, out, c)"
proof -
  have "net_Dial p w = Some (listener sv)" using assms(1) by (auto simp: Serve_ok net_Dial_def)
  with query_engine [OF assms(2-4)] show ?thesis by (simp add: Show_def)
qed

lemma Show_closed:
  assumes "Serve True p w0 = (Some sv, w)" and "Server_Close sv w = Some (sv', w')"
  shows "Show why conn w' p what c = (Some (''connect '' @ p @ '': '' @ why), [], c)"
  using assms by (auto simp: Serve_ok Server_Close_def ln_Close_def net_Dial_def Show_def)

section \<open>Properties\<close>

text \<open>
  C28: The control socket and its owner. Serving on a path always takes it over: whatever was there,
  a client that dials it afterwards reaches the new server, and nobody after the new server has
  closed. Nothing checks that what is removed is stale: a second switch on the same path
  silently takes the clients of a first one that is still running, and when the first closes it
  removes the second's socket, which can then no longer be reached although it is still listening.
\<close>
theorem control_socket_takeover:
  assumes "Serve True p w0 = (Some a, w1)" and "Serve True p w1 = (Some b, w2)" and "Server_Close a w2 = Some (a', w3)"
  shows "net_Dial p w1 = Some (listener a) \<and>
         net_Dial p w2 = Some (listener b) \<and> listener a \<noteq> listener b \<and> listeners w2 (listener a) = Some p \<and>
         net_Dial p w3 = None \<and> listeners w3 (listener b) = Some p \<and>
         (\<forall>b' w4. Server_Close b w2 = Some (b', w4) \<longrightarrow> net_Dial p w4 = None)"
  using assms
  by (auto simp: Serve_ok Server_Close_def ln_Close_def net_Dial_def)

theorem control_socket_takeover_witness:
  "\<exists>a w1 b w2 a' w3. Serve True ''/run/s'' \<lparr>files = [''/run/s'' \<mapsto> PlainFile], listeners = Map.empty, next_listener = 0\<rparr> = (Some a, w1) \<and>
     Serve True ''/run/s'' w1 = (Some b, w2) \<and> Server_Close a w2 = Some (a', w3) \<and>
     net_Dial ''/run/s'' w3 = None \<and> listeners w3 (listener b) = Some ''/run/s''"
proof -
  let ?w0 = "\<lparr>files = [''/run/s'' \<mapsto> PlainFile], listeners = Map.empty, next_listener = 0\<rparr>"
  obtain a w1 where a: "Serve True ''/run/s'' ?w0 = (Some a, w1)" by (simp add: Serve_ok)
  obtain b w2 where b: "Serve True ''/run/s'' w1 = (Some b, w2)" by (simp add: Serve_ok)
  have "\<not> done_closed a" using a by (auto simp: Serve_ok)
  then obtain a' w3 where c: "Server_Close a w2 = Some (a', w3)" by (simp add: Server_Close_def)
  show ?thesis using a b c control_socket_takeover [OF a b c] by blast
qed

end
