(* ===== verification/ServerLoop.thy ===== *)
theory ServerLoop
  imports Service
begin

text \<open>
  The control server while it runs (\<open>acceptLoop\<close> and \<open>Close\<close> of \<open>internal/control/service.go\<close>) as a step
  relation: the accept loop, the goroutines of \<open>ServeConn\<close>, clients that dial and hang up, other
  processes that change the file system or open listeners of their own, and any number of callers of
  \<open>Close\<close>, all interleaved. Accept may fail at any time; on a closed listener it always does. A second
  \<open>close(s.done)\<close> panics; the other goroutines are let run on after a panic, which only adds behaviour.
\<close>

section \<open>The model\<close>

datatype accept_pc = AcceptWait | AcceptGo nat | AcceptExited

text \<open>The flag carried from \<open>ln.Close\<close> to the return is its result: True for no error.\<close>

datatype close_pc = CloseOut | CloseDone | CloseListen | CloseWait bool | CloseUnlink bool | CloseReturned bool | ClosePanic

record service_state =
  srv :: server
  world_now :: world
  acceptor :: accept_pc
  srv_wg :: nat
  backlog :: "nat list"
  conns :: "nat set"
  closers :: "nat \<Rightarrow> close_pc"

definition close_goto :: "nat \<Rightarrow> close_pc \<Rightarrow> service_state \<Rightarrow> service_state" where
  "close_goto t pc s = s\<lparr>closers := (closers s)(t := pc)\<rparr>"

definition listening :: "service_state \<Rightarrow> bool" where
  "listening s \<longleftrightarrow> listeners (world_now s) (listener (srv s)) \<noteq> None"

inductive service_step :: "service_state \<Rightarrow> service_state \<Rightarrow> bool" where
  dial: "net_Dial p (world_now s) = Some (listener (srv s)) \<Longrightarrow>
     service_step s (s\<lparr>backlog := backlog s @ [c]\<rparr>)"
| accept: "acceptor s = AcceptWait \<Longrightarrow> listening s \<Longrightarrow> backlog s = c # cs \<Longrightarrow>
     service_step s (s\<lparr>acceptor := AcceptGo c, backlog := cs\<rparr>)"
| serve: "acceptor s = AcceptGo c \<Longrightarrow>
     service_step s (s\<lparr>acceptor := AcceptWait, conns := insert c (conns s)\<rparr>)"
| accept_error: "acceptor s = AcceptWait \<Longrightarrow>
     service_step s (s\<lparr>acceptor := AcceptExited, srv_wg := srv_wg s - 1\<rparr>)"
| hang_up: "c \<in> conns s \<Longrightarrow> service_step s (s\<lparr>conns := conns s - {c}\<rparr>)"
| others: "listeners w (listener (srv s)) = listeners (world_now s) (listener (srv s)) \<Longrightarrow>
     service_step s (s\<lparr>world_now := w\<rparr>)"
| close_call: "closers s t = CloseOut \<Longrightarrow> service_step s (close_goto t CloseDone s)"
| close_done: "closers s t = CloseDone \<Longrightarrow> \<not> done_closed (srv s) \<Longrightarrow>
     service_step s (close_goto t CloseListen (s\<lparr>srv := srv s\<lparr>done_closed := True\<rparr>\<rparr>))"
| close_twice: "closers s t = CloseDone \<Longrightarrow> done_closed (srv s) \<Longrightarrow> service_step s (close_goto t ClosePanic s)"
| close_listener: "closers s t = CloseListen \<Longrightarrow>
     service_step s (close_goto t (CloseWait (listening s))
       (s\<lparr>world_now := ln_Close (listener (srv s)) (world_now s), backlog := []\<rparr>))"
| close_wait: "closers s t = CloseWait ok \<Longrightarrow> srv_wg s = 0 \<Longrightarrow> service_step s (close_goto t (CloseUnlink ok) s)"
| close_unlink: "closers s t = CloseUnlink ok \<Longrightarrow>
     service_step s (close_goto t (CloseReturned ok) (s\<lparr>world_now := os_Remove (sockPath (srv s)) (world_now s)\<rparr>))"

text \<open>What \<open>Serve\<close> hands over.\<close>

definition serving_init :: "server \<Rightarrow> world \<Rightarrow> service_state" where
  "serving_init sv w = \<lparr>srv = sv, world_now = w, acceptor = AcceptWait, srv_wg = 1, backlog = [], conns = {},
     closers = (\<lambda>_. CloseOut)\<rparr>"

inductive service_reach :: "server \<Rightarrow> world \<Rightarrow> service_state \<Rightarrow> bool" for sv :: server and w :: world where
  init: "service_reach sv w (serving_init sv w)"
| step: "service_reach sv w s \<Longrightarrow> service_step s s' \<Longrightarrow> service_reach sv w s'"

section \<open>The invariant\<close>

lemma close_goto_sel [simp]:
  "srv (close_goto t pc s) = srv s" "world_now (close_goto t pc s) = world_now s"
  "acceptor (close_goto t pc s) = acceptor s" "srv_wg (close_goto t pc s) = srv_wg s"
  "backlog (close_goto t pc s) = backlog s" "conns (close_goto t pc s) = conns s"
  "closers (close_goto t pc s) = (closers s)(t := pc)"
  by (simp_all add: close_goto_def)

text \<open>Where a caller may be that has not got past \<open>close(s.done)\<close>.\<close>

definition outside :: "close_pc \<Rightarrow> bool" where
  "outside pc \<longleftrightarrow> pc = CloseOut \<or> pc = CloseDone \<or> pc = ClosePanic"

fun closing_ok :: "service_state \<Rightarrow> close_pc \<Rightarrow> bool" where
  "closing_ok s CloseListen \<longleftrightarrow> listening s"
| "closing_ok s (CloseWait ok) \<longleftrightarrow> ok \<and> \<not> listening s"
| "closing_ok s (CloseUnlink ok) \<longleftrightarrow> ok \<and> \<not> listening s \<and> acceptor s = AcceptExited"
| "closing_ok s (CloseReturned ok) \<longleftrightarrow> ok \<and> \<not> listening s \<and> acceptor s = AcceptExited"
| "closing_ok s pc \<longleftrightarrow> False"

definition service_inv :: "service_state \<Rightarrow> bool" where
  "service_inv s \<longleftrightarrow>
     srv_wg s = (if acceptor s = AcceptExited then 0 else 1) \<and>
     (\<not> listening s \<longrightarrow> backlog s = []) \<and>
     (if done_closed (srv s) then \<exists>t. closing_ok s (closers s t) \<and> (\<forall>u. u \<noteq> t \<longrightarrow> outside (closers s u))
      else listening s \<and> (\<forall>u. outside (closers s u) \<and> closers s u \<noteq> ClosePanic))"

lemma net_Dial_listening: "net_Dial p (world_now s) = Some (listener (srv s)) \<Longrightarrow> listening s"
  by (auto simp: net_Dial_def listening_def split: option.splits fs_entry.splits if_splits)

lemma ln_Close_closes [simp]: "listeners (ln_Close l w) l = None"
  by (simp add: ln_Close_def split: option.splits)

lemma closing_not_outside: "closing_ok s pc \<Longrightarrow> \<not> outside pc"
  by (cases pc) (auto simp: outside_def)

text \<open>A step that changes neither the callers nor the listener keeps the part about them.\<close>

lemma service_inv_keep:
  assumes "service_inv s" and "done_closed (srv s') = done_closed (srv s)" and "closers s' = closers s"
    and "listening s' = listening s" and "\<And>t. closing_ok s (closers s t) \<Longrightarrow> closing_ok s' (closers s t)"
    and "srv_wg s' = (if acceptor s' = AcceptExited then 0 else 1)" and "\<not> listening s' \<Longrightarrow> backlog s' = []"
  shows "service_inv s'"
  using assms unfolding service_inv_def by (metis (full_types))

lemma closing_ok_mono:
  "closing_ok s pc \<Longrightarrow> listening s' = listening s \<Longrightarrow> (acceptor s = AcceptExited \<longrightarrow> acceptor s' = AcceptExited) \<Longrightarrow>
     closing_ok s' pc"
  by (cases pc) auto

lemma service_inv_caller:
  assumes inv: "service_inv s" and "done_closed (srv s)" and t: "\<not> outside (closers s t)"
    and "srv s' = srv s" and "closers s' = (closers s)(t := pc)" and "closing_ok s' pc"
    and "srv_wg s' = srv_wg s" and "acceptor s' = acceptor s" and "\<not> listening s' \<Longrightarrow> backlog s' = []"
  shows "service_inv s'"
proof -
  obtain r where r: "closing_ok s (closers s r)" "\<forall>u. u \<noteq> r \<longrightarrow> outside (closers s u)"
    using inv assms(2) by (auto simp: service_inv_def)
  with t have "r = t" by metis
  with r assms show ?thesis by (auto simp: service_inv_def intro!: exI [of _ t])
qed

lemma service_inv_outside:
  assumes inv: "service_inv s" and t: "outside (closers s t)" and pc: "outside pc"
    and "pc = ClosePanic \<Longrightarrow> done_closed (srv s)"
  shows "service_inv (close_goto t pc s)"
proof (cases "done_closed (srv s)")
  case True
  then obtain r where r: "closing_ok s (closers s r)" "\<forall>u. u \<noteq> r \<longrightarrow> outside (closers s u)"
    using inv by (auto simp: service_inv_def)
  then have "r \<noteq> t" using t closing_not_outside by blast
  moreover have "closing_ok (close_goto t pc s) (closers s r)"
    using r(1) by (rule closing_ok_mono) (simp_all add: listening_def)
  ultimately show ?thesis using True r(2) inv pc
    by (auto simp: service_inv_def listening_def intro!: exI [of _ r])
next
  case False
  with inv pc assms(4) show ?thesis by (auto simp: service_inv_def listening_def)
qed

lemma past_done:
  assumes "service_inv s" and "\<not> outside (closers s t)"
  shows "done_closed (srv s)" and "closing_ok s (closers s t)"
proof -
  show d: "done_closed (srv s)" using assms by (auto simp: service_inv_def split: if_splits)
  then obtain r where r: "closing_ok s (closers s r)" "\<forall>u. u \<noteq> r \<longrightarrow> outside (closers s u)"
    using assms(1) by (auto simp: service_inv_def)
  with assms(2) have "r = t" by metis
  with r show "closing_ok s (closers s t)" by simp
qed

lemma past_done_unique:
  assumes "service_inv s" and "\<not> outside (closers s t)" and "\<not> outside (closers s u)"
  shows "t = u"
proof -
  obtain r where "\<forall>u. u \<noteq> r \<longrightarrow> outside (closers s u)"
    using assms(1) past_done(1) [OF assms(1,2)] by (auto simp: service_inv_def)
  with assms(2,3) show ?thesis by metis
qed

lemma service_step_inv: "service_step s s' \<Longrightarrow> service_inv s \<Longrightarrow> service_inv s'"
proof (induction rule: service_step.induct)
  case (dial p s c)
  then have "listening s" by (simp add: net_Dial_listening)
  with dial show ?case
    by (intro service_inv_keep [OF dial(2)]) (auto simp: listening_def service_inv_def elim: closing_ok_mono)
next
  case (accept s c cs)
  then show ?case
    by (intro service_inv_keep [OF accept(4)]) (auto simp: listening_def service_inv_def elim!: closing_ok_mono)
next
  case (serve s c)
  then show ?case
    by (intro service_inv_keep [OF serve(2)]) (auto simp: listening_def service_inv_def elim!: closing_ok_mono)
next
  case (accept_error s)
  then show ?case
    by (intro service_inv_keep [OF accept_error(2)]) (auto simp: listening_def service_inv_def elim!: closing_ok_mono)
next
  case (hang_up c s)
  then show ?case
    by (intro service_inv_keep [OF hang_up(2)]) (auto simp: listening_def service_inv_def elim!: closing_ok_mono)
next
  case (others w s)
  then show ?case
    by (intro service_inv_keep [OF others(2)]) (auto simp: listening_def service_inv_def elim!: closing_ok_mono)
next
  case (close_call s t)
  then show ?case by (intro service_inv_outside) (simp_all add: outside_def)
next
  case (close_done s t)
  then show ?case
    by (auto simp: service_inv_def listening_def outside_def intro!: exI [of _ t])
next
  case (close_twice s t)
  then show ?case by (intro service_inv_outside) (simp_all add: outside_def)
next
  case (close_listener s t)
  from past_done [OF close_listener(2), of t] close_listener(1)
  have "done_closed (srv s)" "listening s" by (simp_all add: outside_def)
  then show ?case
    by (intro service_inv_caller [OF close_listener(2), of t _ "CloseWait (listening s)"])
      (simp_all add: close_listener(1) outside_def listening_def)
next
  case (close_wait s t ok)
  from past_done [OF close_wait(3), of t] close_wait(1)
  have "done_closed (srv s)" "ok" "\<not> listening s" by (simp_all add: outside_def)
  moreover have "acceptor s = AcceptExited" "\<not> listening s \<Longrightarrow> backlog s = []"
    using close_wait by (auto simp: service_inv_def split: if_splits)
  ultimately show ?case
    by (intro service_inv_caller [OF close_wait(3), of t _ "CloseUnlink ok"])
      (simp_all add: close_wait(1) outside_def listening_def)
next
  case (close_unlink s t ok)
  from past_done [OF close_unlink(2), of t] close_unlink(1)
  have "done_closed (srv s)" "ok" "\<not> listening s" "acceptor s = AcceptExited"
    by (simp_all add: outside_def)
  moreover have "\<not> listening s \<Longrightarrow> backlog s = []" using close_unlink by (auto simp: service_inv_def)
  ultimately show ?case
    by (intro service_inv_caller [OF close_unlink(2), of t _ "CloseReturned ok"])
      (simp_all add: close_unlink(1) outside_def listening_def)
qed

definition fresh_server :: "server \<Rightarrow> world \<Rightarrow> bool" where
  "fresh_server sv w \<longleftrightarrow> \<not> done_closed sv \<and> listeners w (listener sv) \<noteq> None"

lemma Serve_fresh: "Serve True p w = (Some sv, w') \<Longrightarrow> fresh_server sv w'"
  by (auto simp: Serve_ok fresh_server_def)

lemma service_reach_inv: "service_reach sv w s \<Longrightarrow> fresh_server sv w \<Longrightarrow> service_inv s"
proof (induction rule: service_reach.induct)
  case init
  then show ?case by (auto simp: serving_init_def fresh_server_def service_inv_def listening_def outside_def)
qed (blast intro: service_step_inv)

lemma service_reach_run: "service_step\<^sup>*\<^sup>* s s' \<Longrightarrow> service_reach sv w s \<Longrightarrow> service_reach sv w s'"
  by (induction rule: rtranclp_induct) (auto intro: service_reach.step)

section \<open>After a return\<close>

lemma stopped_step:
  "service_step s s' \<Longrightarrow> acceptor s = AcceptExited \<Longrightarrow> \<not> listening s \<Longrightarrow>
     acceptor s' = AcceptExited \<and> \<not> listening s' \<and> conns s' \<subseteq> conns s"
  by (induction rule: service_step.induct)
    (auto simp: listening_def ln_Close_def os_Remove_def split: option.splits)

lemma stopped_run:
  "service_step\<^sup>*\<^sup>* s s' \<Longrightarrow> acceptor s = AcceptExited \<Longrightarrow> \<not> listening s \<Longrightarrow>
     acceptor s' = AcceptExited \<and> \<not> listening s' \<and> conns s' \<subseteq> conns s"
proof (induction rule: rtranclp_induct)
  case (step s1 s2)
  then show ?case using stopped_step [of s1 s2] by blast
qed simp

lemma no_Dial: "\<not> listening s \<Longrightarrow> net_Dial p (world_now s) \<noteq> Some (listener (srv s))"
  using net_Dial_listening by blast

section \<open>Closing comes to an end\<close>

text \<open>
  Accept may fail at any time in \<open>service_step\<close>, which ends the accept loop without anybody closing the
  listener. To show that Close does not rest on such luck, the runs that end it are calm: as long as
  the listener is open, no Accept fails.
\<close>

definition calm_step :: "service_state \<Rightarrow> service_state \<Rightarrow> bool" where
  "calm_step s s' \<longleftrightarrow> service_step s s' \<and>
     (listening s \<and> acceptor s \<noteq> AcceptExited \<longrightarrow> acceptor s' \<noteq> AcceptExited)"

lemma calm_same: "service_step s s' \<Longrightarrow> acceptor s' = acceptor s \<Longrightarrow> calm_step s s'"
  by (simp add: calm_step_def)

lemma calm_waiting: "service_step s s' \<Longrightarrow> acceptor s' \<noteq> AcceptExited \<Longrightarrow> calm_step s s'"
  by (simp add: calm_step_def)

lemma calm_run_inv: "calm_step\<^sup>*\<^sup>* s s' \<Longrightarrow> service_inv s \<Longrightarrow> service_inv s'"
  by (induction rule: rtranclp_induct) (auto simp: calm_step_def dest: service_step_inv)

text \<open>The steps left to a caller once the listener is closed or about to be, and to the accept loop.\<close>

lemma acceptor_exits: "\<not> listening s \<Longrightarrow> \<exists>s'. calm_step\<^sup>*\<^sup>* s s' \<and> acceptor s' = AcceptExited \<and> srv_wg s' = srv_wg s - (if acceptor s = AcceptExited then 0 else 1)
   \<and> closers s' = closers s \<and> srv s' = srv s \<and> world_now s' = world_now s"
proof -
  assume closed: "\<not> listening s"
  have wait: "\<exists>s'. calm_step\<^sup>*\<^sup>* s s' \<and> acceptor s' = AcceptExited \<and> srv_wg s' = srv_wg s - 1
     \<and> closers s' = closers s \<and> srv s' = srv s \<and> world_now s' = world_now s"
    if "acceptor s = AcceptWait" and "\<not> listening s" for s
    using accept_error [OF that(1)] that(2)
    by (intro exI [of _ "s\<lparr>acceptor := AcceptExited, srv_wg := srv_wg s - 1\<rparr>"]) (auto simp: calm_step_def)
  show ?thesis
  proof (cases "acceptor s")
    case AcceptWait
    with wait [OF AcceptWait closed] show ?thesis by simp
  next
    case (AcceptGo c)
    from wait [of "s\<lparr>acceptor := AcceptWait, conns := insert c (conns s)\<rparr>"] obtain s'
      where "calm_step\<^sup>*\<^sup>* (s\<lparr>acceptor := AcceptWait, conns := insert c (conns s)\<rparr>) s'" "acceptor s' = AcceptExited"
        "srv_wg s' = srv_wg s - 1" "closers s' = closers s" "srv s' = srv s" "world_now s' = world_now s"
      using closed by (auto simp: listening_def)
    then show ?thesis using AcceptGo calm_waiting [OF serve [OF AcceptGo]]
      by (intro exI [of _ s']) (simp add: converse_rtranclp_into_rtranclp)
  qed (auto intro: exI [of _ s])
qed

definition close_over :: "close_pc \<Rightarrow> bool" where
  "close_over pc \<longleftrightarrow> pc = CloseReturned True \<or> pc = ClosePanic"

lemma unlink_returns:
  assumes "service_inv s" and "closers s t = CloseUnlink ok"
  shows "\<exists>s'. calm_step\<^sup>*\<^sup>* s s' \<and> closers s' t = CloseReturned True \<and>
           world_now s' = os_Remove (sockPath (srv s)) (world_now s)"
proof -
  have "ok" using past_done(2) [OF assms(1), of t] assms(2) by (simp add: outside_def)
  then show ?thesis using calm_same [OF close_unlink [OF assms(2)]]
    by (intro exI [of _ "close_goto t (CloseReturned ok) (s\<lparr>world_now := os_Remove (sockPath (srv s)) (world_now s)\<rparr>)"]) auto
qed

lemma wait_returns:
  assumes "service_inv s" and "closers s t = CloseWait ok"
  shows "\<exists>s'. calm_step\<^sup>*\<^sup>* s s' \<and> closers s' t = CloseReturned True \<and>
           world_now s' = os_Remove (sockPath (srv s)) (world_now s)"
proof -
  have closed: "\<not> listening s" using past_done(2) [OF assms(1), of t] assms(2) by (simp add: outside_def)
  obtain s1 where s1: "calm_step\<^sup>*\<^sup>* s s1" "acceptor s1 = AcceptExited" "srv_wg s1 = 0" "closers s1 = closers s"
      "srv s1 = srv s" "world_now s1 = world_now s"
    using acceptor_exits [OF closed] assms(1) by (auto simp: service_inv_def split: if_splits)
  let ?s2 = "close_goto t (CloseUnlink ok) s1"
  have step: "service_step s1 ?s2" using s1 assms(2) by (intro close_wait) simp_all
  note calm = calm_same [OF step]
  have "service_inv s1" by (rule calm_run_inv [OF s1(1) assms(1)])
  then have "service_inv ?s2" using step by (rule service_step_inv [rotated])
  then obtain s3 where "calm_step\<^sup>*\<^sup>* ?s2 s3" "closers s3 t = CloseReturned True"
      "world_now s3 = os_Remove (sockPath (srv ?s2)) (world_now ?s2)"
    using unlink_returns [of ?s2 t ok] by auto
  with s1 calm show ?thesis by (intro exI [of _ s3]) (auto intro: rtranclp_trans converse_rtranclp_into_rtranclp)
qed

lemma listen_returns:
  assumes "service_inv s" and "closers s t = CloseListen"
  shows "\<exists>s'. calm_step\<^sup>*\<^sup>* s s' \<and> closers s' t = CloseReturned True \<and>
           world_now s' = os_Remove (sockPath (srv s)) (ln_Close (listener (srv s)) (world_now s))"
proof -
  let ?s1 = "close_goto t (CloseWait (listening s)) (s\<lparr>world_now := ln_Close (listener (srv s)) (world_now s), backlog := []\<rparr>)"
  have step: "service_step s ?s1" using assms(2) by (rule close_listener)
  obtain s2 where "calm_step\<^sup>*\<^sup>* ?s1 s2" "closers s2 t = CloseReturned True"
      "world_now s2 = os_Remove (sockPath (srv ?s1)) (world_now ?s1)"
    using wait_returns [OF service_step_inv [OF step assms(1)], of t "listening s"] by auto
  with calm_same [OF step] show ?thesis by (intro exI [of _ s2]) (auto intro: converse_rtranclp_into_rtranclp)
qed

text \<open>A caller that gets as far as \<open>close(s.done)\<close> first computes the atomic \<open>Server_Close\<close>.\<close>

lemma close_runs:
  assumes inv: "service_inv s" and t: "closers s t = CloseDone"
  shows "\<exists>s'. calm_step\<^sup>*\<^sup>* s s' \<and>
           (case Server_Close (srv s) (world_now s) of
              None \<Rightarrow> closers s' t = ClosePanic
            | Some (sv, w) \<Rightarrow> closers s' t = CloseReturned True \<and> world_now s' = w)"
proof (cases "done_closed (srv s)")
  case True
  with calm_same [OF close_twice [OF t]] show ?thesis
    by (intro exI [of _ "close_goto t ClosePanic s"]) (auto simp: Server_Close_def)
next
  case False
  let ?s1 = "close_goto t CloseListen (s\<lparr>srv := srv s\<lparr>done_closed := True\<rparr>\<rparr>)"
  have step: "service_step s ?s1" using t False by (rule close_done)
  obtain s2 where "calm_step\<^sup>*\<^sup>* ?s1 s2" "closers s2 t = CloseReturned True"
      "world_now s2 = os_Remove (sockPath (srv ?s1)) (ln_Close (listener (srv ?s1)) (world_now ?s1))"
    using listen_returns [OF service_step_inv [OF step inv], of t] by auto
  with calm_same [OF step] False show ?thesis
    by (intro exI [of _ s2]) (auto simp: Server_Close_def intro: converse_rtranclp_into_rtranclp)
qed

lemma Server_Close_cases:
  "(case Server_Close sv w of None \<Rightarrow> pc = ClosePanic | Some (sv', w') \<Rightarrow> pc = CloseReturned True \<and> P w') \<Longrightarrow> close_over pc"
  by (auto simp: close_over_def split: option.splits prod.splits)

lemma close_ends:
  assumes inv: "service_inv s" and "closers s t \<noteq> CloseOut"
  shows "\<exists>s'. calm_step\<^sup>*\<^sup>* s s' \<and> close_over (closers s' t)"
proof (cases "closers s t")
  case CloseDone
  then show ?thesis using close_runs [OF inv CloseDone] Server_Close_cases by blast
next
  case CloseListen
  then show ?thesis using listen_returns [OF inv CloseListen] by (auto simp: close_over_def)
next
  case (CloseWait ok)
  then show ?thesis using wait_returns [OF inv CloseWait] by (auto simp: close_over_def)
next
  case (CloseUnlink ok)
  then show ?thesis using unlink_returns [OF inv CloseUnlink] by (auto simp: close_over_def)
next
  case (CloseReturned ok)
  then have "ok" using past_done(2) [OF inv, of t] by (simp add: outside_def)
  with CloseReturned show ?thesis by (intro exI [of _ s]) (simp add: close_over_def)
next
  case ClosePanic
  then show ?thesis by (intro exI [of _ s]) (simp add: close_over_def)
qed (use assms in simp)

section \<open>Properties\<close>

text \<open>
  C29: When a Close of the control server has returned, the server is really gone: the accept loop has
  exited, the listener is closed without error, nothing waits to be accepted and no path leads to
  the server; and this stays so, no connection being accepted afterwards, whatever clients and other
  processes do. Only connections accepted before may go on.
\<close>
theorem closed_server_accepts_nothing:
  assumes "Serve True p w0 = (Some sv, w)" and "service_reach sv w s" and "closers s t = CloseReturned ok"
    and "service_step\<^sup>*\<^sup>* s s'"
  shows "ok \<and> acceptor s' = AcceptExited \<and> srv_wg s' = 0 \<and> \<not> listening s' \<and> backlog s' = [] \<and>
         (\<forall>q. net_Dial q (world_now s') \<noteq> Some (listener (srv s'))) \<and> conns s' \<subseteq> conns s"
proof -
  have inv: "service_inv s" by (rule service_reach_inv [OF assms(2) Serve_fresh [OF assms(1)]])
  have "service_inv s'" by (rule service_reach_inv [OF service_reach_run [OF assms(4,2)] Serve_fresh [OF assms(1)]])
  moreover have "ok" "\<not> listening s" "acceptor s = AcceptExited"
    using past_done(2) [OF inv, of t] assms(3) by (simp_all add: outside_def)
  ultimately show ?thesis
    using stopped_run [OF assms(4)] no_Dial [of s'] by (simp add: service_inv_def)
qed

text \<open>
  C30: Close never hangs, and does not rest on an Accept that happens to fail. From every state the
  server can be in, each call of Close that has begun can, without any Accept failing while the listener is open,
  run to its end, a return without error or, for all calls but the first to get there, the panic of
  closing a closed channel; the first computes the atomic \<open>Server_Close\<close>. At most one call gets past
  that point.
\<close>
theorem server_close_ends:
  assumes "Serve True p w0 = (Some sv, w)" and "service_reach sv w s"
  shows "(closers s t \<noteq> CloseOut \<longrightarrow> (\<exists>s'. calm_step\<^sup>*\<^sup>* s s' \<and> close_over (closers s' t))) \<and>
         (closers s t = CloseDone \<longrightarrow>
            (\<exists>s'. calm_step\<^sup>*\<^sup>* s s' \<and>
               (case Server_Close (srv s) (world_now s) of
                  None \<Rightarrow> closers s' t = ClosePanic
                | Some (sv', w') \<Rightarrow> closers s' t = CloseReturned True \<and> world_now s' = w'))) \<and>
         (\<not> outside (closers s t) \<and> \<not> outside (closers s u) \<longrightarrow> t = u)"
proof -
  have inv: "service_inv s" by (rule service_reach_inv [OF assms(2) Serve_fresh [OF assms(1)]])
  show ?thesis using past_done_unique [OF inv] close_ends [OF inv] close_runs [OF inv] by blast
qed

section \<open>An example\<close>

abbreviation "empty_world \<equiv> \<lparr>files = Map.empty, listeners = Map.empty, next_listener = 0\<rparr>"

text \<open>A client is connected, Close returns, and the client is still connected.\<close>

lemma connection_outlives_close:
  "\<exists>sv w s t. Serve True ''/s'' empty_world = (Some sv, w) \<and> service_reach sv w s \<and>
     closers s t = CloseReturned True \<and> 7 \<in> conns s"
proof -
  let ?sv = "\<lparr>listener = 0, sockPath = ''/s'', done_closed = False, accept_running = True\<rparr>"
  let ?w = "\<lparr>files = [''/s'' \<mapsto> SocketOf 0], listeners = [0 \<mapsto> ''/s''], next_listener = 1\<rparr>"
  have started: "Serve True ''/s'' empty_world = (Some ?sv, ?w)" by (simp add: Serve_ok)
  let ?s0 = "serving_init ?sv ?w"
  let ?s1 = "?s0\<lparr>backlog := backlog ?s0 @ [7]\<rparr>"
  let ?s2 = "?s1\<lparr>acceptor := AcceptGo 7, backlog := []\<rparr>"
  let ?s3 = "?s2\<lparr>acceptor := AcceptWait, conns := insert 7 (conns ?s2)\<rparr>"
  let ?s4 = "close_goto 0 CloseDone ?s3"
  let ?s5 = "close_goto 0 CloseListen (?s4\<lparr>srv := srv ?s4\<lparr>done_closed := True\<rparr>\<rparr>)"
  let ?s6 = "close_goto 0 (CloseWait (listening ?s5)) (?s5\<lparr>world_now := ln_Close (listener (srv ?s5)) (world_now ?s5), backlog := []\<rparr>)"
  let ?s7 = "?s6\<lparr>acceptor := AcceptExited, srv_wg := srv_wg ?s6 - 1\<rparr>"
  let ?s8 = "close_goto 0 (CloseUnlink (listening ?s5)) ?s7"
  let ?s9 = "close_goto 0 (CloseReturned (listening ?s5)) (?s8\<lparr>world_now := os_Remove (sockPath (srv ?s8)) (world_now ?s8)\<rparr>)"
  note r = service_reach.step
  have "service_reach ?sv ?w ?s1"
    by (rule r [OF service_reach.init dial [of "''/s''"]]) (simp add: serving_init_def net_Dial_def)
  then have "service_reach ?sv ?w ?s2" by (rule r [OF _ accept]) (simp_all add: serving_init_def listening_def)
  then have "service_reach ?sv ?w ?s3" by (rule r [OF _ serve]) simp
  then have "service_reach ?sv ?w ?s4" by (rule r [OF _ close_call]) (simp add: serving_init_def)
  then have "service_reach ?sv ?w ?s5" by (rule r [OF _ close_done]) (simp_all add: serving_init_def)
  then have "service_reach ?sv ?w ?s6" by (rule r [OF _ close_listener]) simp
  then have "service_reach ?sv ?w ?s7" by (rule r [OF _ accept_error]) simp
  then have "service_reach ?sv ?w ?s8" by (rule r [OF _ close_wait]) (simp_all add: serving_init_def)
  then have "service_reach ?sv ?w ?s9" by (rule r [OF _ close_unlink]) simp
  moreover have "listening ?s5" by (simp add: serving_init_def listening_def)
  ultimately show ?thesis using started by (intro exI [of _ ?sv] exI [of _ ?w] exI [of _ ?s9] exI [of _ 0]) simp
qed

theorem closed_server_accepts_nothing_witness:
  "\<exists>sv w s t. Serve True ''/s'' empty_world = (Some sv, w) \<and> service_reach sv w s \<and>
     closers s t = CloseReturned True \<and> acceptor s = AcceptExited \<and> \<not> listening s \<and> conns s \<noteq> {}"
proof -
  obtain sv w s t where c: "Serve True ''/s'' empty_world = (Some sv, w)" "service_reach sv w s"
      "closers s t = CloseReturned True" "7 \<in> conns s"
    using connection_outlives_close by blast
  from closed_server_accepts_nothing [OF c(1-3) rtranclp.rtrancl_refl] c show ?thesis by blast
qed

theorem server_close_ends_witness:
  "\<exists>sv w s'. Serve True ''/s'' empty_world = (Some sv, w) \<and>
     calm_step\<^sup>*\<^sup>* (close_goto 0 CloseDone (serving_init sv w)) s' \<and> close_over (closers s' 0)"
proof -
  obtain sv w where s: "Serve True ''/s'' empty_world = (Some sv, w)" by (simp add: Serve_ok)
  have "service_reach sv w (close_goto 0 CloseDone (serving_init sv w))"
    by (rule service_reach.step [OF service_reach.init close_call]) (simp add: serving_init_def)
  from server_close_ends [OF s this, of 0 0] s show ?thesis by auto
qed

end
