(* ===== verification/Bpf.thy ===== *)
theory Bpf
  imports Prelude
begin

text \<open>
  The socket filters of the program: \<open>InboundBPF\<close> in \<open>internal/goswitch/afpacket.go\<close>, and
  \<open>inboundFilter\<close> and \<open>perfBPF\<close> of the test harness (\<open>internal/harness/probe.go\<close>, \<open>perf.go\<close>).
  The instruction type is the part of \<open>golang.org/x/net/bpf\<close> they use. The kernel that runs a filter
  is not part of the repository: \<open>bpf_semantics\<close> states the documented behaviour of each instruction,
  the programs are proved against it, and \<open>bpf_run\<close> is a machine that meets it.

  A packet is its \<open>pkt_type\<close> and its bytes. A load outside the packet ends the program with 0,
  which drops the packet; otherwise the value returned is the number of bytes to keep.
\<close>

section \<open>Programs\<close>

datatype bpf_insn =
    LoadExtType
  | LoadAbsolute nat nat
  | JumpIfEqual nat nat nat
  | RetConstant nat

type_synonym bpf_packet = "nat \<times> byte list"

definition load_be :: "byte list \<Rightarrow> nat \<Rightarrow> nat \<Rightarrow> nat option" where
  "load_be b off sz =
     (if off + sz \<le> length b then Some (foldl (\<lambda>n x. 256 * n + unat x) 0 (take sz (drop off b))) else None)"

definition InboundBPF :: "bpf_insn list" where
  "InboundBPF = [LoadExtType, JumpIfEqual 4 1 0, RetConstant 0x40000, RetConstant 0]"

definition inboundFilter :: "bpf_insn list" where
  "inboundFilter = [LoadExtType, JumpIfEqual 4 1 0, RetConstant 0x40000, RetConstant 0]"

definition TestEtherType :: nat where
  "TestEtherType = 0x88B5"

definition perfBPF :: "bpf_insn list" where
  "perfBPF =
     [LoadExtType, JumpIfEqual 4 4 0, LoadAbsolute 12 2, JumpIfEqual TestEtherType 1 0,
      RetConstant 0, RetConstant 0x40000, RetConstant 0]"

section \<open>The machine\<close>

text \<open>\<open>run is a p\<close>: the result of the instructions \<open>is\<close> on \<open>p\<close> with \<open>a\<close> in the accumulator.\<close>

locale bpf_semantics =
  fixes run :: "bpf_insn list \<Rightarrow> nat \<Rightarrow> bpf_packet \<Rightarrow> nat"
  assumes run_ret: "run (RetConstant k # is) a p = k"
    and run_ext: "run (LoadExtType # is) a p = run is (fst p) p"
    and run_load: "run (LoadAbsolute off sz # is) a p =
          (case load_be (snd p) off sz of None \<Rightarrow> 0 | Some v \<Rightarrow> run is v p)"
    and run_jump: "run (JumpIfEqual v st sf # is) a p = run (drop (if a = v then st else sf) is) a p"
begin

lemmas run_simps = run_ret run_ext run_load run_jump

lemma inbound_drops_own: "run InboundBPF a p = (if fst p = 4 then 0 else 0x40000)"
  by (simp add: InboundBPF_def run_simps)

lemma perf_accepts:
  "run perfBPF a p =
     (if fst p \<noteq> 4 \<and> load_be (snd p) 12 2 = Some TestEtherType then 0x40000 else 0)"
  by (simp add: perfBPF_def run_simps split: option.split)

end

function bpf_run :: "bpf_insn list \<Rightarrow> nat \<Rightarrow> bpf_packet \<Rightarrow> nat" where
  "bpf_run [] a p = 0"
| "bpf_run (RetConstant k # is) a p = k"
| "bpf_run (LoadExtType # is) a p = bpf_run is (fst p) p"
| "bpf_run (LoadAbsolute off sz # is) a p =
     (case load_be (snd p) off sz of None \<Rightarrow> 0 | Some v \<Rightarrow> bpf_run is v p)"
| "bpf_run (JumpIfEqual v st sf # is) a p = bpf_run (drop (if a = v then st else sf) is) a p"
  by pat_completeness auto
termination
  by (relation "measure (\<lambda>(is, a, p). length is)") auto

interpretation machine: bpf_semantics bpf_run
  by unfold_locales simp_all

section \<open>Properties\<close>

text \<open>
  The socket filters. On any machine with the documented instruction semantics, the filter of a
  switch port accepts whole exactly the packets that the host did not itself send on the port
  (\<open>PACKET_OUTGOING\<close> is 4), so the switch never reads back its own transmissions; the harness
  captures with the same filter; and the measuring filter accepts of those exactly the untagged
  frames of the test EtherType, rejecting frames too short to have one.
\<close>
theorem filters_accept:
  assumes "bpf_semantics run"
  shows "run InboundBPF a (ptype, b) = (if ptype = 4 then 0 else 0x40000) \<and>
         run inboundFilter a (ptype, b) = run InboundBPF a (ptype, b) \<and>
         run perfBPF a (ptype, b) =
           (if ptype \<noteq> 4 \<and> 14 \<le> length b \<and> 256 * unat (b ! 12) + unat (b ! 13) = 0x88B5 then 0x40000 else 0)"
proof -
  have "load_be b 12 2 = Some TestEtherType \<longleftrightarrow>
      14 \<le> length b \<and> 256 * unat (b ! 12) + unat (b ! 13) = 0x88B5"
  proof (cases "14 \<le> length b")
    case True
    then have "take 2 (drop 12 b) = [b ! 12, b ! 13]"
      by (simp add: numeral_eq_Suc Cons_nth_drop_Suc [symmetric] take_Suc_conv_app_nth)
    with True show ?thesis by (simp add: load_be_def TestEtherType_def)
  qed (simp add: load_be_def)
  then show ?thesis
    using bpf_semantics.inbound_drops_own [OF assms] bpf_semantics.perf_accepts [OF assms]
    by (simp add: inboundFilter_def InboundBPF_def)
qed

theorem filters_accept_witness:
  "bpf_run InboundBPF 0 (4, replicate 60 0) = 0 \<and> bpf_run perfBPF 0 (0, replicate 12 0 @ [0x88, 0xB5, 7]) = 0x40000"
  using filters_accept [OF machine.bpf_semantics_axioms, of 0 4 "replicate 60 0"]
    filters_accept [OF machine.bpf_semantics_axioms, of 0 0 "replicate 12 0 @ [0x88, 0xB5, 7]"]
  by (simp add: nth_append)

end
