(* ===== verification/Os.thy ===== *)
theory Os
  imports Bpf
begin

text \<open>
  What the program asks of the operating system and of the packet-socket library: the calls, in the
  order they are made, as a trace. An oracle says, from the calls made so far, whether a call
  succeeds, so any behaviour of the system is some oracle. A packet socket is named by the position
  of the call that opened it.

  \<open>port_opener\<close> is the contract of a function that opens a switch port: it hands over one open socket,
  or fails and leaves none behind. The command line and the test harness each have such a function,
  and the loop that opens all ports is verified once against the contract.
\<close>

section \<open>Calls\<close>

datatype tp_opt =
    OptInterface string
  | OptFrameSize nat
  | OptBlockSize nat
  | OptNumBlocks nat
  | OptBlockTimeout nat
  | OptPollTimeout nat
  | OptAddVLANHeader bool
  | OptTPacketVersion nat

datatype syscall =
    Exec "string list"
  | NewTPacket "tp_opt list"
  | SetPromiscuous nat bool
  | SetBPF nat "bpf_insn list"
  | WriteTP nat "byte list"
  | CloseTP nat
  | NetnsGet
  | NetnsGetFromName string
  | NetnsSet string
  | NetnsRestore
  | NetnsClose
  | RemoveFile string
  | ListenUnix string
  | RegisterName string
  | CloseListener string

type_synonym trace = "syscall list"
type_synonym os_oracle = "trace \<Rightarrow> syscall \<Rightarrow> bool"

definition call :: "os_oracle \<Rightarrow> syscall \<Rightarrow> trace \<Rightarrow> bool \<times> trace" where
  "call orc c tr = (orc tr c, tr @ [c])"

lemma call_eq [simp]: "call orc c tr = (ok, tr') \<longleftrightarrow> ok = orc tr c \<and> tr' = tr @ [c]"
  by (auto simp: call_def)

section \<open>Open sockets\<close>

fun is_open :: "syscall \<Rightarrow> bool" where
  "is_open (NewTPacket opts) = True"
| "is_open c = False"

fun closes_of :: "syscall \<Rightarrow> nat list" where
  "closes_of (CloseTP h) = [h]"
| "closes_of c = []"

definition opened :: "os_oracle \<Rightarrow> trace \<Rightarrow> nat list" where
  "opened orc tr = filter (\<lambda>i. is_open (tr ! i) \<and> orc (take i tr) (tr ! i)) [0..<length tr]"

definition closed_by :: "trace \<Rightarrow> nat list" where
  "closed_by tr = concat (map closes_of tr)"

lemma opened_Nil [simp]: "opened orc [] = []"
  by (simp add: opened_def)

lemma opened_snoc [simp]:
  "opened orc (tr @ [c]) = opened orc tr @ (if is_open c \<and> orc tr c then [length tr] else [])"
proof -
  have "filter (\<lambda>i. is_open ((tr @ [c]) ! i) \<and> orc (take i (tr @ [c])) ((tr @ [c]) ! i)) [0..<length tr] =
        filter (\<lambda>i. is_open (tr ! i) \<and> orc (take i tr) (tr ! i)) [0..<length tr]"
    by (rule filter_cong) (auto simp: nth_append)
  then show ?thesis by (simp add: opened_def)
qed

fun opens_after :: "os_oracle \<Rightarrow> trace \<Rightarrow> trace \<Rightarrow> nat list" where
  "opens_after orc tr [] = []"
| "opens_after orc tr (c # cs) =
     (if is_open c \<and> orc tr c then [length tr] else []) @ opens_after orc (tr @ [c]) cs"

lemma opened_append: "opened orc (tr @ cs) = opened orc tr @ opens_after orc tr cs"
proof (induction cs arbitrary: tr)
  case (Cons c cs)
  from Cons [of "tr @ [c]"] show ?case by simp
qed simp

lemma closed_by_append [simp]: "closed_by (tr @ tr') = closed_by tr @ closed_by tr'"
  by (simp add: closed_by_def)

lemma closed_by_simps [simp]: "closed_by [] = []" "closed_by (c # tr) = closes_of c @ closed_by tr"
  by (simp_all add: closed_by_def)

definition close_all :: "nat list \<Rightarrow> trace \<Rightarrow> trace" where
  "close_all hs tr = tr @ map CloseTP hs"

lemma closed_by_close_all [simp]: "closed_by (close_all hs tr) = closed_by tr @ hs"
  by (induction hs arbitrary: tr) (simp_all add: close_all_def)

lemma opened_close_all [simp]: "opened orc (close_all hs tr) = opened orc tr"
proof -
  have "opens_after orc tr (map CloseTP hs) = []" by (induction hs arbitrary: tr) simp_all
  then show ?thesis by (simp add: close_all_def opened_append)
qed

section \<open>Opening all ports\<close>

text \<open>
  The loop of \<open>runSwitch\<close> and of \<open>GoSwitch.Start\<close>: open the ports in order; at the first failure
  close those already open and report the port.
\<close>

fun open_all ::
  "(string \<Rightarrow> trace \<Rightarrow> nat option \<times> trace) \<Rightarrow> string list \<Rightarrow> nat list \<Rightarrow> trace \<Rightarrow> (string + nat list) \<times> trace" where
  "open_all opn [] ios tr = (Inr ios, tr)"
| "open_all opn (n # ns) ios tr =
     (case opn n tr of
        (None, tr1) \<Rightarrow> (Inl n, close_all ios tr1)
      | (Some h, tr1) \<Rightarrow> open_all opn ns (ios @ [h]) tr1)"

locale port_opener =
  fixes orc :: os_oracle and opn :: "string \<Rightarrow> trace \<Rightarrow> nat option \<times> trace"
  assumes opn_Some: "opn n tr = (Some h, tr') \<Longrightarrow>
            opened orc tr' = opened orc tr @ [h] \<and> closed_by tr' = closed_by tr"
    and opn_None: "opn n tr = (None, tr') \<Longrightarrow>
            \<exists>hs. opened orc tr' = opened orc tr @ hs \<and> closed_by tr' = closed_by tr @ hs"
begin

lemma open_all_ok:
  "open_all opn ns ios tr = (Inr hs, tr') \<Longrightarrow>
     \<exists>new. hs = ios @ new \<and> length new = length ns \<and> opened orc tr' = opened orc tr @ new \<and>
           closed_by tr' = closed_by tr"
proof (induction ns arbitrary: ios tr)
  case (Cons n ns)
  then obtain h tr1 where o: "opn n tr = (Some h, tr1)" "open_all opn ns (ios @ [h]) tr1 = (Inr hs, tr')"
    by (auto split: prod.splits option.splits)
  from Cons.IH [OF o(2)] opn_Some [OF o(1)] show ?case by auto
qed simp

lemma open_all_fail:
  "open_all opn ns ios tr = (Inl n, tr') \<Longrightarrow>
     \<exists>new failed. opened orc tr' = opened orc tr @ new @ failed \<and>
           closed_by tr' = closed_by tr @ failed @ ios @ new"
proof (induction ns arbitrary: ios tr)
  case (Cons m ns)
  show ?case
  proof (cases "opn m tr")
    case (Pair r tr1)
    show ?thesis
    proof (cases r)
      case None
      then have o: "opn m tr = (None, tr1)" using Pair by simp
      have "tr' = close_all ios tr1" using Cons.prems o by simp
      moreover obtain hs where "opened orc tr1 = opened orc tr @ hs" "closed_by tr1 = closed_by tr @ hs"
        using opn_None [OF o] by blast
      ultimately show ?thesis by (intro exI [of _ "[]"] exI [of _ hs]) simp
    next
      case (Some h)
      then have o: "opn m tr = (Some h, tr1)" using Pair by simp
      then have "open_all opn ns (ios @ [h]) tr1 = (Inl n, tr')" using Cons.prems by simp
      from Cons.IH [OF this] opn_Some [OF o] obtain new failed
        where "opened orc tr' = opened orc tr @ h # new @ failed" "closed_by tr' = closed_by tr @ failed @ ios @ h # new"
        by auto
      then show ?thesis by (intro exI [of _ "h # new"] exI [of _ failed]) simp
    qed
  qed
qed simp

end

end
