(* ===== verification/Afpacket.thy ===== *)
theory Afpacket
  imports Os
begin

text \<open>
  Opening the sockets of the switch ports: \<open>RxOpts\<close>, \<open>disableOffloads\<close> and \<open>OpenInterface\<close> of
  \<open>internal/goswitch/afpacket.go\<close> for the command line, \<open>openInNetns\<close> of \<open>internal/harness/probe.go\<close>
  and the body of the loop of \<open>GoSwitch.Start\<close> (\<open>switch.go\<close>) for the test harness. Times are in
  milliseconds. The warnings printed when the offloads cannot be turned off are left out; the switch
  comes up all the same. Both are openers in the sense of \<open>port_opener\<close>.
\<close>

section \<open>Command line\<close>

definition RxOpts :: "string \<Rightarrow> tp_opt list" where
  "RxOpts ifname =
     [OptInterface ifname, OptFrameSize 4096, OptBlockSize (4096 * 32), OptNumBlocks 16,
      OptBlockTimeout 1, OptPollTimeout 1, OptAddVLANHeader True]"

definition disableOffloads :: "os_oracle \<Rightarrow> string \<Rightarrow> trace \<Rightarrow> bool \<times> trace" where
  "disableOffloads orc ifname tr =
     call orc (Exec [''ethtool'', ''-K'', ifname, ''gro'', ''off'', ''gso'', ''off'', ''tso'', ''off'', ''lro'', ''off'']) tr"

definition OpenInterface :: "os_oracle \<Rightarrow> string \<Rightarrow> trace \<Rightarrow> nat option \<times> trace" where
  "OpenInterface orc ifname tr =
     (let (_, tr1) = disableOffloads orc ifname tr;
          tp = length tr1;
          (ok, tr2) = call orc (NewTPacket (RxOpts ifname)) tr1
      in if \<not> ok then (None, tr2)
         else let (ok, tr3) = call orc (SetPromiscuous tp True) tr2
              in if \<not> ok then (None, tr3 @ [CloseTP tp])
                 else let (ok, tr4) = call orc (SetBPF tp InboundBPF) tr3
                      in if \<not> ok then (None, tr4 @ [CloseTP tp]) else (Some tp, tr4))"

lemma OpenInterface_Some:
  assumes "OpenInterface orc n tr = (Some h, tr')"
  shows "opened orc tr' = opened orc tr @ [h] \<and> closed_by tr' = closed_by tr"
  using assms
  by (auto simp: OpenInterface_def disableOffloads_def call_def Let_def opened_append split: if_splits)

lemma OpenInterface_None:
  assumes "OpenInterface orc n tr = (None, tr')"
  shows "\<exists>hs. opened orc tr' = opened orc tr @ hs \<and> closed_by tr' = closed_by tr @ hs"
  using assms
  by (auto simp: OpenInterface_def disableOffloads_def call_def Let_def opened_append split: if_splits)

interpretation cli_opener: port_opener orc "OpenInterface orc" for orc
  by unfold_locales (simp_all add: OpenInterface_Some OpenInterface_None)

section \<open>Test harness\<close>

text \<open>
  Entering a namespace, opening, and the deferred clean-up in reverse order: restore, close the
  target, close the original.
\<close>

definition openInNetns :: "os_oracle \<Rightarrow> string \<Rightarrow> tp_opt list \<Rightarrow> trace \<Rightarrow> nat option \<times> trace" where
  "openInNetns orc nsName opts tr =
     (let (ok, tr1) = call orc NetnsGet tr
      in if \<not> ok then (None, tr1)
         else let (ok, tr2) = call orc (NetnsGetFromName nsName) tr1
              in if \<not> ok then (None, tr2 @ [NetnsClose])
                 else let (ok, tr3) = call orc (NetnsSet nsName) tr2
                      in if \<not> ok then (None, tr3 @ [NetnsClose, NetnsClose])
                         else let tp = length tr3; (ok, tr4) = call orc (NewTPacket opts) tr3
                              in ((if ok then Some tp else None), tr4 @ [NetnsRestore, NetnsClose, NetnsClose]))"

text \<open>One iteration of the loop of \<open>GoSwitch.Start\<close>, up to the append.\<close>

definition open_switch_port :: "os_oracle \<Rightarrow> string \<Rightarrow> string \<Rightarrow> trace \<Rightarrow> nat option \<times> trace" where
  "open_switch_port orc swNS ifname tr =
     (case openInNetns orc swNS (RxOpts ifname) tr of
        (None, tr1) \<Rightarrow> (None, tr1)
      | (Some tp, tr1) \<Rightarrow>
          (let (ok, tr2) = call orc (SetBPF tp InboundBPF) tr1
           in if \<not> ok then (None, tr2 @ [CloseTP tp]) else (Some tp, tr2)))"

lemma openInNetns_cases:
  "openInNetns orc ns opts tr = (r, tr') \<Longrightarrow>
     closed_by tr' = closed_by tr \<and>
     opened orc tr' = opened orc tr @ (case r of None \<Rightarrow> [] | Some h \<Rightarrow> [h])"
  by (auto simp: openInNetns_def call_def Let_def opened_append split: if_splits)

lemma open_switch_port_Some:
  assumes "open_switch_port orc ns n tr = (Some h, tr')"
  shows "opened orc tr' = opened orc tr @ [h] \<and> closed_by tr' = closed_by tr"
proof -
  obtain r tr1 where o: "openInNetns orc ns (RxOpts n) tr = (r, tr1)" by fastforce
  show ?thesis
    using assms openInNetns_cases [OF o]
    by (auto simp: open_switch_port_def o call_def Let_def opened_append split: if_splits option.splits)
qed

lemma open_switch_port_None:
  assumes "open_switch_port orc ns n tr = (None, tr')"
  shows "\<exists>hs. opened orc tr' = opened orc tr @ hs \<and> closed_by tr' = closed_by tr @ hs"
proof -
  obtain r tr1 where o: "openInNetns orc ns (RxOpts n) tr = (r, tr1)" by fastforce
  show ?thesis
    using assms openInNetns_cases [OF o]
    by (auto simp: open_switch_port_def o call_def Let_def opened_append split: if_splits option.splits)
qed

interpretation harness_opener: port_opener orc "open_switch_port orc ns" for orc ns
  by unfold_locales (simp_all add: open_switch_port_Some open_switch_port_None)

end
