(* ===== verification/Flags.thy ===== *)
theory Flags
  imports Text
begin

text \<open>
  Go's \<open>flag\<close> package and \<open>strconv.ParseInt\<close> as the command line uses them: flags that all take a
  value, given as \<open>-name value\<close> or \<open>-name=value\<close> with one or two dashes; \<open>--\<close>, a lone \<open>-\<close> and the first
  argument without a dash end the flags. A flag set is the set of its names and a function that
  stores a value, which may reject it.
\<close>

section \<open>Integers with a base prefix\<close>

text \<open>\<open>strconv.ParseInt(s, 0, 64)\<close>: optional sign, a prefix for base 2, 8 or 16, underscores between digits.\<close>

definition lower :: "char \<Rightarrow> char" where
  "lower c = (let n = of_char c :: nat in if 65 \<le> n \<and> n \<le> 90 then char_of (n + 32) else c)"

definition any_digit :: "char \<Rightarrow> nat option" where
  "any_digit c =
     (let n = of_char (lower c) :: nat
      in if 48 \<le> n \<and> n \<le> 57 then Some (n - 48) else if 97 \<le> n \<and> n \<le> 122 then Some (n - 87) else None)"

fun base_value :: "nat \<Rightarrow> string \<Rightarrow> nat \<Rightarrow> nat option" where
  "base_value b [] acc = Some acc"
| "base_value b (c # cs) acc =
     (if c = CHR ''_'' then base_value b cs acc
      else case any_digit c of
             None \<Rightarrow> None
           | Some d \<Rightarrow> if d < b then base_value b cs (b * acc + d) else None)"

fun underscores_ok :: "bool \<Rightarrow> char \<Rightarrow> string \<Rightarrow> bool" where
  "underscores_ok hex prev [] = (prev \<noteq> CHR ''_'')"
| "underscores_ok hex prev (c # cs) =
     (if is_digit c \<or> hex \<and> lower c \<in> set ''abcdef'' then underscores_ok hex CHR ''0'' cs
      else if c = CHR ''_'' then prev = CHR ''0'' \<and> underscores_ok hex CHR ''_'' cs
      else prev \<noteq> CHR ''_'' \<and> underscores_ok hex CHR ''!'' cs)"

definition split_base :: "string \<Rightarrow> nat \<times> string" where
  "split_base s =
     (case s of
        c # d # r # rs \<Rightarrow>
          (if c \<noteq> CHR ''0'' then (10, s)
           else if lower d = CHR ''b'' then (2, r # rs)
           else if lower d = CHR ''o'' then (8, r # rs)
           else if lower d = CHR ''x'' then (16, r # rs)
           else (8, d # r # rs))
      | c # ds \<Rightarrow> (if c \<noteq> CHR ''0'' then (10, s) else (8, ds))
      | [] \<Rightarrow> (10, s))"

definition prefix_underscores_ok :: "string \<Rightarrow> bool" where
  "prefix_underscores_ok s =
     (case s of
        c # d # ds \<Rightarrow>
          (if c = CHR ''0'' \<and> lower d \<in> set ''box'' then underscores_ok (lower d = CHR ''x'') CHR ''0'' ds
           else underscores_ok False CHR ''^'' s)
      | _ \<Rightarrow> underscores_ok False CHR ''^'' s)"

definition ParseUint0 :: "string \<Rightarrow> nat option" where
  "ParseUint0 s =
     (if s = [] then None
      else case split_base s of (b, ds) \<Rightarrow>
        (case base_value b ds 0 of
           None \<Rightarrow> None
         | Some n \<Rightarrow> if n < 2 ^ 64 \<and> (CHR ''_'' \<in> set ds \<longrightarrow> prefix_underscores_ok s) then Some n else None))"

definition ParseInt :: "string \<Rightarrow> int option" where
  "ParseInt s =
     (case s of
        [] \<Rightarrow> None
      | c # cs \<Rightarrow>
          (let neg = (c = CHR ''-''); body = (if c = CHR ''-'' \<or> c = CHR ''+'' then cs else s)
           in case ParseUint0 body of
                None \<Rightarrow> None
              | Some n \<Rightarrow> if \<not> neg \<and> 2 ^ 63 \<le> n \<or> neg \<and> 2 ^ 63 < n then None
                          else Some (if neg then - int n else int n)))"

section \<open>Flag sets\<close>

datatype flag_error = BadFlagSyntax string | UndefinedFlag string | FlagHelp | FlagNeedsArgument string | InvalidValue string string

datatype parsed_flag = FlagsEnd "string list" | FlagBad flag_error | FlagValue string string "string list"

text \<open>The flag name and the value after an equals sign, which is not looked for in the first byte.\<close>

definition cut_value :: "string \<Rightarrow> string \<times> string option" where
  "cut_value n =
     (case n of
        [] \<Rightarrow> ([], None)
      | c # cs \<Rightarrow> (case Cut CHR ''='' cs of None \<Rightarrow> (n, None) | Some (a, b) \<Rightarrow> (c # a, Some b)))"

definition parse_one :: "string set \<Rightarrow> string list \<Rightarrow> parsed_flag" where
  "parse_one names args =
     (case args of
        [] \<Rightarrow> FlagsEnd []
      | s # rest \<Rightarrow>
          (if length s < 2 \<or> hd s \<noteq> CHR ''-'' then FlagsEnd args
           else if s = ''--'' then FlagsEnd rest
           else
             (let n = (if s ! 1 = CHR ''-'' then drop 2 s else drop 1 s)
              in if n = [] \<or> hd n = CHR ''-'' \<or> hd n = CHR ''='' then FlagBad (BadFlagSyntax s)
                 else case cut_value n of (name, value) \<Rightarrow>
                   (if name \<notin> names then
                      (if name = ''help'' \<or> name = ''h'' then FlagBad FlagHelp else FlagBad (UndefinedFlag name))
                    else case value of
                           Some v \<Rightarrow> FlagValue name v rest
                         | None \<Rightarrow> (case rest of
                                     [] \<Rightarrow> FlagBad (FlagNeedsArgument name)
                                   | v # rest' \<Rightarrow> FlagValue name v rest')))))"

lemma parse_one_less: "parse_one names args = FlagValue n v rest \<Longrightarrow> length rest < length args"
  by (auto simp: parse_one_def Let_def split: list.splits if_splits option.splits prod.splits)

function parse_flags ::
  "string set \<Rightarrow> (string \<Rightarrow> string \<Rightarrow> 's \<Rightarrow> 's option) \<Rightarrow> string list \<Rightarrow> 's \<Rightarrow> flag_error + 's \<times> string list" where
  "parse_flags names store args s =
     (case parse_one names args of
        FlagsEnd rest \<Rightarrow> Inr (s, rest)
      | FlagBad err \<Rightarrow> Inl err
      | FlagValue n v rest \<Rightarrow>
          (case store n v s of
             None \<Rightarrow> Inl (InvalidValue n v)
           | Some s' \<Rightarrow> parse_flags names store rest s'))"
  by pat_completeness auto
termination
  by (relation "measure (\<lambda>(names, store, args, s). length args)") (auto dest: parse_one_less)

declare parse_flags.simps [simp del]

text \<open>One flag in the form \<open>-name value\<close>.\<close>

lemma parse_flags_Nil [simp]: "parse_flags names store [] s = Inr (s, [])"
  by (simp add: parse_flags.simps parse_one_def)

lemma parse_flags_step:
  assumes "n \<in> names" and "n \<noteq> []" and "CHR ''='' \<notin> set n" and "hd n \<noteq> CHR ''-''"
  shows "parse_flags names store ((CHR ''-'' # n) # v # rest) s =
     (case store n v s of None \<Rightarrow> Inl (InvalidValue n v) | Some s' \<Rightarrow> parse_flags names store rest s')"
proof -
  obtain c cs where n: "n = c # cs" using assms(2) by (cases n) auto
  have "Cut CHR ''='' cs = None" using assms(3) n by (cases "Cut CHR ''='' cs") (auto simp: Cut_Some_iff)
  then have "parse_one names ((CHR ''-'' # n) # v # rest) = FlagValue n v rest"
    using assms n by (auto simp: parse_one_def cut_value_def)
  then show ?thesis by (subst parse_flags.simps) simp
qed

section \<open>Decimal integers\<close>

lemma any_digit_digit: "d < 10 \<Longrightarrow> any_digit (digit d) = Some d"
  by (simp add: any_digit_def lower_def digit_def)

lemma base_value_append: "CHR ''_'' \<notin> set s \<Longrightarrow> base_value b (s @ t) a =
    (case base_value b s a of None \<Rightarrow> None | Some a' \<Rightarrow> base_value b t a')"
  by (induction s arbitrary: a) (auto split: option.split)

lemma digit_not_underscore: "d < 10 \<Longrightarrow> digit d \<noteq> CHR ''_''"
  by (auto simp: digit_def dest!: arg_cong [where f = "of_char :: char \<Rightarrow> nat"])

lemma dec_no_underscore: "CHR ''_'' \<notin> set (Itoa n)"
  using dec_digits [of n] by (auto simp: list_all_iff is_digit_def)

lemma base_value_dec: "base_value 10 (Itoa n) 0 = Some n"
proof (induction n rule: Itoa.induct)
  case (1 n)
  show ?case
  proof (cases "n < 10")
    case True
    then show ?thesis by (subst Itoa.simps) (simp add: any_digit_digit digit_not_underscore)
  next
    case False
    then show ?thesis using 1
      by (subst Itoa.simps)
        (simp add: base_value_append dec_no_underscore any_digit_digit digit_not_underscore)
  qed
qed

lemma hd_dec: "0 < n \<Longrightarrow> hd (Itoa n) \<noteq> CHR ''0'' \<and> is_digit (hd (Itoa n))"
proof (induction n rule: Itoa.induct)
  case (1 n)
  show ?case
  proof (cases "n < 10")
    case True
    with 1(2) show ?thesis
      by (subst (1 2) Itoa.simps) (auto simp: digit_def is_digit_def dest!: arg_cong [where f = "of_char :: char \<Rightarrow> nat"])
  next
    case False
    then have "hd (Itoa n) = hd (Itoa (n div 10))" by (subst Itoa.simps) simp
    then show ?thesis using 1 False by simp
  qed
qed

lemma ParseUint0_dec:
  assumes "n \<noteq> 0" and "n < 2 ^ 64"
  shows "ParseUint0 (Itoa n) = Some n" and "\<exists>c cs. Itoa n = c # cs \<and> c \<noteq> CHR ''-'' \<and> c \<noteq> CHR ''+''"
proof -
  obtain c cs where d: "Itoa n = c # cs" by (cases "Itoa n") auto
  have c: "c \<noteq> CHR ''0''" "is_digit c" using hd_dec [of n] assms(1) d by simp_all
  then have "c \<noteq> CHR ''-''" "c \<noteq> CHR ''+''" by (auto simp: is_digit_def)
  with d show "\<exists>c cs. Itoa n = c # cs \<and> c \<noteq> CHR ''-'' \<and> c \<noteq> CHR ''+''" by blast
  have "split_base (Itoa n) = (10, Itoa n)" using c by (simp add: split_base_def d split: list.split)
  then show "ParseUint0 (Itoa n) = Some n"
    using assms(2) dec_no_underscore [of n] base_value_dec [of n] d by (simp add: ParseUint0_def)
qed

lemma ParseInt_dec: "n < 2 ^ 63 \<Longrightarrow> ParseInt (Itoa n) = Some (int n)"
proof (cases "n = 0")
  case True
  have "Itoa 0 = ''0''" by code_simp
  moreover have "ParseInt ''0'' = Some 0" by (simp add: ParseInt_def ParseUint0_def split_base_def)
  ultimately show ?thesis using True by simp
next
  case False
  assume "n < 2 ^ 63"
  then show ?thesis using ParseUint0_dec [OF False] by (auto simp: ParseInt_def)
qed

lemma ParseInt_neg: "0 < n \<Longrightarrow> n \<le> 2 ^ 63 \<Longrightarrow> ParseInt (CHR ''-'' # Itoa n) = Some (- int n)"
  using ParseUint0_dec(1) [of n] by (simp add: ParseInt_def)

end
