(* ===== verification/Cmd.thy ===== *)
theory Cmd
  imports Afpacket Flags Construction "HOL-Library.Multiset"
begin

text \<open>
  The command \<open>cmd/vibe-switch/main.go\<close>: the port flags, \<open>runSwitch\<close> from its arguments to its
  return, \<open>runCtl\<close> and the dispatch of \<open>main\<close>. A run is its trace of system calls. The engine's own
  activity between Start and Stop is the subject of theory \<open>Lifecycle\<close>; here Stop contributes the
  closing of the handles. Waiting for a signal is not a call.
\<close>

section \<open>Port flags\<close>

definition parseVID :: "string \<Rightarrow> u16 option" where
  "parseVID s =
     (case ParseUint 16 (TrimSpace s) of
        None \<Rightarrow> None
      | Some n \<Rightarrow> if n = 0 \<or> n > 4094 then None else Some (of_nat n))"

definition splitNameVID :: "string \<Rightarrow> (string \<times> u16) option" where
  "splitNameVID s =
     (case Cut CHR '':'' s of
        None \<Rightarrow> None
      | Some (ifn, rest) \<Rightarrow>
          (if ifn = [] then None else map_option (Pair ifn) (parseVID rest)))"

fun parseVIDs :: "string list \<Rightarrow> u16 list \<Rightarrow> u16 list option" where
  "parseVIDs [] vids = Some vids"
| "parseVIDs (part # parts) vids =
     (case parseVID part of None \<Rightarrow> None | Some vid \<Rightarrow> parseVIDs parts (vids @ [vid]))"

definition splitNameVIDs :: "string \<Rightarrow> (string \<times> u16 list) option" where
  "splitNameVIDs s =
     (case Cut CHR '':'' s of
        None \<Rightarrow> None
      | Some (ifn, rest) \<Rightarrow>
          (if ifn = [] then None
           else case parseVIDs (Split CHR '','' rest) [] of
                  None \<Rightarrow> None
                | Some vids \<Rightarrow> if length vids = 0 then None else Some (ifn, vids)))"

datatype collector_role = CollectPlain | CollectAccess | CollectTrunk

definition collector_Set :: "collector_role \<Rightarrow> string \<Rightarrow> PortConfig list \<Rightarrow> PortConfig list option" where
  "collector_Set r v cfgs =
     (case r of
        CollectPlain \<Rightarrow> Some (cfgs @ [\<lparr>Name = v, AccessVID = 0, Trunk = []\<rparr>])
      | CollectAccess \<Rightarrow>
          (case splitNameVID v of
             None \<Rightarrow> None
           | Some (ifn, vid) \<Rightarrow> Some (cfgs @ [\<lparr>Name = ifn, AccessVID = vid, Trunk = []\<rparr>]))
      | CollectTrunk \<Rightarrow>
          (case splitNameVIDs v of
             None \<Rightarrow> None
           | Some (ifn, vids) \<Rightarrow> Some (cfgs @ [\<lparr>Name = ifn, AccessVID = 0, Trunk = vids\<rparr>])))"

section \<open>Flags of the switch\<close>

record switch_flags =
  cfgs :: "PortConfig list"
  ageing_flag :: int
  sock_flag :: string

definition defaultSock :: string where
  "defaultSock = ''/run/vibe-switch.sock''"

definition default_flags :: switch_flags where
  "default_flags = \<lparr>cfgs = [], ageing_flag = 300, sock_flag = defaultSock\<rparr>"

definition switch_flag_names :: "string set" where
  "switch_flag_names = {''i'', ''access'', ''trunk'', ''ageing'', ''ctl-sock''}"

definition store_flag :: "string \<Rightarrow> string \<Rightarrow> switch_flags \<Rightarrow> switch_flags option" where
  "store_flag n v s =
     (if n = ''i'' then map_option (\<lambda>c. s\<lparr>cfgs := c\<rparr>) (collector_Set CollectPlain v (cfgs s))
      else if n = ''access'' then map_option (\<lambda>c. s\<lparr>cfgs := c\<rparr>) (collector_Set CollectAccess v (cfgs s))
      else if n = ''trunk'' then map_option (\<lambda>c. s\<lparr>cfgs := c\<rparr>) (collector_Set CollectTrunk v (cfgs s))
      else if n = ''ageing'' then map_option (\<lambda>i. s\<lparr>ageing_flag := i\<rparr>) (ParseInt v)
      else Some (s\<lparr>sock_flag := v\<rparr>))"

definition parse_switch :: "string list \<Rightarrow> flag_error + switch_flags \<times> string list" where
  "parse_switch args = parse_flags switch_flag_names store_flag args default_flags"

text \<open>\<open>time.Duration(n) * time.Second\<close>: the product of two \<open>int64\<close> wraps.\<close>

definition ageing_duration :: "int \<Rightarrow> i64" where
  "ageing_duration n = word_of_int n * 1000000000"

section \<open>Running the switch\<close>

datatype run_error =
    FlagsRejected flag_error
  | NoPortsGiven
  | OpenFailed string
  | EngineRejected engine_error
  | SocketFailed

definition Serve_calls :: "os_oracle \<Rightarrow> string \<Rightarrow> trace \<Rightarrow> bool \<times> trace" where
  "Serve_calls orc sockPath tr =
     (let (_, tr1) = call orc (RemoveFile sockPath) tr;
          (ok, tr2) = call orc (ListenUnix sockPath) tr1
      in if \<not> ok then (False, tr2)
         else let (ok, tr3) = call orc (RegisterName ''Switch'') tr2
              in if \<not> ok then (False, tr3 @ [CloseListener sockPath, RemoveFile sockPath])
                 else (True, tr3))"

definition Stop_calls :: "nat engine \<Rightarrow> trace \<Rightarrow> trace" where
  "Stop_calls eng tr = close_all (map io (ports eng)) tr"

definition run_engine :: "os_oracle \<Rightarrow> switch_flags \<Rightarrow> nat list \<Rightarrow> trace \<Rightarrow> run_error option \<times> trace" where
  "run_engine orc fs ios tr =
     (case NewEngine (cfgs fs) ios of
        Inl err \<Rightarrow> (Some (EngineRejected err), close_all ios tr)
      | Inr eng0 \<Rightarrow>
          (let eng = SetAgeing eng0 (ageing_duration (ageing_flag fs));
               (ok, tr1) = Serve_calls orc (sock_flag fs) tr
           in if \<not> ok then (Some SocketFailed, Stop_calls eng tr1)
              else (None, Stop_calls eng (tr1 @ [CloseListener (sock_flag fs), RemoveFile (sock_flag fs)]))))"

definition runSwitch :: "os_oracle \<Rightarrow> string list \<Rightarrow> trace \<Rightarrow> run_error option \<times> trace" where
  "runSwitch orc args tr =
     (case parse_switch args of
        Inl err \<Rightarrow> (Some (FlagsRejected err), tr)
      | Inr (fs, _) \<Rightarrow>
          (if length (cfgs fs) = 0 then (Some NoPortsGiven, tr)
           else case open_all (OpenInterface orc) (map Name (cfgs fs)) [] tr of
                  (Inl n, tr1) \<Rightarrow> (Some (OpenFailed n), tr1)
                | (Inr ios, tr1) \<Rightarrow> run_engine orc fs ios tr1))"

section \<open>The control command and main\<close>

datatype ctl_action = CtlFlags flag_error | CtlShell string | CtlUsage | CtlShow string string

definition runCtl :: "string list \<Rightarrow> ctl_action" where
  "runCtl args =
     (case parse_flags {''ctl-sock''} (\<lambda>n v s. Some v) args defaultSock of
        Inl err \<Rightarrow> CtlFlags err
      | Inr (sock, rest) \<Rightarrow>
          (if length rest = 0 then CtlShell sock
           else if rest ! 0 \<noteq> ''show'' \<or> length rest < 2 then CtlUsage
           else CtlShow sock (rest ! 1)))"

datatype main_action = MainCtl ctl_action | MainSwitch "string list"

text \<open>\<open>os.Args\<close> begins with the program's name.\<close>

definition main_dispatch :: "string list \<Rightarrow> main_action" where
  "main_dispatch osArgs =
     (if 2 \<le> length osArgs \<and> osArgs ! 1 = ''ctl'' then MainCtl (runCtl (drop 2 osArgs))
      else MainSwitch (drop 1 osArgs))"

section \<open>Lemmas\<close>

lemma parseVID_range: "parseVID s = Some v \<Longrightarrow> 1 \<le> unat v \<and> unat v \<le> 4094"
  by (auto simp: parseVID_def ParseUint_def unat_of_nat split: if_splits)

lemma parseVID_padded:
  assumes "list_all blank w" and "list_all blank w'" and "1 \<le> unat v" and "unat v \<le> 4094"
  shows "parseVID (w @ Itoa (unat v) @ w') = Some v"
  using assms by (simp add: parseVID_def TrimSpace_pad_dec ParseUint_dec)

lemma parseVID_dec: "1 \<le> unat v \<Longrightarrow> unat v \<le> 4094 \<Longrightarrow> parseVID (Itoa (unat v)) = Some v"
  using parseVID_padded [of "[]" "[]" v] by simp

text \<open>The flags that describe a port.\<close>

definition flags_of :: "PortConfig \<Rightarrow> string list" where
  "flags_of c =
     (if Trunk c \<noteq> [] then [''-trunk'', Name c @ '':'' @ Join '','' (map (\<lambda>v. Itoa (unat v)) (Trunk c))]
      else if AccessVID c \<noteq> 0 then [''-access'', Name c @ '':'' @ Itoa (unat (AccessVID c))]
      else [''-i'', Name c])"

definition expressible :: "PortConfig \<Rightarrow> bool" where
  "expressible c \<longleftrightarrow>
     (AccessVID c = 0 \<or> Trunk c = []) \<and>
     (vlan_cfg c \<longrightarrow> Name c \<noteq> [] \<and> CHR '':'' \<notin> set (Name c)) \<and>
     unat (AccessVID c) \<le> 4094 \<and> (\<forall>v \<in> set (Trunk c). 1 \<le> unat v \<and> unat v \<le> 4094)"

lemma Itoa_no_comma: "CHR '','' \<notin> set (Itoa n)"
  using dec_digits [of n] by (auto simp: list_all_iff is_digit_def)

lemma parseVIDs_dec:
  "\<forall>v \<in> set vs. 1 \<le> unat v \<and> unat v \<le> 4094 \<Longrightarrow>
     parseVIDs (map (\<lambda>v. Itoa (unat v)) vs) acc = Some (acc @ vs)"
  by (induction vs arbitrary: acc) (simp_all add: parseVID_dec)

lemma splitNameVIDs_join:
  assumes "n \<noteq> []" and "CHR '':'' \<notin> set n" and "vs \<noteq> []" and "\<forall>v \<in> set vs. 1 \<le> unat v \<and> unat v \<le> 4094"
  shows "splitNameVIDs (n @ '':'' @ Join '','' (map (\<lambda>v. Itoa (unat v)) vs)) = Some (n, vs)"
proof -
  have "Split CHR '','' (Join '','' (map (\<lambda>v. Itoa (unat v)) vs)) = map (\<lambda>v. Itoa (unat v)) vs"
    using assms(3) Itoa_no_comma by (intro Split_Join) auto
  then show ?thesis
    using assms parseVIDs_dec [OF assms(4), of "[]"] by (simp add: splitNameVIDs_def Cut_append)
qed

lemma unat_word_pos: "(v :: u16) \<noteq> 0 \<Longrightarrow> 1 \<le> unat v"
  by (simp add: Suc_le_eq unat_gt_0)

lemma parse_port_flag:
  assumes "expressible c"
  shows "parse_flags switch_flag_names store_flag (flags_of c @ rest) s =
         parse_flags switch_flag_names store_flag rest (s\<lparr>cfgs := cfgs s @ [c]\<rparr>)"
proof -
  have step: "parse_flags switch_flag_names store_flag ((CHR ''-'' # n) # v # rest) s =
      (case store_flag n v s of None \<Rightarrow> Inl (InvalidValue n v) | Some s' \<Rightarrow> parse_flags switch_flag_names store_flag rest s')"
    if "n \<in> {''i'', ''access'', ''trunk''}" for n v
    using that by (intro parse_flags_step) (auto simp: switch_flag_names_def)
  consider (trunk) "Trunk c \<noteq> []" | (access) "Trunk c = []" "AccessVID c \<noteq> 0" | (plain) "Trunk c = []" "AccessVID c = 0"
    by blast
  then show ?thesis
  proof cases
    case trunk
    then have "splitNameVIDs (Name c @ '':'' @ Join '','' (map (\<lambda>v. Itoa (unat v)) (Trunk c))) = Some (Name c, Trunk c)"
      using assms by (intro splitNameVIDs_join) (auto simp: expressible_def vlan_cfg_def)
    moreover have eq: "\<lparr>Name = Name c, AccessVID = 0, Trunk = Trunk c\<rparr> = c"
      using trunk assms by (cases c) (simp add: expressible_def)
    ultimately show ?thesis
      using trunk step [of "''trunk''"]
      by (simp add: flags_of_def store_flag_def collector_Set_def)
  next
    case access
    then have "splitNameVID (Name c @ '':'' @ Itoa (unat (AccessVID c))) = Some (Name c, AccessVID c)"
      using assms unat_word_pos [OF access(2)]
      by (simp add: splitNameVID_def Cut_append parseVID_dec expressible_def vlan_cfg_def)
    moreover have eq: "\<lparr>Name = Name c, AccessVID = AccessVID c, Trunk = []\<rparr> = c"
      using access by (cases c) simp
    ultimately show ?thesis
      using access step [of "''access''"]
      by (simp add: flags_of_def store_flag_def collector_Set_def) (simp only: eq)
  next
    case plain
    have eq: "\<lparr>Name = Name c, AccessVID = 0, Trunk = []\<rparr> = c"
      using plain by (cases c) simp
    show ?thesis
      using plain step [of "''i''"]
      by (simp add: flags_of_def store_flag_def collector_Set_def) (simp only: eq)
  qed
qed

section \<open>What the flags can express\<close>

lemma parse_flags_invariant:
  assumes "\<And>n v s s'. store n v s = Some s' \<Longrightarrow> I s \<Longrightarrow> I s'" and "I s" and "parse_flags names store args s = Inr (s', rest)"
  shows "I s'"
  using assms
proof (induction names store args s rule: parse_flags.induct)
  case (1 names store args s)
  consider "s' = s" | (step) n v r s1 where "parse_one names args = FlagValue n v r" "store n v s = Some s1"
      "parse_flags names store r s1 = Inr (s', rest)"
    using "1.prems"(3) by (subst (asm) parse_flags.simps) (auto split: parsed_flag.splits option.splits)
  then show ?case
  proof cases
    case step
    show ?thesis by (rule "1.IH" [OF step(1,2) "1.prems"(1) "1.prems"(1) [OF step(2) "1.prems"(2)] step(3)])
  qed (use "1.prems"(2) in simp)
qed

lemma Cut_Some_no_sep: "Cut c s = Some (a, b) \<Longrightarrow> c \<notin> set a"
  by (auto simp: Cut_Some_iff)

lemma parseVIDs_all:
  "(\<And>s v. parseVID s = Some v \<Longrightarrow> P v) \<Longrightarrow> parseVIDs ps acc = Some vs \<Longrightarrow> list_all P acc \<Longrightarrow> list_all P vs"
  by (induction ps acc rule: parseVIDs.induct) (auto split: option.splits)

lemma parseVIDs_range: "parseVIDs ps [] = Some vs \<Longrightarrow> \<forall>v \<in> set vs. 1 \<le> unat v \<and> unat v \<le> 4094"
  using parseVIDs_all [of "\<lambda>v. 1 \<le> unat v \<and> unat v \<le> 4094", OF parseVID_range] by (simp add: list_all_iff)

lemma splitNameVID_expressible:
  "splitNameVID s = Some (n, v) \<Longrightarrow> expressible \<lparr>Name = n, AccessVID = v, Trunk = []\<rparr>"
  by (auto simp: splitNameVID_def expressible_def dest: Cut_Some_no_sep dest!: parseVID_range split: option.splits if_splits)

lemma splitNameVIDs_expressible:
  "splitNameVIDs s = Some (n, vs) \<Longrightarrow> expressible \<lparr>Name = n, AccessVID = 0, Trunk = vs\<rparr>"
  by (auto simp: splitNameVIDs_def expressible_def dest: Cut_Some_no_sep dest!: parseVIDs_range split: option.splits if_splits)

lemma collector_Set_expressible:
  "collector_Set r v cs = Some cs' \<Longrightarrow> \<forall>c \<in> set cs. expressible c \<Longrightarrow> \<forall>c \<in> set cs'. expressible c"
  by (auto simp: collector_Set_def splitNameVID_expressible splitNameVIDs_expressible split: collector_role.splits option.splits)
    (simp add: expressible_def vlan_cfg_def)

lemma parse_switch_expressible:
  assumes "parse_switch args = Inr (fs, rest)"
  shows "\<forall>c \<in> set (cfgs fs). expressible c"
proof (rule parse_flags_invariant [OF _ _ assms [unfolded parse_switch_def]])
  show "\<forall>c \<in> set (cfgs s'). expressible c" if "store_flag n v s = Some s'" "\<forall>c \<in> set (cfgs s). expressible c" for n v s s'
    using that by (auto simp: store_flag_def split: if_splits dest!: collector_Set_expressible)
qed (simp add: default_flags_def)

lemma add_ports_mixed:
  "add_ports i seen v p ps xs = Inl (AccessAndTrunk n) \<Longrightarrow> \<exists>c \<in> fst ` set xs. AccessVID c \<noteq> 0 \<and> Trunk c \<noteq> []"
  by (induction i seen v p ps xs rule: add_ports.induct) (auto simp: Let_def split: if_splits)

lemma NewEngine_mixed:
  assumes "NewEngine cs ios = Inl (AccessAndTrunk n)"
  shows "\<exists>c \<in> set cs. AccessVID c \<noteq> 0 \<and> Trunk c \<noteq> []"
proof -
  have "\<exists>c \<in> fst ` set (zip cs ios). AccessVID c \<noteq> 0 \<and> Trunk c \<noteq> []"
    using assms by (intro add_ports_mixed) (auto simp: NewEngine_def Let_def split: if_splits sum.splits prod.splits)
  then show ?thesis by (auto dest: set_zip_leftD)
qed

section \<open>Handles of a run\<close>

lemma io_ports_from: "map io (ports_from i (zip cs hs)) = take (length cs) hs"
proof (induction cs arbitrary: i hs)
  case (Cons c cs)
  then show ?case by (cases hs) simp_all
qed simp

lemma Serve_calls_handles:
  "Serve_calls orc p tr = (ok, tr') \<Longrightarrow> opened orc tr' = opened orc tr \<and> closed_by tr' = closed_by tr"
  by (auto simp: Serve_calls_def call_def Let_def opened_append split: if_splits)

lemma run_engine_handles:
  assumes "run_engine orc fs ios tr = (r, tr')"
  shows "opened orc tr' = opened orc tr \<and> closed_by tr' = closed_by tr @ ios"
proof (cases "NewEngine (cfgs fs) ios")
  case (Inl err)
  then show ?thesis using assms by (auto simp: run_engine_def)
next
  case (Inr e)
  then have "map io (ports e) = ios"
    by (auto simp: NewEngine_Inr_iff built_def io_ports_from)
  moreover obtain ok tr1 where s: "Serve_calls orc (sock_flag fs) tr = (ok, tr1)" by fastforce
  ultimately show ?thesis
    using assms Inr Serve_calls_handles [OF s]
    by (auto simp: run_engine_def Let_def s Stop_calls_def SetAgeing_def opened_append split: if_splits)
qed

section \<open>Properties\<close>

text \<open>
  C32: The port flags keep their order and their meaning. Every configuration whose VLANs are valid
  and whose names have no colon can be written as flags, and parsing the flags, whatever mixture of
  -i, -access and -trunk they are, gives back exactly that configuration in command-line order.
\<close>
theorem port_flags_roundtrip:
  assumes "\<forall>c \<in> set cs. expressible c"
  shows "parse_switch (concat (map flags_of cs)) = Inr (default_flags\<lparr>cfgs := cs\<rparr>, [])"
proof -
  have "parse_flags switch_flag_names store_flag (concat (map flags_of cs)) s = Inr (s\<lparr>cfgs := cfgs s @ cs\<rparr>, [])" for s
    using assms by (induction cs arbitrary: s) (simp_all add: parse_port_flag)
  then show ?thesis by (simp add: parse_switch_def default_flags_def)
qed

theorem port_flags_roundtrip_witness:
  "parse_switch [''-access'', ''eth0:10'', ''-trunk'', ''eth1:10,20''] =
     Inr (default_flags\<lparr>cfgs := [\<lparr>Name = ''eth0'', AccessVID = 10, Trunk = []\<rparr>,
                                \<lparr>Name = ''eth1'', AccessVID = 0, Trunk = [10, 20]\<rparr>]\<rparr>, [])"
proof -
  let ?cs = "[\<lparr>Name = ''eth0'', AccessVID = 10, Trunk = []\<rparr>, \<lparr>Name = ''eth1'', AccessVID = 0, Trunk = [10, 20]\<rparr>] :: PortConfig list"
  have flags: "concat (map flags_of ?cs) = [''-access'', ''eth0:10'', ''-trunk'', ''eth1:10,20'']" by code_simp
  have "\<forall>c \<in> set ?cs. expressible c" by (auto simp: expressible_def)
  from port_flags_roundtrip [OF this] show ?thesis unfolding flags .
qed

text \<open>
  C31: The port flags are well typed. Whatever the arguments, every port configuration that parsing
  accepts has VLAN numbers from 1 to 4094 only, is not access and trunk at once, and names its
  interface when it is in a VLAN; so the engine never rejects it for mixing access and trunk, and
  the VLANs of a VLAN-aware engine built from it fit the 12 bits of a tag.
\<close>
theorem parsed_configs_typed:
  assumes "parse_switch args = Inr (fs, rest)"
  shows "(\<forall>c \<in> set (cfgs fs). expressible c) \<and> NewEngine (cfgs fs) ios \<noteq> Inl (AccessAndTrunk n) \<and>
         (NewEngine (cfgs fs) ios = Inr e \<and> vlanAware e \<and> in_vlan e v j \<longrightarrow> 1 \<le> unat v \<and> unat v \<le> 4094)"
proof (intro conjI impI)
  note ok = parse_switch_expressible [OF assms]
  show "\<forall>c \<in> set (cfgs fs). expressible c" by (rule ok)
  show "NewEngine (cfgs fs) ios \<noteq> Inl (AccessAndTrunk n)" using NewEngine_mixed [of "cfgs fs" ios n] ok by (auto simp: expressible_def)
  assume "NewEngine (cfgs fs) ios = Inr e \<and> vlanAware e \<and> in_vlan e v j"
  then have e: "NewEngine (cfgs fs) ios = Inr e" "vlanAware e" "in_vlan e v j" by blast+
  then have b: "e = built (cfgs fs) ios" "length (cfgs fs) = length ios" "acceptable (cfgs fs)" by (auto simp: NewEngine_Inr_iff)
  then have "length (ports e) = length (cfgs fs)" by (simp add: built_def)
  then have j: "j < length (cfgs fs)" using e(3) by (simp add: in_vlan_def)
  have "role (ports e ! j) \<noteq> rolePlain"
    using engine_wf_role [OF engine_wf_built [OF b(2,3)], of j] e(2) j b \<open>length (ports e) = _\<close> by simp
  moreover have "ports e ! j = make_port j (cfgs fs ! j) (ios ! j)" using b j by (simp add: built_def nth_ports_from)
  moreover have "expressible (cfgs fs ! j)" using ok j by simp
  ultimately show "1 \<le> unat v" "unat v \<le> 4094"
    using e(3) unat_word_pos [of "AccessVID (cfgs fs ! j)"]
    by (auto simp: in_vlan_def vlan_member_def make_port_def Let_def allowed_def roleOf_iffs expressible_def
        split: portRole.splits if_splits)
qed

theorem parsed_configs_typed_witness:
  "\<exists>fs. parse_switch [''-access'', ''eth0:10''] = Inr (fs, []) \<and> (\<forall>c \<in> set (cfgs fs). expressible c) \<and>
     map AccessVID (cfgs fs) = [10]"
proof -
  let ?c = "\<lparr>Name = ''eth0'', AccessVID = 10, Trunk = []\<rparr> :: PortConfig"
  have c: "expressible ?c" by (simp add: expressible_def)
  have "flags_of ?c = [''-access'', ''eth0:10'']" by code_simp
  then have fs: "parse_switch [''-access'', ''eth0:10''] = Inr (default_flags\<lparr>cfgs := [?c]\<rparr>, [])"
    using parse_port_flag [OF c, of "[]" default_flags] by (simp add: parse_switch_def default_flags_def)
  then show ?thesis using parsed_configs_typed [OF fs, of "[]" "[]" undefined 0 0] by auto
qed

text \<open>
  VLAN numbers on the command line. What parseVID accepts is a number from 1 to 4094, and it
  accepts every such number in decimal with white space around it.
\<close>
theorem parseVID_exact:
  shows "(parseVID s = Some v \<longrightarrow> 1 \<le> unat v \<and> unat v \<le> 4094) \<and>
         (list_all blank w \<and> list_all blank w' \<and> 1 \<le> unat v \<and> unat v \<le> 4094 \<longrightarrow>
            parseVID (w @ Itoa (unat v) @ w') = Some v)"
  using parseVID_range parseVID_padded by blast

theorem parseVID_exact_witness:
  "parseVID ('' '' @ Itoa (unat (10 :: u16)) @ '' '') = Some 10"
  using parseVID_exact [of "[]" 10 "'' ''" "'' ''"] by (simp add: blank_def)

text \<open>
  C33: A run leaves no packet socket behind. Whatever the system answers, however runSwitch returns
  (bad flags, a port that cannot be opened or filtered, a rejected configuration, no control
  socket, or a normal shutdown), every packet socket it opened has been closed exactly once.
\<close>
theorem runSwitch_closes_every_handle:
  "distinct (opened orc (snd (runSwitch orc args []))) \<and>
   mset (closed_by (snd (runSwitch orc args []))) = mset (opened orc (snd (runSwitch orc args [])))"
proof
  show "distinct (opened orc (snd (runSwitch orc args [])))" by (simp add: opened_def)
  show "mset (closed_by (snd (runSwitch orc args []))) = mset (opened orc (snd (runSwitch orc args [])))"
  proof (cases "parse_switch args")
    case (Inr p)
    obtain fs rest where p: "p = (fs, rest)" by (cases p)
    obtain r tr1 where o: "open_all (OpenInterface orc) (map Name (cfgs fs)) [] [] = (r, tr1)" by fastforce
    show ?thesis
    proof (cases r)
      case (Inl n)
      with cli_opener.open_all_fail [of orc "map Name (cfgs fs)" "[]" "[]" n tr1] o Inr p show ?thesis
        by (auto simp: runSwitch_def)
    next
      case (Inr ios)
      then have io: "opened orc tr1 = ios" "closed_by tr1 = []"
        using cli_opener.open_all_ok [of orc "map Name (cfgs fs)" "[]" "[]" ios tr1] o by simp_all
      obtain e tr2 where e: "run_engine orc fs ios tr1 = (e, tr2)" by fastforce
      from run_engine_handles [OF this] io Inr o p \<open>parse_switch args = Inr p\<close> e show ?thesis
        by (simp add: runSwitch_def)
    qed
  qed (simp add: runSwitch_def)
qed

text \<open>A number as it is written on the command line.\<close>

definition show_int :: "int \<Rightarrow> string" where
  "show_int n = (if n < 0 then CHR ''-'' # Itoa (nat (- n)) else Itoa (nat n))"

lemma ParseInt_show: "- (2 ^ 63) \<le> n \<Longrightarrow> n < 2 ^ 63 \<Longrightarrow> ParseInt (show_int n) = Some n"
  using ParseInt_neg [of "nat (- n)"] ParseInt_dec [of "nat n"] by (auto simp: show_int_def nat_less_iff)

lemma sint_ageing_duration: "sint (ageing_duration n) = signed_take_bit 63 (n * 1000000000)"
proof -
  have "ageing_duration n = word_of_int (n * 1000000000)" by (simp add: ageing_duration_def)
  then show ?thesis by (simp only: sint_sbintrunc') simp
qed

text \<open>
  C34: The ageing flag, for every number of seconds that fits 64 bits. None is rejected; the engine
  gets the product with a thousand million reduced to a signed 64-bit number. That is the duration
  asked for exactly when the number lies between -9223372036 and 9223372036; so a negative number
  in that range gives a negative duration, and so does 9223372037.
\<close>
theorem ageing_flag_range:
  assumes "- (2 ^ 63) \<le> n" and "n < 2 ^ 63"
  shows "\<exists>fs. parse_switch [''-ageing'', show_int n] = Inr (fs, []) \<and>
     (let d = ageing (fdb (SetAgeing e (ageing_duration (ageing_flag fs))))
      in sint d = (n * 1000000000 + 2 ^ 63) mod 2 ^ 64 - 2 ^ 63 \<and>
         (sint d = n * 1000000000 \<longleftrightarrow> -9223372036 \<le> n \<and> n \<le> 9223372036) \<and>
         (-9223372036 \<le> n \<and> n < 0 \<or> n = 9223372037 \<longrightarrow> sint d < 0))"
proof (intro exI conjI)
  show "parse_switch [''-ageing'', show_int n] = Inr (default_flags\<lparr>ageing_flag := n\<rparr>, [])"
    unfolding parse_switch_def
    by (subst parse_flags_step) (simp_all add: switch_flag_names_def store_flag_def ParseInt_show [OF assms])
  have d: "ageing (fdb (SetAgeing e (ageing_duration (ageing_flag (default_flags\<lparr>ageing_flag := n\<rparr>))))) = ageing_duration n"
    by (simp add: SetAgeing_def set_ageing_def)
  have "sint (ageing_duration n) = (n * 1000000000 + 2 ^ 63) mod 2 ^ 64 - 2 ^ 63"
    by (simp add: sint_ageing_duration signed_take_bit_eq_take_bit_shift take_bit_eq_mod)
  moreover have eq: "sint (ageing_duration n) = n * 1000000000 \<longleftrightarrow> -9223372036 \<le> n \<and> n \<le> 9223372036"
    by (simp add: sint_ageing_duration signed_take_bit_int_eq_self_iff) arith
  moreover have "sint (ageing_duration n) < 0" if "-9223372036 \<le> n \<and> n < 0 \<or> n = 9223372037"
  proof (cases "n < 0")
    case True
    then have "sint (ageing_duration n) = n * 1000000000" using that eq by simp
    with True show ?thesis by simp
  qed (use that in \<open>simp add: sint_ageing_duration\<close>)
  ultimately show "let d = ageing (fdb (SetAgeing e (ageing_duration (ageing_flag (default_flags\<lparr>ageing_flag := n\<rparr>)))))
      in sint d = (n * 1000000000 + 2 ^ 63) mod 2 ^ 64 - 2 ^ 63 \<and>
         (sint d = n * 1000000000 \<longleftrightarrow> -9223372036 \<le> n \<and> n \<le> 9223372036) \<and>
         (-9223372036 \<le> n \<and> n < 0 \<or> n = 9223372037 \<longrightarrow> sint d < 0)"
    unfolding d Let_def by blast
qed

theorem ageing_flag_range_witness:
  "\<forall>e :: nat engine. \<exists>fs. parse_switch [''-ageing'', ''-5''] = Inr (fs, []) \<and>
     sint (ageing (fdb (SetAgeing e (ageing_duration (ageing_flag fs))))) = - 5000000000"
proof
  fix e :: "nat engine"
  have "show_int (- 5) = ''-5''" by code_simp
  with ageing_flag_range [of "- 5" e] show "\<exists>fs. parse_switch [''-ageing'', ''-5''] = Inr (fs, []) \<and>
     sint (ageing (fdb (SetAgeing e (ageing_duration (ageing_flag fs))))) = - 5000000000" by (auto simp: Let_def)
qed

end
