(* ===== verification/Topology.thy ===== *)
theory Topology
  imports Cmd Stats Forwarding
begin

text \<open>
  The test harness, part one: \<open>internal/harness/topology.go\<close> and \<open>switch.go\<close>. A topology is a list of
  hosts, each with its namespace and its end of a cable to the switch; Setup and Teardown are sequences
  of commands. A switch under test is either the Go engine on sockets inside the switch's namespace
  (\<open>GoSwitch\<close>) or the Linux bridge configured with commands (\<open>BridgeSwitch\<close>), the reference. A failed
  command ends Setup through \<open>t.Fatalf\<close>; here it ends the run with \<open>False\<close>.
\<close>

section \<open>Ports and hosts\<close>

record Port =
  SwIf :: string
  port_AccessVID :: u16
  port_Trunk :: "u16 list"

record HostSpec =
  spec_IP :: string
  spec_AccessVID :: u16
  spec_Trunk :: "u16 list"

record Host =
  Idx :: nat
  NS :: string
  IfName :: string
  host_MAC :: mac
  IP :: string
  host_SwIf :: string
  host_AccessVID :: u16
  host_Trunk :: "u16 list"

record Topology =
  prefix :: string
  SwNS :: string
  Hosts :: "Host list"

definition port_vlanAware :: "Port \<Rightarrow> bool" where
  "port_vlanAware p \<longleftrightarrow> port_AccessVID p \<noteq> 0 \<or> 0 < length (port_Trunk p)"

definition topo_prefix :: "nat \<Rightarrow> nat \<Rightarrow> string" where
  "topo_prefix pid sq = ''vs'' @ Itoa (pid mod 1000) @ ''x'' @ Itoa sq"

definition new_host :: "string \<Rightarrow> nat \<Rightarrow> HostSpec \<Rightarrow> Host" where
  "new_host pre i s =
     (let idx = i + 1
      in \<lparr>Idx = idx, NS = pre @ ''h'' @ Itoa idx, IfName = ''eth0'', host_MAC = [2, 0, 0, 0, 0, of_nat idx],
          IP = spec_IP s, host_SwIf = pre @ ''s'' @ Itoa idx, host_AccessVID = spec_AccessVID s,
          host_Trunk = spec_Trunk s\<rparr>)"

definition NewTopology :: "nat \<Rightarrow> nat \<Rightarrow> HostSpec list \<Rightarrow> Topology" where
  "NewTopology pid sq specs =
     (let pre = topo_prefix pid sq
      in \<lparr>prefix = pre, SwNS = pre @ ''sw'', Hosts = map (\<lambda>(i, s). new_host pre i s) (enumerate 0 specs)\<rparr>)"

text \<open>\<open>Topology.Host\<close>: the first host of that index; \<open>None\<close> is the test failing.\<close>

definition find_host :: "Topology \<Rightarrow> nat \<Rightarrow> Host option" where
  "find_host topo i = List.find (\<lambda>h. Idx h = i) (Hosts topo)"

definition topo_MAC :: "Topology \<Rightarrow> nat \<Rightarrow> mac option" where
  "topo_MAC topo i = map_option host_MAC (find_host topo i)"

section \<open>Commands\<close>

definition ip_cmd :: "string list \<Rightarrow> string list" where
  "ip_cmd args = ''ip'' # args"

definition ns_cmd :: "string \<Rightarrow> string \<Rightarrow> string list \<Rightarrow> string list" where
  "ns_cmd ns n args = [''ip'', ''netns'', ''exec'', ns, n] @ args"

text \<open>Run commands until one fails.\<close>

fun run_cmds :: "os_oracle \<Rightarrow> string list list \<Rightarrow> trace \<Rightarrow> bool \<times> trace" where
  "run_cmds orc [] tr = (True, tr)"
| "run_cmds orc (c # cs) tr =
     (case call orc (Exec c) tr of (ok, tr1) \<Rightarrow> if \<not> ok then (False, tr1) else run_cmds orc cs tr1)"

definition host_cmds :: "Topology \<Rightarrow> Host \<Rightarrow> string list list" where
  "host_cmds topo h =
     (let hostTmp = prefix topo @ ''p'' @ Itoa (Idx h)
      in [ip_cmd [''netns'', ''add'', NS h],
          ip_cmd [''link'', ''add'', host_SwIf h, ''type'', ''veth'', ''peer'', ''name'', hostTmp],
          ip_cmd [''link'', ''set'', host_SwIf h, ''netns'', SwNS topo],
          ip_cmd [''link'', ''set'', hostTmp, ''netns'', NS h],
          ns_cmd (NS h) ''ip'' [''link'', ''set'', hostTmp, ''name'', IfName h],
          ns_cmd (NS h) ''ip'' [''link'', ''set'', IfName h, ''address'', mac_String (host_MAC h)],
          ns_cmd (NS h) ''sysctl'' [''-q'', ''-w'', ''net.ipv6.conf.'' @ IfName h @ ''.disable_ipv6=1'']] @
         (if IP h \<noteq> [] then [ns_cmd (NS h) ''ip'' [''addr'', ''add'', IP h @ ''/24'', ''dev'', IfName h]] else []) @
         [ns_cmd (NS h) ''ip'' [''link'', ''set'', IfName h, ''up''],
          ns_cmd (NS h) ''ip'' [''link'', ''set'', IfName h, ''promisc'', ''on''],
          ns_cmd (SwNS topo) ''sysctl'' [''-q'', ''-w'', ''net.ipv6.conf.'' @ host_SwIf h @ ''.disable_ipv6=1''],
          ns_cmd (SwNS topo) ''ip'' [''link'', ''set'', host_SwIf h, ''up'']])"

definition topo_ports :: "Topology \<Rightarrow> Port list" where
  "topo_ports topo =
     map (\<lambda>h. \<lparr>SwIf = host_SwIf h, port_AccessVID = host_AccessVID h, port_Trunk = host_Trunk h\<rparr>) (Hosts topo)"

definition Setup_cmds :: "Topology \<Rightarrow> string list list" where
  "Setup_cmds topo = ip_cmd [''netns'', ''add'', SwNS topo] # concat (map (host_cmds topo) (Hosts topo))"

text \<open>Setup: the commands, then the switch's own Start on the ports.\<close>

definition Setup ::
  "os_oracle \<Rightarrow> (string \<Rightarrow> Port list \<Rightarrow> trace \<Rightarrow> bool \<times> trace) \<Rightarrow> Topology \<Rightarrow> trace \<Rightarrow> bool \<times> trace" where
  "Setup orc start topo tr =
     (case run_cmds orc (Setup_cmds topo) tr of
        (False, tr1) \<Rightarrow> (False, tr1)
      | (True, tr1) \<Rightarrow> start (SwNS topo) (topo_ports topo) tr1)"

definition Teardown_calls :: "Topology \<Rightarrow> trace \<Rightarrow> trace" where
  "Teardown_calls topo tr =
     tr @ map (\<lambda>h. Exec (ip_cmd [''netns'', ''del'', NS h])) (Hosts topo) @ [Exec (ip_cmd [''netns'', ''del'', SwNS topo])]"

definition Ping_cmd :: "Topology \<Rightarrow> nat \<Rightarrow> string \<Rightarrow> string list option" where
  "Ping_cmd topo i toIP =
     map_option (\<lambda>h. ip_cmd [''netns'', ''exec'', NS h, ''ping'', ''-c'', ''1'', ''-W'', ''1'', toIP]) (find_host topo i)"

section \<open>The switch under test\<close>

datatype sut = BridgeSwitchSUT | GoSwitchSUT

text \<open>The choice by the environment variable \<open>SWITCH\<close>; any other value panics.\<close>

definition NewSwitchUnderTest :: "string \<Rightarrow> sut option" where
  "NewSwitchUnderTest s =
     (if s = [] \<or> s = ''bridge'' then Some BridgeSwitchSUT
      else if s = ''goswitch'' then Some GoSwitchSUT else None)"

text \<open>The adapter of the engine. Its state is the engine, once started.\<close>

definition port_config :: "Port \<Rightarrow> PortConfig" where
  "port_config p = \<lparr>Name = SwIf p, AccessVID = port_AccessVID p, Trunk = port_Trunk p\<rparr>"

definition GoSwitch_Start ::
  "os_oracle \<Rightarrow> string \<Rightarrow> Port list \<Rightarrow> trace \<Rightarrow> nat engine option \<times> trace" where
  "GoSwitch_Start orc swNS ps tr =
     (case open_all (open_switch_port orc swNS) (map SwIf ps) [] tr of
        (Inl n, tr1) \<Rightarrow> (None, tr1)
      | (Inr ios, tr1) \<Rightarrow>
          (case NewEngine (map port_config ps) ios of
             Inl err \<Rightarrow> (None, close_all ios tr1)
           | Inr eng \<Rightarrow> (Some eng, tr1)))"

definition GoSwitch_Stop :: "nat engine option \<Rightarrow> trace \<Rightarrow> trace" where
  "GoSwitch_Stop eng tr = (case eng of None \<Rightarrow> tr | Some e \<Rightarrow> Stop_calls e tr)"

definition GoSwitch_SetAgeing :: "nat engine option \<Rightarrow> i64 \<Rightarrow> nat engine option" where
  "GoSwitch_SetAgeing eng d = map_option (\<lambda>e. SetAgeing e d) eng"

text \<open>The reference: the commands of \<open>BridgeSwitch.Start\<close>.\<close>

definition bridge_vlan_cmds :: "string \<Rightarrow> Port \<Rightarrow> string list list" where
  "bridge_vlan_cmds swNS p =
     (if 0 < length (port_Trunk p) then
        map (\<lambda>vid. ns_cmd swNS ''bridge'' [''vlan'', ''add'', ''dev'', SwIf p, ''vid'', Itoa (unat vid)]) (port_Trunk p)
      else if port_AccessVID p \<noteq> 0 then
        [ns_cmd swNS ''bridge'' [''vlan'', ''add'', ''dev'', SwIf p, ''vid'', Itoa (unat (port_AccessVID p)), ''pvid'', ''untagged'']]
      else [])"

definition bridge_port_cmds :: "string \<Rightarrow> bool \<Rightarrow> Port \<Rightarrow> string list list" where
  "bridge_port_cmds swNS aware p =
     [ns_cmd swNS ''ip'' [''link'', ''set'', SwIf p, ''master'', ''br0''],
      ns_cmd swNS ''ip'' [''link'', ''set'', SwIf p, ''up'']] @
     (if \<not> aware then [] else bridge_vlan_cmds swNS p)"

definition bridge_cmds :: "string \<Rightarrow> Port list \<Rightarrow> string list list" where
  "bridge_cmds swNS ps =
     (let aware = list_ex port_vlanAware ps
      in ns_cmd swNS ''ip'' ([''link'', ''add'', ''br0'', ''type'', ''bridge''] @
           (if aware then [''vlan_filtering'', ''1'', ''vlan_default_pvid'', ''0''] else [])) #
         ns_cmd swNS ''ip'' [''link'', ''set'', ''br0'', ''up''] #
         concat (map (bridge_port_cmds swNS aware) ps))"

definition BridgeSwitch_Start :: "os_oracle \<Rightarrow> string \<Rightarrow> Port list \<Rightarrow> trace \<Rightarrow> bool \<times> trace" where
  "BridgeSwitch_Start orc swNS ps tr = run_cmds orc (bridge_cmds swNS ps) tr"

definition BridgeSwitch_Stop :: "string \<Rightarrow> trace \<Rightarrow> trace" where
  "BridgeSwitch_Stop swNS tr = (if swNS = [] then tr else tr @ [Exec (ns_cmd swNS ''ip'' [''link'', ''del'', ''br0''])])"

text \<open>\<open>int64(d / (10 * time.Millisecond))\<close> truncates towards zero; the result is at least 1.\<close>

definition centiseconds :: "int \<Rightarrow> nat" where
  "centiseconds d =
     (let c = (if d < 0 then - ((- d) div 10000000) else d div 10000000) in if c < 1 then 1 else nat c)"

definition BridgeSwitch_SetAgeing_cmd :: "string \<Rightarrow> int \<Rightarrow> string list" where
  "BridgeSwitch_SetAgeing_cmd swNS d =
     ns_cmd swNS ''ip'' [''link'', ''set'', ''br0'', ''type'', ''bridge'', ''ageing_time'', Itoa (centiseconds d)]"

section \<open>What the bridge is told\<close>

text \<open>A \<open>bridge vlan add\<close> command read back: device, VLAN and flags.\<close>

definition vlan_add :: "string list \<Rightarrow> (string \<times> string \<times> string list) option" where
  "vlan_add c =
     (if take 3 (drop 4 c) = [''bridge'', ''vlan'', ''add''] then Some (c ! 8, c ! 10, drop 11 c) else None)"

lemma vlan_add_ip [simp]: "vlan_add (ns_cmd ns ''ip'' args) = None"
  by (simp add: vlan_add_def ns_cmd_def)

lemma vlan_add_bridge [simp]:
  "vlan_add (ns_cmd ns ''bridge'' (''vlan'' # ''add'' # ''dev'' # d # ''vid'' # v # flg)) = Some (d, v, flg)"
  by (simp add: vlan_add_def ns_cmd_def)

lemma vlan_adds_of_port:
  "Some a \<in> vlan_add ` set (bridge_vlan_cmds ns p) \<longleftrightarrow>
     (\<exists>v \<in> set (port_Trunk p). a = (SwIf p, Itoa (unat v), [])) \<or>
     port_Trunk p = [] \<and> port_AccessVID p \<noteq> 0 \<and> a = (SwIf p, Itoa (unat (port_AccessVID p)), [''pvid'', ''untagged''])"
  by (auto simp: bridge_vlan_cmds_def image_iff)

lemma vlan_adds_of_ports:
  "Some a \<in> vlan_add ` set (bridge_cmds ns ps) \<longleftrightarrow>
     list_ex port_vlanAware ps \<and> (\<exists>p \<in> set ps. Some a \<in> vlan_add ` set (bridge_vlan_cmds ns p))"
  unfolding bridge_cmds_def bridge_port_cmds_def Let_def
  by (auto simp: image_Un image_iff)

lemma built_port:
  assumes "NewEngine (map port_config ps) ios = Inr e" and "i < length ps"
  shows "ports e ! i = make_port i (port_config (ps ! i)) (ios ! i)" and "length (ports e) = length ps"
  using assms by (auto simp: NewEngine_Inr_iff built_def nth_ports_from)

lemma built_vlanAware:
  "NewEngine (map port_config ps) ios = Inr e \<Longrightarrow> vlanAware e = list_ex port_vlanAware ps"
  by (auto simp: NewEngine_Inr_iff built_def list_ex_iff vlan_cfg_def port_config_def port_vlanAware_def)

lemma unat_u16_inj: "unat (v :: u16) = unat w \<longleftrightarrow> v = w"
  by (simp add: word_unat_eq_iff)

section \<open>Names\<close>

lemma Hosts_new:
  "Hosts (NewTopology pid sq specs) = map (\<lambda>i. new_host (topo_prefix pid sq) i (specs ! i)) [0..<length specs]"
  by (rule nth_equalityI) (simp_all add: NewTopology_def Let_def nth_enumerate_eq)

lemma new_host_sel [simp]:
  "Idx (new_host pre i s) = i + 1" "host_SwIf (new_host pre i s) = pre @ ''s'' @ Itoa (i + 1)"
  "NS (new_host pre i s) = pre @ ''h'' @ Itoa (i + 1)" "host_MAC (new_host pre i s) = [2, 0, 0, 0, 0, of_nat (i + 1)]"
  by (simp_all add: new_host_def Let_def)

lemma length_topo_prefix: "sq < 100000 \<Longrightarrow> length (topo_prefix pid sq) \<le> 11"
  using length_dec [of "pid mod 1000" 2] length_dec [of sq 4] by (simp add: topo_prefix_def)

lemma find_host_new:
  assumes "1 \<le> i" and "i \<le> length specs"
  shows "find_host (NewTopology pid sq specs) i = Some (new_host (topo_prefix pid sq) (i - 1) (specs ! (i - 1)))"
proof -
  have "List.find (\<lambda>h. Idx h = i) (map (\<lambda>j. new_host pre j (specs ! j)) [a..<length specs]) =
      Some (new_host pre (i - 1) (specs ! (i - 1)))" if "a < i" for a pre
    using that assms(2)
  proof (induction "i - a" arbitrary: a)
    case (Suc n)
    show ?case
    proof (cases "i = a + 1")
      case True
      with Suc.prems show ?thesis by (simp add: upt_conv_Cons)
    next
      case False
      with Suc.prems Suc.hyps(1) [of "Suc a"] Suc.hyps(2) show ?thesis by (simp add: upt_conv_Cons)
    qed
  qed simp
  from this [of 0] show ?thesis using assms by (simp add: find_host_def Hosts_new)
qed

section \<open>Properties\<close>

text \<open>
  C35: The reference switch is configured like the engine. For ports from which NewEngine builds an
  engine, the bridge is told to carry a VLAN on a device exactly when the engine's port for that
  device is a member of the VLAN, tagged on trunk ports and as untagged port VLAN on access ports;
  and it is told nothing when the engine is not VLAN-aware.
\<close>
theorem reference_switch_same_vlans:
  assumes built: "NewEngine (map port_config ps) ios = Inr e" and i: "i < length ps"
  shows "Some (SwIf (ps ! i), Itoa (unat v), flags) \<in> vlan_add ` set (bridge_cmds swNS ps) \<longleftrightarrow>
     vlanAware e \<and> in_vlan e v i \<and>
     flags = (if role (ports e ! i) = roleTrunk then [] else [''pvid'', ''untagged''])"
proof -
  have dist: "distinct (map SwIf ps)"
    using built by (auto simp: NewEngine_Inr_iff acceptable_def cfg_ok_def port_config_def comp_def)
  have ok: "port_AccessVID (ps ! i) = 0 \<or> port_Trunk (ps ! i) = []"
    using built i nth_mem [OF i] by (auto simp: NewEngine_Inr_iff acceptable_def cfg_ok_def port_config_def)
  have same: "p = ps ! i" if "p \<in> set ps" "SwIf p = SwIf (ps ! i)" for p
    using that dist i by (metis distinct_map inj_onD nth_mem)
  have adds: "Some (SwIf (ps ! i), Itoa (unat v), flags) \<in> vlan_add ` set (bridge_cmds swNS ps) \<longleftrightarrow>
      vlanAware e \<and> Some (SwIf (ps ! i), Itoa (unat v), flags) \<in> vlan_add ` set (bridge_vlan_cmds swNS (ps ! i))"
    unfolding vlan_adds_of_ports built_vlanAware [OF built]
    using nth_mem [OF i] by (auto simp: vlan_adds_of_port dest: same)
  have aware: "vlanAware e \<Longrightarrow> role (ports e ! i) \<noteq> rolePlain"
    using engine_wf_role [of e i] built i built_port(2) [OF built i]
    by (auto simp: NewEngine_Inr_iff engine_wf_built)
  note port = built_port [OF built i]
  have mem: "in_vlan e v i \<longleftrightarrow> vlan_member (ports e ! i) v" using i port by (simp add: in_vlan_def)
  show ?thesis
  proof (cases "vlanAware e")
    case True
    with aware ok show ?thesis
      unfolding adds vlan_adds_of_port mem
      by (auto simp: port vlan_member_def make_port_def Let_def port_config_def roleOf_iffs allowed_def unat_u16_inj
          split: portRole.splits if_splits)
  qed (simp add: adds)
qed

definition two_ports :: "Port list" where
  "two_ports = [\<lparr>SwIf = ''s1'', port_AccessVID = 0, port_Trunk = [10, 20]\<rparr>,
                \<lparr>SwIf = ''s2'', port_AccessVID = 10, port_Trunk = []\<rparr>]"

theorem reference_switch_same_vlans_witness:
  "\<exists>e. NewEngine (map port_config two_ports) [0 :: nat, 1] = Inr e \<and>
     Some (''s1'', Itoa (unat (20 :: u16)), []) \<in> vlan_add ` set (bridge_cmds ''sw'' two_ports) \<and> in_vlan e 20 0"
proof -
  have ok: "acceptable (map port_config two_ports)" by code_simp
  have e: "NewEngine (map port_config two_ports) [0 :: nat, 1] = Inr (built (map port_config two_ports) [0, 1])"
    unfolding NewEngine_Inr_iff using ok by (simp add: two_ports_def)
  have "in_vlan (built (map port_config two_ports) [0 :: nat, 1]) 20 0"
    "role (ports (built (map port_config two_ports) [0 :: nat, 1]) ! 0) = roleTrunk"
    "vlanAware (built (map port_config two_ports) [0 :: nat, 1])" by code_simp+
  then show ?thesis
    using reference_switch_same_vlans [OF e, of 0 20 "[]" "''sw''"] e by (simp add: two_ports_def)
qed

text \<open>
  A harness switch leaves no socket behind. If GoSwitch.Start fails, at whatever port or because
  the engine rejects the configuration, every socket it opened has been closed exactly once; if it
  succeeds none has been closed, the engine's ports hold exactly the opened ones, and Stop closes
  each exactly once.
\<close>
theorem GoSwitch_owns_its_handles:
  assumes "GoSwitch_Start orc swNS ps [] = (r, tr)"
  shows "(r = None \<longrightarrow> mset (closed_by tr) = mset (opened orc tr)) \<and>
         (\<forall>e. r = Some e \<longrightarrow> closed_by tr = [] \<and> map io (ports e) = opened orc tr \<and> length (ports e) = length ps) \<and>
         mset (closed_by (GoSwitch_Stop r tr)) = mset (opened orc (GoSwitch_Stop r tr))"
proof -
  obtain q tr1 where o: "open_all (open_switch_port orc swNS) (map SwIf ps) [] [] = (q, tr1)" by fastforce
  show ?thesis
  proof (cases q)
    case (Inl n)
    with harness_opener.open_all_fail [of orc swNS "map SwIf ps" "[]" "[]" n tr1] o assms show ?thesis
      by (auto simp: GoSwitch_Start_def GoSwitch_Stop_def)
  next
    case (Inr ios)
    then have io: "opened orc tr1 = ios" "closed_by tr1 = []" "length ios = length ps"
      using harness_opener.open_all_ok [of orc swNS "map SwIf ps" "[]" "[]" ios tr1] o by simp_all
    show ?thesis
    proof (cases "NewEngine (map port_config ps) ios")
      case (Inl err)
      with o Inr io assms show ?thesis by (auto simp: GoSwitch_Start_def GoSwitch_Stop_def)
    next
      case (Inr e)
      then have "map io (ports e) = ios" "length (ports e) = length ps"
        using io(3) by (auto simp: NewEngine_Inr_iff built_def io_ports_from)
      with o \<open>q = Inr ios\<close> Inr io assms show ?thesis
        by (auto simp: GoSwitch_Start_def GoSwitch_Stop_def Stop_calls_def)
    qed
  qed
qed

definition second_open_fails :: os_oracle where
  "second_open_fails tr c \<longleftrightarrow> c \<noteq> NewTPacket (RxOpts ''s2'')"

theorem GoSwitch_owns_its_handles_witness:
  "\<exists>tr. GoSwitch_Start second_open_fails ''sw'' two_ports [] = (None, tr) \<and> opened second_open_fails tr = [3] \<and>
     mset (closed_by tr) = {#3#}"
proof -
  let ?r = "GoSwitch_Start second_open_fails ''sw'' two_ports []"
  have r: "fst ?r = None" "opened second_open_fails (snd ?r) = [3]"
    by (simp_all add: GoSwitch_Start_def two_ports_def open_switch_port_def openInNetns_def call_def Let_def
        second_open_fails_def RxOpts_def close_all_def opened_append [where tr = "[]", simplified])
  then have "?r = (None, snd ?r)" by (metis prod.collapse)
  with GoSwitch_owns_its_handles [OF this] r show ?thesis by force
qed

text \<open>
  Names and addresses of a topology: with at most 255 hosts and fewer than 100000 topologies
  in the process, the interface names are distinct and fit the 15 characters the kernel allows, the
  namespaces are distinct, the hosts' addresses are distinct individual addresses, and host i is
  found under index i.
\<close>
lemma topology_names:
  assumes "length specs \<le> 255" and "sq < 100000"
  shows "distinct (map host_SwIf (Hosts (NewTopology pid sq specs))) \<and>
     distinct (SwNS (NewTopology pid sq specs) # map NS (Hosts (NewTopology pid sq specs))) \<and>
     distinct (map host_MAC (Hosts (NewTopology pid sq specs))) \<and>
     (\<forall>h \<in> set (Hosts (NewTopology pid sq specs)). length (host_SwIf h) \<le> 15 \<and> \<not> group_address (host_MAC h) \<and>
        find_host (NewTopology pid sq specs) (Idx h) = Some h)"
proof -
  have bytes: "of_nat (Suc i) \<noteq> (of_nat (Suc j) :: byte)" if "i < 255" "j < 255" "i \<noteq> j" for i j
    using that by (simp only: word_unat_eq_iff unat_of_nat) simp
  have name: "length (topo_prefix pid sq @ ''s'' @ Itoa (i + 1)) \<le> 15" if "i < 255" for i
    using length_topo_prefix [OF assms(2), of pid] length_dec [of "i + 1" 2] that by simp
  have "distinct (map (\<lambda>i. [2, 0, 0, 0, 0, of_nat (i + 1)] :: mac) [0..<length specs])"
    using bytes assms(1) by (auto simp: distinct_map inj_on_def) (metis less_le_trans)
  moreover have "SwNS (NewTopology pid sq specs) = topo_prefix pid sq @ ''sw''"
    by (simp add: NewTopology_def Let_def)
  ultimately show ?thesis
    using assms name
    by (auto simp: Hosts_new comp_def distinct_map inj_on_def group_address_def find_host_new)
qed

end
