(* ===== verification/Probe.thy ===== *)
theory Probe
  imports Codec Bpf Port
begin

text \<open>
  The test harness, part two: \<open>internal/harness/probe.go\<close>, the frames the tests inject and how captured
  frames are read back. \<open>gopacket.NewPacket\<close> is a parameter: from the bytes to the first Ethernet and
  the first 802.1Q layer found. \<open>packet_view\<close> states that it reads back what the serializer wrote; the
  reference codec gives an instance. A decoded layer of our own frames is a copy, so the model has no
  aliasing.
\<close>

section \<open>Frames\<close>

definition magic :: "byte list" where
  "magic = [0xDE, 0xAD, 0xBE, 0xEF]"

definition TestType :: u16 where
  "TestType = 0x88B5"

definition serialize :: "serializer \<Rightarrow> mac \<Rightarrow> mac \<Rightarrow> u16 \<Rightarrow> byte list \<Rightarrow> nat \<Rightarrow> frame" where
  "serialize ser s d vid pl padTo =
     (let body = magic @ pl;
          frm = (if vid \<noteq> 0
                 then ser True [SerEthernet \<lparr>SrcMAC = s, DstMAC = d, EthernetType = EthernetTypeDot1Q, eth_Payload = []\<rparr>,
                                SerDot1Q \<lparr>VLANIdentifier = vid, Dot1Q_Type = TestType, dot1q_Payload = []\<rparr>,
                                SerPayload body]
                 else ser True [SerEthernet \<lparr>SrcMAC = s, DstMAC = d, EthernetType = TestType, eth_Payload = []\<rparr>,
                                SerPayload body])
      in if padTo > length frm then frm @ replicate (padTo - length frm) 0 else frm)"

definition BuildFrame :: "serializer \<Rightarrow> mac \<Rightarrow> mac \<Rightarrow> byte list \<Rightarrow> nat \<Rightarrow> frame" where
  "BuildFrame ser s d pl padTo = serialize ser s d 0 pl padTo"

definition BuildVLANFrame :: "serializer \<Rightarrow> mac \<Rightarrow> mac \<Rightarrow> u16 \<Rightarrow> byte list \<Rightarrow> nat \<Rightarrow> frame" where
  "BuildVLANFrame ser s d vid pl padTo = serialize ser s d vid pl padTo"

record FrameInfo =
  Src :: mac
  Dst :: mac
  HasVLAN :: bool
  VLANID :: u16
  EthType :: u16
  Payload :: "byte list"

definition isTest :: "FrameInfo \<Rightarrow> bool" where
  "isTest fi \<longleftrightarrow> EthType fi = TestType \<and> 4 \<le> length (Payload fi) \<and> take 4 (Payload fi) = magic"

type_synonym packet_layers = "frame \<Rightarrow> ethernet option \<times> dot1q_layer option"

definition Parse :: "packet_layers \<Rightarrow> frame \<Rightarrow> FrameInfo option" where
  "Parse layers b =
     (case layers b of
        (None, _) \<Rightarrow> None
      | (Some e, dl) \<Rightarrow>
          (let fi = \<lparr>Src = SrcMAC e, Dst = DstMAC e, HasVLAN = False, VLANID = 0, EthType = EthernetType e,
                     Payload = eth_Payload e\<rparr>
           in Some (case dl of
                      None \<Rightarrow> fi
                    | Some dq \<Rightarrow> fi\<lparr>HasVLAN := True, VLANID := VLANIdentifier dq, EthType := Dot1Q_Type dq,
                                    Payload := dot1q_Payload dq\<rparr>)))"

section \<open>Capturing\<close>

text \<open>
  One round of a capture loop: whether \<open>done\<close> was closed when it looked, and what the read gave.
\<close>

type_synonym round = "bool \<times> read_result"

fun capture_loop :: "round list \<Rightarrow> frame list \<Rightarrow> frame list" where
  "capture_loop [] frames = frames"
| "capture_loop ((isDone, r) # rounds) frames =
     (if isDone then frames
      else case r of
             ReadTimeout \<Rightarrow> capture_loop rounds frames
           | ReadError \<Rightarrow> frames
           | ReadData b \<Rightarrow> capture_loop rounds (frames @ [b]))"

text \<open>The counting loop of \<open>perf.go\<close>: the same rounds, no copy.\<close>

fun counter_loop :: "round list \<Rightarrow> nat \<Rightarrow> nat" where
  "counter_loop [] n = n"
| "counter_loop ((isDone, r) # rounds) n =
     (if isDone then n
      else case r of
             ReadTimeout \<Rightarrow> counter_loop rounds n
           | ReadError \<Rightarrow> n
           | ReadData b \<Rightarrow> counter_loop rounds (n + 1))"

definition Received :: "packet_layers \<Rightarrow> frame list \<Rightarrow> FrameInfo list" where
  "Received layers frames =
     fold (\<lambda>b out. case Parse layers b of None \<Rightarrow> out | Some fi \<Rightarrow> if isTest fi then out @ [fi] else out) frames []"

definition Count :: "packet_layers \<Rightarrow> frame list \<Rightarrow> nat" where
  "Count layers frames = length (Received layers frames)"

section \<open>The packet library\<close>

locale packet_view =
  fixes layers :: packet_layers and ser :: serializer
  assumes layers_tagged:
    "length d = 6 \<Longrightarrow> length s = 6 \<Longrightarrow> v < 0x1000 \<Longrightarrow>
     layers (ser True [SerEthernet \<lparr>SrcMAC = s, DstMAC = d, EthernetType = EthernetTypeDot1Q, eth_Payload = []\<rparr>,
                       SerDot1Q \<lparr>VLANIdentifier = v, Dot1Q_Type = TestType, dot1q_Payload = []\<rparr>,
                       SerPayload pl] @ z) = (e, q) \<Longrightarrow>
     \<exists>e' q'. e = Some e' \<and> q = Some q' \<and> SrcMAC e' = s \<and> DstMAC e' = d \<and> VLANIdentifier q' = v \<and>
             Dot1Q_Type q' = TestType \<and> length pl \<le> length (dot1q_Payload q') \<and>
             take (length pl) (dot1q_Payload q') = pl"
  and layers_untagged:
    "length d = 6 \<Longrightarrow> length s = 6 \<Longrightarrow>
     layers (ser True [SerEthernet \<lparr>SrcMAC = s, DstMAC = d, EthernetType = TestType, eth_Payload = []\<rparr>,
                       SerPayload pl] @ z) = (e, q) \<Longrightarrow>
     \<exists>e'. e = Some e' \<and> q = None \<and> SrcMAC e' = s \<and> DstMAC e' = d \<and> EthernetType e' = TestType \<and>
          length pl \<le> length (eth_Payload e') \<and> take (length pl) (eth_Payload e') = pl"
begin

lemma test_frame_read_back:
  assumes "length d = 6" and "length s = 6" and "vid < 0x1000"
  shows "\<exists>fi. Parse layers (serialize ser s d vid pl padTo) = Some fi \<and> isTest fi \<and>
           Src fi = s \<and> Dst fi = d \<and> HasVLAN fi = (vid \<noteq> 0) \<and> VLANID fi = vid \<and>
           take (4 + length pl) (Payload fi) = magic @ pl"
proof -
  have len: "length (magic @ pl) = 4 + length pl" by (simp add: magic_def)
  have test: "4 \<le> length p \<and> take 4 p = magic" if "take (4 + length pl) p = magic @ pl" for p
  proof -
    have "take 4 p = take 4 (take (4 + length pl) p)" by (simp add: min_def)
    also have "\<dots> = magic" by (simp add: that magic_def)
    finally have t: "take 4 p = magic" .
    have "min (length p) 4 = length magic" by (simp only: t [symmetric] length_take)
    with t show ?thesis by (simp add: magic_def min_def split: if_splits)
  qed
  have pad: "\<exists>z. (if padTo > length f then f @ replicate (padTo - length f) 0 else f) = f @ z" for f :: frame
    by auto
  show ?thesis
  proof (cases "vid = 0")
    case True
    let ?f = "ser True [SerEthernet \<lparr>SrcMAC = s, DstMAC = d, EthernetType = TestType, eth_Payload = []\<rparr>, SerPayload (magic @ pl)]"
    obtain z where z: "serialize ser s d vid pl padTo = ?f @ z"
      using pad [of ?f] True by (auto simp: serialize_def Let_def)
    obtain e q where l: "layers (?f @ z) = (e, q)" by fastforce
    obtain e' where e': "e = Some e'" "q = None" "SrcMAC e' = s" "DstMAC e' = d" "EthernetType e' = TestType"
        "take (4 + length pl) (eth_Payload e') = magic @ pl"
      using layers_untagged [OF assms(1,2) l] unfolding len by blast
    have "layers (serialize ser s d vid pl padTo) = (Some e', None)" by (simp only: z l e')
    then show ?thesis using e' test [OF e'(6)] True by (simp add: Parse_def isTest_def)
  next
    case False
    let ?f = "ser True [SerEthernet \<lparr>SrcMAC = s, DstMAC = d, EthernetType = EthernetTypeDot1Q, eth_Payload = []\<rparr>,
       SerDot1Q \<lparr>VLANIdentifier = vid, Dot1Q_Type = TestType, dot1q_Payload = []\<rparr>, SerPayload (magic @ pl)]"
    obtain z where z: "serialize ser s d vid pl padTo = ?f @ z"
      using pad [of ?f] False by (auto simp: serialize_def Let_def)
    obtain e q where l: "layers (?f @ z) = (e, q)" by fastforce
    obtain e' q' where e': "e = Some e'" "q = Some q'" "SrcMAC e' = s" "DstMAC e' = d" "VLANIdentifier q' = vid"
        "Dot1Q_Type q' = TestType" "take (4 + length pl) (dot1q_Payload q') = magic @ pl"
      using layers_tagged [OF assms l] unfolding len by blast
    have "layers (serialize ser s d vid pl padTo) = (Some e', Some q')" by (simp only: z l e')
    then show ?thesis using e' test [OF e'(7)] False by (simp add: Parse_def isTest_def Let_def)
  qed
qed

end

definition wire_layers_of :: packet_layers where
  "wire_layers_of b =
     (let fp = wire_decode newFrameParser b
      in (if LayerTypeEthernet \<in> set (Packet.dec fp) then Some (eth fp) else None,
          if LayerTypeDot1Q \<in> set (Packet.dec fp) then Some (dot1q fp) else None))"

lemma TestType_not_Dot1Q: "TestType \<noteq> EthernetTypeDot1Q" "EthernetTypeDot1Q \<noteq> TestType"
  by (simp_all add: TestType_def EthernetTypeDot1Q_def)

lemma wire_layers_tagged:
  assumes "length d = 6" and "length s = 6" and "v < 0x1000"
  shows "wire_layers_of (d @ s @ be16 EthernetTypeDot1Q @ be16 v @ be16 TestType @ r) =
    (Some \<lparr>SrcMAC = s, DstMAC = d, EthernetType = EthernetTypeDot1Q, eth_Payload = be16 v @ be16 TestType @ r\<rparr>,
     Some \<lparr>VLANIdentifier = v, Dot1Q_Type = TestType, dot1q_Payload = r\<rparr>)"
  using assms by (simp add: wire_layers_of_def be16_def wire_decode_def Let_def nth_dst_src vid_mask del: drop_append)

lemma wire_layers_untagged:
  assumes "length d = 6" and "length s = 6"
  shows "wire_layers_of (d @ s @ be16 TestType @ r) =
    (Some \<lparr>SrcMAC = s, DstMAC = d, EthernetType = TestType, eth_Payload = r\<rparr>, None)"
  using assms by (simp add: wire_layers_of_def be16_def wire_decode_def Let_def nth_dst_src TestType_not_Dot1Q
      del: drop_append)

interpretation wire_view: packet_view wire_layers_of wire_ser
proof unfold_locales
  fix d s :: mac and v :: u16 and pl z :: "byte list" and e q
  assume len: "length d = 6" "length s = 6" and v: "v < 0x1000"
    and l: "wire_layers_of (wire_ser True
        [SerEthernet \<lparr>SrcMAC = s, DstMAC = d, EthernetType = EthernetTypeDot1Q, eth_Payload = []\<rparr>,
         SerDot1Q \<lparr>VLANIdentifier = v, Dot1Q_Type = TestType, dot1q_Payload = []\<rparr>, SerPayload pl] @ z) = (e, q)"
  obtain y where f: "wire_ser True
        [SerEthernet \<lparr>SrcMAC = s, DstMAC = d, EthernetType = EthernetTypeDot1Q, eth_Payload = []\<rparr>,
         SerDot1Q \<lparr>VLANIdentifier = v, Dot1Q_Type = TestType, dot1q_Payload = []\<rparr>, SerPayload pl] @ z =
       d @ s @ be16 EthernetTypeDot1Q @ be16 v @ be16 TestType @ pl @ y"
    by (simp add: wire_ser_def Let_def)
  show "\<exists>e' q'. e = Some e' \<and> q = Some q' \<and> SrcMAC e' = s \<and> DstMAC e' = d \<and> VLANIdentifier q' = v \<and>
             Dot1Q_Type q' = TestType \<and> length pl \<le> length (dot1q_Payload q') \<and>
             take (length pl) (dot1q_Payload q') = pl"
    using l [unfolded f wire_layers_tagged [OF len v]] by auto
next
  fix d s :: mac and pl z :: "byte list" and e q
  assume len: "length d = 6" "length s = 6"
    and l: "wire_layers_of (wire_ser True
        [SerEthernet \<lparr>SrcMAC = s, DstMAC = d, EthernetType = TestType, eth_Payload = []\<rparr>, SerPayload pl] @ z) = (e, q)"
  obtain y where f: "wire_ser True
        [SerEthernet \<lparr>SrcMAC = s, DstMAC = d, EthernetType = TestType, eth_Payload = []\<rparr>, SerPayload pl] @ z =
       d @ s @ be16 TestType @ pl @ y"
    by (simp add: wire_ser_def Let_def)
  show "\<exists>e'. e = Some e' \<and> q = None \<and> SrcMAC e' = s \<and> DstMAC e' = d \<and> EthernetType e' = TestType \<and>
          length pl \<le> length (eth_Payload e') \<and> take (length pl) (eth_Payload e') = pl"
    using l [unfolded f wire_layers_untagged [OF len]] by auto
qed

section \<open>Properties\<close>

lemma Received_snoc:
  "Received layers (bs @ [b]) =
     (case Parse layers b of None \<Rightarrow> Received layers bs
      | Some fi \<Rightarrow> if isTest fi then Received layers bs @ [fi] else Received layers bs)"
  by (simp add: Received_def split: option.splits)

lemma Received_tests: "list_all isTest (Received layers bs)"
  by (induction bs rule: rev_induct) (simp_all add: Received_snoc, simp add: Received_def, auto split: option.splits)

lemma length_serialize: "padTo \<le> length (serialize ser s d vid pl padTo)"
  by (simp add: serialize_def Let_def)

text \<open>
  C36: The frames the tests inject are recognised when they are captured: whatever the padding, the
  received list of a capture that read a built frame last ends with its source, destination, tag and
  payload, and a padded frame has at least the size asked for. Stray frames are left out.
\<close>

theorem test_frames_received:
  assumes "packet_view layers ser"
    and "length d = 6" and "length s = 6" and "vid < 0x1000"
  shows "(\<exists>fi. Received layers (frames @ [BuildVLANFrame ser s d vid pl padTo]) = Received layers frames @ [fi] \<and>
            Src fi = s \<and> Dst fi = d \<and> HasVLAN fi = (vid \<noteq> 0) \<and> VLANID fi = vid \<and>
            take (4 + length pl) (Payload fi) = magic @ pl) \<and>
         BuildFrame ser s d pl padTo = BuildVLANFrame ser s d 0 pl padTo \<and>
         padTo \<le> length (BuildVLANFrame ser s d vid pl padTo) \<and>
         list_all isTest (Received layers frames)"
proof -
  obtain fi where fi: "Parse layers (serialize ser s d vid pl padTo) = Some fi" "isTest fi"
    and r: "Src fi = s \<and> Dst fi = d \<and> HasVLAN fi = (vid \<noteq> 0) \<and> VLANID fi = vid \<and>
            take (4 + length pl) (Payload fi) = magic @ pl"
    using packet_view.test_frame_read_back [OF assms, of pl padTo] by blast
  have "Received layers (frames @ [BuildVLANFrame ser s d vid pl padTo]) = Received layers frames @ [fi]"
    by (simp add: Received_snoc BuildVLANFrame_def fi)
  with r show ?thesis
    by (auto simp: BuildFrame_def BuildVLANFrame_def length_serialize Received_tests)
qed

corollary test_frames_received_witness:
  "\<exists>fi. Received wire_layers_of [wire_ser True [SerPayload (replicate 60 0)],
            BuildVLANFrame wire_ser [2,0,0,0,0,1] [2,0,0,0,0,2] 10 [7, 8] 64] = [fi] \<and>
        Src fi = [2,0,0,0,0,1] \<and> VLANID fi = 10"
proof -
  have stray: "Received wire_layers_of [wire_ser True [SerPayload (replicate 60 0)]] = []"
    by code_simp
  show ?thesis
    using test_frames_received [OF wire_view.packet_view_axioms, of "[2,0,0,0,0,2]" "[2,0,0,0,0,1]" 10
        "[wire_ser True [SerPayload (replicate 60 0)]]" "[7, 8]" 64] stray
    by auto
qed

end
