(* ===== verification/Perf.thy ===== *)
theory Perf
  imports Probe Client
begin

text \<open>
  The test harness, part three: \<open>internal/harness/perf.go\<close>, the throughput and latency measurements.
  Clock readings, the outcomes of writes and what the receiving socket delivers are inputs, in the
  order the code asks for them; what the clock guarantees (it does not go back, and a sleep lasts at
  least as long as asked) is the predicate \<open>clock_ok\<close> on such inputs.
\<close>

section \<open>Latency frames\<close>

definition be64 :: "u64 \<Rightarrow> byte list" where
  "be64 w = map (\<lambda>k. ucast (drop_bit (8 * k) w)) [7, 6, 5, 4, 3, 2, 1, 0]"

definition un64 :: "byte list \<Rightarrow> u64" where
  "un64 b = fold (\<lambda>x w. push_bit 8 w OR ucast x) b 0"

lemma length_be64 [simp]: "length (be64 w) = 8"
  by (simp add: be64_def)

lemma un64_step:
  "push_bit 8 (drop_bit (n + 8) w) OR ucast (ucast (drop_bit n w) :: byte) = drop_bit n w" for w :: u64
  by (rule bit_word_eqI) (auto simp: bit_simps)

lemma un64_be64 [simp]: "un64 (be64 w) = w"
proof -
  have "drop_bit 64 w = 0" by (rule bit_word_eqI) (auto simp: bit_simps)
  then show ?thesis
    using un64_step [of 56 w] un64_step [of 48 w] un64_step [of 40 w] un64_step [of 32 w] un64_step [of 24 w]
      un64_step [of 16 w] un64_step [of 8 w] un64_step [of 0 w]
    by (simp add: un64_def be64_def)
qed

definition latency_payload :: "u64 \<Rightarrow> i64 \<Rightarrow> byte list" where
  "latency_payload i t = be64 i @ be64 t"

definition latency_frame :: "serializer \<Rightarrow> mac \<Rightarrow> mac \<Rightarrow> u64 \<Rightarrow> i64 \<Rightarrow> frame" where
  "latency_frame ser srcMAC dstMAC i t = BuildFrame ser srcMAC dstMAC (latency_payload i t) 0"

text \<open>The sending loop: frame number i carries the i-th clock reading.\<close>

definition latency_frames :: "serializer \<Rightarrow> mac \<Rightarrow> mac \<Rightarrow> i64 list \<Rightarrow> frame list" where
  "latency_frames ser srcMAC dstMAC ts =
     map (\<lambda>(i, t). latency_frame ser srcMAC dstMAC (of_nat i) t) (enumerate 0 ts)"

definition latency_sample :: "packet_layers \<Rightarrow> i64 \<Rightarrow> frame \<Rightarrow> i64 option" where
  "latency_sample layers recv data =
     (case Parse layers data of
        None \<Rightarrow> None
      | Some fi \<Rightarrow>
          if \<not> isTest fi \<or> length (Payload fi) < 20 then None
          else Some (recv - un64 (take 8 (drop 12 (Payload fi)))))"

text \<open>A round of the receiver: whether \<open>done\<close> was closed, the read, and \<open>nowNanos\<close> after it.\<close>

fun latency_loop :: "packet_layers \<Rightarrow> (bool \<times> read_result \<times> i64) list \<Rightarrow> i64 list \<Rightarrow> i64 list" where
  "latency_loop layers [] lat = lat"
| "latency_loop layers ((isDone, r, recv) # rounds) lat =
     (if isDone then lat
      else case r of
             ReadTimeout \<Rightarrow> latency_loop layers rounds lat
           | ReadError \<Rightarrow> lat
           | ReadData b \<Rightarrow> latency_loop layers rounds
                             (case latency_sample layers recv b of None \<Rightarrow> lat | Some l \<Rightarrow> lat @ [l]))"

definition Latency :: "packet_layers \<Rightarrow> (bool \<times> read_result \<times> i64) list \<Rightarrow> i64 list" where
  "Latency layers rounds = sort_Slice sint (latency_loop layers rounds [])"

lemma latency_sample_own:
  assumes "packet_view layers ser" and "length dstMAC = 6" and "length srcMAC = 6"
  shows "latency_sample layers recv (latency_frame ser srcMAC dstMAC i t) = Some (recv - t)"
proof -
  obtain fi where fi: "Parse layers (latency_frame ser srcMAC dstMAC i t) = Some fi" "isTest fi"
    and p: "take (4 + length (latency_payload i t)) (Payload fi) = magic @ latency_payload i t"
    using packet_view.test_frame_read_back [OF assms(1-3), of 0 "latency_payload i t" 0]
    by (auto simp: latency_frame_def BuildFrame_def)
  have p: "take 20 (Payload fi) = magic @ be64 i @ be64 t" using p by (simp add: latency_payload_def)
  have "length (take 20 (Payload fi)) = 20" unfolding p by (simp add: magic_def)
  then have len: "20 \<le> length (Payload fi)" by (simp add: min_def split: if_splits)
  have "take 8 (drop 12 (Payload fi)) = drop 12 (take 20 (Payload fi))" by (simp add: drop_take)
  also have "\<dots> = be64 t" unfolding p by (simp add: magic_def)
  finally show ?thesis using fi len by (simp add: latency_sample_def)
qed

text \<open>
  An arrival at the receiver: the frame of number i sent at t and read at r, or a read that timed out.
\<close>

fun arrival :: "serializer \<Rightarrow> mac \<Rightarrow> mac \<Rightarrow> (u64 \<times> i64 \<times> i64) option \<Rightarrow> bool \<times> read_result \<times> i64" where
  "arrival ser s d None = (False, ReadTimeout, 0)"
| "arrival ser s d (Some (i, t, r)) = (False, ReadData (latency_frame ser s d i t), r)"

definition delays :: "(u64 \<times> i64 \<times> i64) option list \<Rightarrow> i64 list" where
  "delays evs = map (\<lambda>(i, t, r). r - t) (List.map_filter id evs)"

lemma delays_simps [simp]:
  "delays [] = []" "delays (None # evs) = delays evs" "delays (Some (i, t, r) # evs) = (r - t) # delays evs"
  by (simp_all add: delays_def List.map_filter_def)

text \<open>Every frame of the sending loop is an arrival of some number at its own clock reading.\<close>

lemma latency_frames_nth:
  "i < length ts \<Longrightarrow> arrival ser s d (Some (of_nat i, ts ! i, r)) = (False, ReadData (latency_frames ser s d ts ! i), r)"
  by (simp add: latency_frames_def nth_enumerate_eq)

lemma latency_loop_arrivals:
  assumes "packet_view layers ser" and "length dstMAC = 6" and "length srcMAC = 6"
  shows "latency_loop layers (map (arrival ser srcMAC dstMAC) evs @ (True, r, c) # rest) lat = lat @ delays evs"
proof (induction evs arbitrary: lat)
  case (Cons ev evs)
  then show ?case
    by (cases "(ser, srcMAC, dstMAC, ev)" rule: arrival.cases)
      (simp_all add: latency_sample_own [OF assms])
qed simp

text \<open>
  C40: The latency measurement is the sorted list of the delays. When the frames the sender built are
  read back in any order and number between timeouts, the result holds exactly the difference of the
  receive and send clocks of each, ascending as signed numbers; nothing read after the receiver is
  told to stop counts.
\<close>
theorem latency_measures_delays:
  assumes "packet_view layers ser" and "length dstMAC = 6" and "length srcMAC = 6"
  shows "mset (Latency layers (map (arrival ser srcMAC dstMAC) evs @ (True, r, c) # rest)) = mset (delays evs) \<and>
         sorted (map sint (Latency layers (map (arrival ser srcMAC dstMAC) evs @ (True, r, c) # rest)))"
  by (simp add: Latency_def latency_loop_arrivals [OF assms] slices.sorted_sorter slices.mset_sorter)

theorem latency_measures_delays_witness:
  "mset (Latency wire_layers_of
      (map (arrival wire_ser [2,0,0,0,0,1] [2,0,0,0,0,2]) [Some (0, 100, 350), None, Some (1, 400, 600)]
       @ [(True, ReadTimeout, 0)])) = {#250, 200#}"
  using latency_measures_delays [OF wire_view.packet_view_axioms, of "[2,0,0,0,0,2]" "[2,0,0,0,0,1]"
      "[Some (0, 100, 350), None, Some (1, 400, 600)]" ReadTimeout 0 "[]"]
  by simp

section \<open>Percentiles\<close>

text \<open>
  \<open>int(f)\<close> of a float truncates towards zero; outside the range of \<open>int\<close> Go leaves the result to the
  implementation, which is the parameter \<open>other\<close>. A read outside the slice would be None.
\<close>

definition trunc :: "rat \<Rightarrow> int" where
  "trunc x = (if 0 \<le> x then \<lfloor>x\<rfloor> else \<lceil>x\<rceil>)"

definition float_to_int :: "(rat \<Rightarrow> int) \<Rightarrow> rat \<Rightarrow> int" where
  "float_to_int other x = (let n = trunc x in if - (2 ^ 63) \<le> n \<and> n < 2 ^ 63 then n else other x)"

definition percentile_index :: "(rat \<Rightarrow> int) \<Rightarrow> nat \<Rightarrow> rat \<Rightarrow> int" where
  "percentile_index other n p = float_to_int other (fl (fl (p / 100) * fl (of_int (int n - 1))))"

definition Percentile :: "(rat \<Rightarrow> int) \<Rightarrow> i64 list \<Rightarrow> rat \<Rightarrow> i64 option" where
  "Percentile other xs p =
     (if length xs = 0 then Some 0
      else let idx = percentile_index other (length xs) p;
               idx = (if idx < 0 then 0 else idx);
               idx = (if idx \<ge> int (length xs) then int (length xs) - 1 else idx)
           in nth_opt xs (nat idx))"

lemma fl_1 [simp]: "fl 1 = 1"
  using fl_of_int [of 1] by simp

lemma fl_le_of_int: "0 \<le> x \<Longrightarrow> x \<le> of_int n \<Longrightarrow> \<bar>n\<bar> < 2 ^ 53 \<Longrightarrow> fl x \<le> of_int n"
  using fl_mono_nonneg [of x "of_int n"] fl_of_int [of n] by simp

text \<open>In the documented range of \<open>p\<close> the index is the truncated position, inside the slice without the clamps.\<close>

lemma percentile_position:
  assumes "0 < n" and "n < 2 ^ 53" and "0 \<le> p" and "p \<le> 100"
  shows "0 \<le> fl (fl (p / 100) * of_int (int n - 1))" and "fl (fl (p / 100) * of_int (int n - 1)) \<le> of_int (int n - 1)"
proof -
  have "0 \<le> fl (p / 100)" using assms(3) by (simp add: fl_nonneg)
  moreover have "fl (p / 100) \<le> 1" using fl_le_of_int [of "p / 100" 1] assms by simp
  ultimately have r: "0 \<le> fl (p / 100) * of_int (int n - 1)" "fl (p / 100) * of_int (int n - 1) \<le> of_int (int n - 1)"
    using assms(1) by (simp_all add: mult_left_le_one_le)
  then show "0 \<le> fl (fl (p / 100) * of_int (int n - 1))" by (simp only: fl_nonneg)
  show "fl (fl (p / 100) * of_int (int n - 1)) \<le> of_int (int n - 1)"
    by (rule fl_le_of_int [OF r]) (use assms in simp)
qed

lemma percentile_index_eq:
  assumes "0 < n" and "n < 2 ^ 53" and "0 \<le> p" and "p \<le> 100"
  shows "percentile_index other n p = \<lfloor>fl (fl (p / 100) * of_int (int n - 1))\<rfloor>"
    and "0 \<le> percentile_index other n p" and "percentile_index other n p < int n"
proof -
  let ?x = "fl (fl (p / 100) * of_int (int n - 1))"
  note pos = percentile_position [OF assms]
  have n: "fl (of_int (int n - 1)) = of_int (int n - 1)" by (rule fl_of_int) (use assms in simp)
  have f: "0 \<le> \<lfloor>?x\<rfloor>" "\<lfloor>?x\<rfloor> \<le> int n - 1"
    using pos(1) floor_mono [OF pos(2)] by (simp, simp only: floor_of_int)
  have "trunc ?x = \<lfloor>?x\<rfloor>" using pos(1) by (simp add: trunc_def)
  moreover have "- (2 ^ 63) \<le> k \<and> k < 2 ^ 63" if "0 \<le> k" "k \<le> int n - 1" for k
    using that assms(2) by simp
  then have "- (2 ^ 63) \<le> \<lfloor>?x\<rfloor> \<and> \<lfloor>?x\<rfloor> < 2 ^ 63" using f by blast
  ultimately show e: "percentile_index other n p = \<lfloor>?x\<rfloor>"
    unfolding percentile_index_def n float_to_int_def by (simp only: Let_def if_True simp_thms)
  show "0 \<le> percentile_index other n p" "percentile_index other n p < int n" using f unfolding e by simp_all
qed

lemmas percentile_bounds = percentile_index_eq(2,3)

lemma Percentile_eq:
  assumes "xs \<noteq> []" and "length xs < 2 ^ 53" and "0 \<le> p" and "p \<le> 100"
  shows "Percentile other xs p = Some (xs ! nat (percentile_index other (length xs) p))"
  using percentile_bounds [of "length xs" p other] assms by (simp add: Percentile_def nat_less_iff)

lemma percentile_index_mono:
  assumes "0 < n" and "n < 2 ^ 53" and "0 \<le> p" and "p \<le> q" and "q \<le> 100"
  shows "percentile_index other n p \<le> percentile_index other n q"
proof -
  have "fl (p / 100) \<le> fl (q / 100)" using assms by (intro fl_mono_nonneg) simp_all
  then have "fl (p / 100) * of_int (int n - 1) \<le> fl (q / 100) * of_int (int n - 1)"
    using assms(1) by (intro mult_right_mono) simp_all
  moreover have "0 \<le> fl (p / 100) * of_int (int n - 1)"
    using assms(1,3) by (simp add: fl_nonneg)
  ultimately have "fl (fl (p / 100) * of_int (int n - 1)) \<le> fl (fl (q / 100) * of_int (int n - 1))"
    by (intro fl_mono_nonneg)
  then show ?thesis using assms by (simp add: percentile_index_eq floor_mono)
qed

lemma percentile_index_0: "0 < n \<Longrightarrow> n < 2 ^ 53 \<Longrightarrow> percentile_index other n 0 = 0"
  by (simp add: percentile_index_eq)

lemma percentile_index_100: "0 < n \<Longrightarrow> n < 2 ^ 53 \<Longrightarrow> percentile_index other n 100 = int n - 1"
  using fl_of_int [of "int n - 1"] by (simp add: percentile_index_eq)

text \<open>
  Percentiles of a non-empty sorted slice. For p from 0 to 100 the result is an element of the
  slice, whatever the conversion does outside its range; it grows with p from the first element at 0 to
  the last at 100, so the median of the harness lies between its extremes. An empty slice gives 0 and
  no p panics.
\<close>
theorem Percentile_correct:
  assumes "xs \<noteq> []" and "length xs < 2 ^ 53" and "sorted (map sint xs)" and "0 \<le> p" and "p \<le> q" and "q \<le> 100"
  shows "(\<exists>x y. Percentile other xs p = Some x \<and> Percentile other xs q = Some y \<and> x \<in> set xs \<and> sint x \<le> sint y) \<and>
         Percentile other xs 0 = Some (hd xs) \<and> Percentile other xs 100 = Some (last xs) \<and>
         (\<forall>ys r. Percentile other ys r \<noteq> None) \<and> Percentile other [] p = Some 0"
proof -
  let ?i = "percentile_index other (length xs)"
  have n: "0 < length xs" using assms(1) by simp
  have b: "0 \<le> ?i p" "?i p < int (length xs)" "?i q < int (length xs)" "?i p \<le> ?i q"
    using percentile_bounds [OF n assms(2), of p other] percentile_bounds [OF n assms(2), of q other]
      percentile_index_mono [OF n assms(2)] assms by simp_all
  have "sint (xs ! nat (?i p)) \<le> sint (xs ! nat (?i q))"
    using sorted_nth_mono [OF assms(3), of "nat (?i p)" "nat (?i q)"] b by (simp add: nat_less_iff)
  moreover have "xs ! nat (?i p) \<in> set xs" using b by (simp add: nat_less_iff)
  ultimately show ?thesis
    using assms n
    by (auto simp: Percentile_eq percentile_index_0 percentile_index_100 hd_conv_nth last_conv_nth nat_diff_distrib')
      (auto simp: Percentile_def Let_def nat_less_iff split: if_splits)
qed

theorem Percentile_correct_witness:
  "Percentile (\<lambda>_. 0) [3, 5, 8, 13] 0 = Some 3 \<and> Percentile (\<lambda>_. 0) [3, 5, 8, 13] 100 = Some 13"
  using Percentile_correct [of "[3, 5, 8, 13]" 0 100 "\<lambda>_. 0"] by simp

section \<open>Throughput\<close>

record ThroughputResult =
  FrameSize :: nat
  TX :: i64
  RX :: i64
  Elapsed :: i64

text \<open>A division by a zero duration gives an infinity or NaN in Go, here None.\<close>

definition PPS :: "ThroughputResult \<Rightarrow> rat option" where
  "PPS r = (if seconds (Elapsed r) = 0 then None else Some (fl (fl (of_int (sint (RX r))) / seconds (Elapsed r))))"

definition Mbps :: "ThroughputResult \<Rightarrow> rat option" where
  "Mbps r =
     (if seconds (Elapsed r) = 0 then None
      else Some (fl (fl (fl (fl (fl (of_int (sint (RX r))) * fl (of_nat (FrameSize r))) * 8) / 1000000) / seconds (Elapsed r))))"

definition LossPct :: "ThroughputResult \<Rightarrow> rat" where
  "LossPct r =
     (if TX r = 0 then 0
      else fl (fl (fl (of_int (sint (TX r - RX r))) / fl (of_int (sint (TX r)))) * 100))"

text \<open>
  The sending loops. Clock readings are nanoseconds since \<open>start\<close>. A turn of the full-speed loop is
  the reading of \<open>time.Since(start)\<close> and whether the write succeeded; a turn of the paced loop the
  reading, the outcomes of its writes and the reading inside \<open>time.Until\<close>. The list of turns is what
  the environment offers; the loop ends at the first reading of at least \<open>d\<close>. The paced loop also
  returns the sleeps it asked for.
\<close>

fun send_full :: "int \<Rightarrow> (int \<times> bool) list \<Rightarrow> nat \<Rightarrow> nat" where
  "send_full d [] tx = tx"
| "send_full d ((since, ok) # turns) tx =
     (if since < d then send_full d turns (if ok then tx + 1 else tx) else tx)"

definition millisecond :: int where
  "millisecond = 1000000"

definition per_ms :: "int \<Rightarrow> nat" where
  "per_ms targetPPS = (let p = targetPPS div 1000 in nat (if p < 1 then 1 else p))"

fun send_paced :: "nat \<Rightarrow> int \<Rightarrow> (int \<times> (nat \<Rightarrow> bool) \<times> int) list \<Rightarrow> int \<Rightarrow> nat \<Rightarrow> nat \<times> int list" where
  "send_paced n d [] tick tx = (tx, [])"
| "send_paced n d ((since, ok, now) # turns) tick tx =
     (if since < d
      then let tx = fold (\<lambda>i tx. if ok i then tx + 1 else tx) [0..<n] tx;
               tick = tick + millisecond;
               dt = tick - now;
               (tx, sleeps) = send_paced n d turns tick tx
           in (tx, (if dt > 0 then [dt] else []) @ sleeps)
      else (tx, []))"

fun clock_ok :: "int \<Rightarrow> int \<Rightarrow> (int \<times> (nat \<Rightarrow> bool) \<times> int) list \<Rightarrow> bool" where
  "clock_ok t tick [] \<longleftrightarrow> True"
| "clock_ok t tick ((since, ok, now) # turns) \<longleftrightarrow>
     t \<le> since \<and> since \<le> now \<and> clock_ok (now + max 0 (tick + millisecond - now)) (tick + millisecond) turns"

definition started_ms :: "int \<Rightarrow> nat" where
  "started_ms d = nat ((d + millisecond - 1) div millisecond)"

lemma burst_count: "fold (\<lambda>i tx. if ok i then tx + 1 else tx) [0..<n] tx \<le> tx + n"
  by (induction n) auto

lemma started_ms_step: "0 < d \<Longrightarrow> started_ms d = Suc (started_ms (d - millisecond))"
  unfolding started_ms_def millisecond_def by linarith

lemma started_ms_mono: "d \<le> d' \<Longrightarrow> started_ms d \<le> started_ms d'"
  unfolding started_ms_def millisecond_def by (intro nat_mono zdiv_mono1) simp_all

lemma send_paced_bound:
  assumes "clock_ok t tick turns" and "tick \<le> t"
  shows "fst (send_paced n d turns tick tx) \<le> tx + n * started_ms (d - tick)"
  using assms
proof (induction n d turns tick tx arbitrary: t rule: send_paced.induct)
  case (2 n d since ok now turns tick tx)
  show ?case
  proof (cases "since < d")
    case True
    let ?tx = "fold (\<lambda>i tx. if ok i then tx + 1 else tx) [0..<n] tx"
    have "fst (send_paced n d turns (tick + millisecond) ?tx)
          \<le> ?tx + n * started_ms (d - (tick + millisecond))"
      by (rule 2(1) [OF True refl refl]) (use 2(2) in auto)
    moreover have "started_ms (d - tick) = Suc (started_ms (d - (tick + millisecond)))"
      using started_ms_step [of "d - tick"] True 2(2,3) by (simp add: algebra_simps)
    ultimately show ?thesis
      using True burst_count [of ok n tx] by (simp add: Let_def case_prod_beta)
  qed simp
qed simp

text \<open>
  The rate cap. Whatever the schedule, the paced loop sends at most \<open>per_ms\<close> frames for each
  millisecond begun within the run; for a target of at least 1000 frames a second that keeps the
  target. Below 1000 the burst is still one frame, so the cap is 1000 a second.
\<close>
theorem paced_rate_capped:
  assumes "clock_ok tick tick turns" and "0 \<le> tick" and "0 < targetPPS"
  shows "fst (send_paced (per_ms targetPPS) d turns tick 0) \<le> per_ms targetPPS * started_ms d \<and>
         (1000 \<le> targetPPS \<longrightarrow>
            1000 * int (fst (send_paced (per_ms targetPPS) d turns tick 0)) \<le> targetPPS * int (started_ms d)) \<and>
         (targetPPS < 1000 \<longrightarrow> per_ms targetPPS = 1)"
proof -
  let ?n = "fst (send_paced (per_ms targetPPS) d turns tick 0)"
  have "?n \<le> per_ms targetPPS * started_ms (d - tick)"
    using send_paced_bound [OF assms(1) order_refl, of "per_ms targetPPS" d 0] by simp
  also have "\<dots> \<le> per_ms targetPPS * started_ms d"
    using assms(2) by (intro mult_left_mono started_ms_mono) simp_all
  finally have b: "?n \<le> per_ms targetPPS * started_ms d" .
  moreover have "1000 * int ?n \<le> targetPPS * int (started_ms d)" if "1000 \<le> targetPPS"
  proof -
    have "int ?n \<le> int (per_ms targetPPS) * int (started_ms d)" using b by (simp flip: of_nat_mult)
    then have "1000 * int ?n \<le> (1000 * int (per_ms targetPPS)) * int (started_ms d)" by simp
    also have "1000 * int (per_ms targetPPS) \<le> targetPPS" 
    proof -
      have "1000 * (targetPPS div 1000) \<le> targetPPS" "\<not> targetPPS div 1000 < 1" using that zdiv_mono1 [of 1000 targetPPS 1000]
          mult_div_mod_eq [of 1000 targetPPS] pos_mod_sign [of 1000 targetPPS] by linarith+
      then show ?thesis unfolding per_ms_def Let_def by simp
    qed
    then have "(1000 * int (per_ms targetPPS)) * int (started_ms d) \<le> targetPPS * int (started_ms d)"
      by (intro mult_right_mono) simp_all
    finally show ?thesis .
  qed
  moreover have "per_ms targetPPS = 1" if "targetPPS < 1000"
    using that assms(3) by (simp add: per_ms_def Let_def)
  ultimately show ?thesis by blast
qed

theorem paced_rate_capped_witness:
  "fst (send_paced (per_ms 3000) 2000000 [(0, \<lambda>_. True, 10), (1000000, even, 1000010), (2000000, \<lambda>_. True, 2000010)] 0 0) \<le> 6"
  using paced_rate_capped [of 0 "[(0, \<lambda>_. True, 10), (1000000, even, 1000010), (2000000, \<lambda>_. True, 2000010)]" 3000 2000000]
  by (simp add: per_ms_def started_ms_def millisecond_def)

text \<open>Below 1000 frames a second the cap does not hold the target: an undelayed run of n milliseconds sends n frames.\<close>

definition prompt_turns :: "int \<Rightarrow> nat \<Rightarrow> (int \<times> (nat \<Rightarrow> bool) \<times> int) list" where
  "prompt_turns t n = map (\<lambda>k. (t + int k * millisecond, \<lambda>_. True, t + int k * millisecond)) [0..<n]"

lemma prompt_turns_Suc: "prompt_turns t (Suc n) = (t, \<lambda>_. True, t) # prompt_turns (t + millisecond) n"
  by (simp add: prompt_turns_def map_upt_Suc algebra_simps del: upt_Suc)

lemma clock_ok_prompt: "clock_ok t t (prompt_turns t n)"
proof (induction n arbitrary: t)
  case (Suc n)
  then show ?case using Suc [of "t + millisecond"] by (simp add: prompt_turns_Suc millisecond_def)
qed (simp add: prompt_turns_def)

lemma send_paced_prompt:
  "fst (send_paced 1 (t + int n * millisecond) (prompt_turns t n) t tx) = tx + n"
proof (induction n arbitrary: t tx)
  case (Suc n)
  show ?case
    using Suc [of "t + millisecond" "Suc tx"]
    by (simp add: prompt_turns_Suc Let_def case_prod_beta algebra_simps) (simp add: millisecond_def)
qed (simp add: prompt_turns_def)

lemma low_target_exceeded:
  assumes "0 < targetPPS" and "targetPPS < 1000"
  shows "\<exists>turns. clock_ok 0 0 turns \<and> fst (send_paced (per_ms targetPPS) (int n * millisecond) turns 0 0) = n"
  using clock_ok_prompt [of 0 n] send_paced_prompt [of 0 n 0] assms by (auto simp: per_ms_def Let_def)

text \<open>
  One run: the counter is read before (\<open>cStart\<close>) and after. \<open>full\<close> and \<open>paced\<close> are what the two loops
  would meet; only the one selected by the target is used.
\<close>

definition Throughput ::
  "nat \<Rightarrow> int \<Rightarrow> int \<Rightarrow> (int \<times> bool) list \<Rightarrow> int \<Rightarrow> (int \<times> (nat \<Rightarrow> bool) \<times> int) list \<Rightarrow>
   i64 \<Rightarrow> i64 \<Rightarrow> i64 \<Rightarrow> ThroughputResult" where
  "Throughput frameSize d targetPPS full tick paced cStart cStop elapsed =
     (let tx = (if targetPPS \<le> 0 then send_full d full 0
                else fst (send_paced (per_ms targetPPS) d paced tick 0))
      in \<lparr>FrameSize = frameSize, TX = of_nat tx, RX = cStop - cStart, Elapsed = elapsed\<rparr>)"

text \<open>When no more frames were counted than sent, the loss is a percentage.\<close>

lemma LossPct_bounds:
  assumes "0 \<le> sint (RX r)" and "sint (RX r) \<le> sint (TX r)" and "sint (TX r) < 2 ^ 53"
  shows "0 \<le> LossPct r \<and> LossPct r \<le> 100"
proof (cases "TX r = 0")
  case False
  have d: "sint (TX r - RX r) = sint (TX r) - sint (RX r)"
    unfolding sint_word_ariths by (rule signed_take_bit_int_eq_self) (use assms in simp_all)
  have t: "0 < sint (TX r)" using False assms by (metis less_le_trans order.order_iff_strict sint_0 signed_word_eqI)
  let ?q = "of_int (sint (TX r) - sint (RX r)) / of_int (sint (TX r)) :: rat"
  have "0 \<le> (of_int a / of_int b :: rat) \<and> (of_int a / of_int b :: rat) \<le> 1" if "0 < b" "0 \<le> a" "a \<le> b" for a b
    using that by (simp add: divide_le_eq_1)
  from this [of "sint (TX r)" "sint (TX r) - sint (RX r)"] have q: "0 \<le> ?q" "?q \<le> 1"
    using t assms(1,2) by (simp_all only: diff_ge_0_iff_ge diff_le_eq le_add_same_cancel1 simp_thms)
  have "fl (of_int (sint (TX r) - sint (RX r))) = of_int (sint (TX r) - sint (RX r))"
       "fl (of_int (sint (TX r))) = of_int (sint (TX r))"
    by (rule fl_of_int, use assms in linarith)+
  then have e: "LossPct r = fl (fl ?q * 100)" using False by (simp only: LossPct_def d if_False)
  have "0 \<le> fl ?q" "fl ?q \<le> 1" using q fl_le_of_int [of ?q 1] by (simp_all add: fl_nonneg)
  then show ?thesis
    using fl_le_of_int [of "fl ?q * 100" 100] unfolding e by (simp add: fl_nonneg)
qed (simp add: LossPct_def)

end
