(* ===== verification/Reader.thy ===== *)
theory Reader
  imports Perf
begin

text \<open>
  The reading goroutines of the test harness and how they are stopped: \<open>capture.loop\<close> and
  \<open>Captures.Close\<close> (\<open>internal/harness/probe.go\<close>), \<open>counter.loop\<close> and \<open>counter.stop\<close>, and the receiver
  inside \<open>Latency\<close> (\<open>perf.go\<close>). All three are the same loop with a different last statement, the
  argument \<open>use\<close>: check \<open>done\<close>, read, use what was read; and all three are stopped by closing
  \<open>done\<close>, waiting for \<open>finished\<close> and closing the handle. A bench is a set of readers that are stopped
  one after another, in the order Go ranges over the map; a counter and the latency receiver are
  benches of one.

  What was read is a slice of the handle's memory until it has been used, so the handle is in use in
  \<open>ReaderRead\<close> and \<open>ReaderHave\<close>. Counted for the proofs: how often \<open>done\<close> and the handle were closed;
  and the rounds the loop has made, each with the reading of the clock after the read.
\<close>

section \<open>Readers\<close>

type_synonym clocked_round = "bool \<times> read_result \<times> i64"
type_synonym 'a user = "i64 \<Rightarrow> frame \<Rightarrow> 'a \<Rightarrow> 'a"

datatype reader_pc = ReaderCheck | ReaderRead | ReaderHave frame i64 | ReaderExited

record 'a reader =
  reader_at :: reader_pc
  result :: 'a
  done_chan :: nat
  finished_chan :: bool
  tp_closes :: nat
  rounds :: "clocked_round list"

definition new_reader :: "'a \<Rightarrow> 'a reader" where
  "new_reader a = \<lparr>reader_at = ReaderCheck, result = a, done_chan = 0, finished_chan = False, tp_closes = 0, rounds = []\<rparr>"

definition reader_exit :: "clocked_round \<Rightarrow> 'a reader \<Rightarrow> 'a reader" where
  "reader_exit rd r = r\<lparr>reader_at := ReaderExited, finished_chan := True, rounds := rounds r @ [rd]\<rparr>"

inductive reader_step :: "'a user \<Rightarrow> 'a reader \<Rightarrow> 'a reader \<Rightarrow> bool" for f :: "'a user" where
  see_done: "reader_at r = ReaderCheck \<Longrightarrow> 0 < done_chan r \<Longrightarrow> reader_step f r (reader_exit (True, ReadTimeout, 0) r)"
| go_on: "reader_at r = ReaderCheck \<Longrightarrow> done_chan r = 0 \<Longrightarrow> reader_step f r (r\<lparr>reader_at := ReaderRead\<rparr>)"
| timeout: "reader_at r = ReaderRead \<Longrightarrow>
     reader_step f r (r\<lparr>reader_at := ReaderCheck, rounds := rounds r @ [(False, ReadTimeout, 0)]\<rparr>)"
| read_error: "reader_at r = ReaderRead \<Longrightarrow> reader_step f r (reader_exit (False, ReadError, 0) r)"
| read_data: "reader_at r = ReaderRead \<Longrightarrow> reader_step f r (r\<lparr>reader_at := ReaderHave b now\<rparr>)"
| use_data: "reader_at r = ReaderHave b now \<Longrightarrow>
     reader_step f r (r\<lparr>reader_at := ReaderCheck, result := f now b (result r),
                        rounds := rounds r @ [(False, ReadData b, now)]\<rparr>)"

text \<open>The three uses: keep a copy, count, take a latency sample.\<close>

definition keep_copy :: "frame list user" where
  "keep_copy now b frames = frames @ [b]"

definition count_one :: "nat user" where
  "count_one now b n = n + 1"

definition add_sample :: "packet_layers \<Rightarrow> i64 list user" where
  "add_sample layers recv b lat = (case latency_sample layers recv b of None \<Rightarrow> lat | Some l \<Rightarrow> lat @ [l])"

section \<open>Stopping them\<close>

datatype stop_readers_pc =
    Armed
  | StopNext "nat list"
  | StopAwait nat "nat list"
  | StopRelease nat "nat list"
  | AllStopped

record 'a bench =
  readers :: "nat \<rightharpoonup> 'a reader"
  stopper :: stop_readers_pc

definition put_reader :: "nat \<Rightarrow> 'a reader \<Rightarrow> 'a bench \<Rightarrow> 'a bench" where
  "put_reader i r b = b\<lparr>readers := (readers b)(i \<mapsto> r)\<rparr>"

inductive bench_step :: "'a user \<Rightarrow> 'a bench \<Rightarrow> 'a bench \<Rightarrow> bool" for f :: "'a user" where
  run: "readers b i = Some r \<Longrightarrow> reader_step f r r' \<Longrightarrow> bench_step f b (put_reader i r' b)"
| stop_call: "stopper b = Armed \<Longrightarrow> set is = dom (readers b) \<Longrightarrow> distinct is \<Longrightarrow>
     bench_step f b (b\<lparr>stopper := StopNext is\<rparr>)"
| stop_signal: "stopper b = StopNext (i # is) \<Longrightarrow> readers b i = Some r \<Longrightarrow>
     bench_step f b ((put_reader i (r\<lparr>done_chan := done_chan r + 1\<rparr>) b)\<lparr>stopper := StopAwait i is\<rparr>)"
| stop_await: "stopper b = StopAwait i is \<Longrightarrow> readers b i = Some r \<Longrightarrow> finished_chan r \<Longrightarrow>
     bench_step f b (b\<lparr>stopper := StopRelease i is\<rparr>)"
| stop_release: "stopper b = StopRelease i is \<Longrightarrow> readers b i = Some r \<Longrightarrow>
     bench_step f b ((put_reader i (r\<lparr>tp_closes := tp_closes r + 1\<rparr>) b)\<lparr>stopper := StopNext is\<rparr>)"
| stop_return: "stopper b = StopNext [] \<Longrightarrow> bench_step f b (b\<lparr>stopper := AllStopped\<rparr>)"

definition armed :: "nat set \<Rightarrow> 'a \<Rightarrow> 'a bench" where
  "armed I a = \<lparr>readers = (\<lambda>i. if i \<in> I then Some (new_reader a) else None), stopper = Armed\<rparr>"

inductive bench_reach :: "'a user \<Rightarrow> nat set \<Rightarrow> 'a \<Rightarrow> 'a bench \<Rightarrow> bool" for f :: "'a user" and I :: "nat set" and a :: 'a where
  init: "bench_reach f I a (armed I a)"
| step: "bench_reach f I a b \<Longrightarrow> bench_step f b b' \<Longrightarrow> bench_reach f I a b'"

section \<open>The loop as a function of its rounds\<close>

fun reader_loop :: "'a user \<Rightarrow> clocked_round list \<Rightarrow> 'a \<Rightarrow> 'a" where
  "reader_loop f [] a = a"
| "reader_loop f ((isDone, r, now) # rest) a =
     (if isDone then a
      else case r of
             ReadTimeout \<Rightarrow> reader_loop f rest a
           | ReadError \<Rightarrow> a
           | ReadData b \<Rightarrow> reader_loop f rest (f now b a))"

lemma capture_loop_reader: "capture_loop (map (\<lambda>(d, r, now). (d, r)) rs) frames = reader_loop keep_copy rs frames"
  by (induction keep_copy rs frames rule: reader_loop.induct) (auto simp: keep_copy_def split: read_result.splits)

lemma counter_loop_reader: "counter_loop (map (\<lambda>(d, r, now). (d, r)) rs) n = reader_loop count_one rs n"
  by (induction count_one rs n rule: reader_loop.induct) (auto simp: count_one_def split: read_result.splits)

lemma latency_loop_reader: "latency_loop layers rs lat = reader_loop (add_sample layers) rs lat"
  by (induction "add_sample layers" rs lat rule: reader_loop.induct) (auto simp: add_sample_def split: read_result.splits)

definition going_on :: "clocked_round \<Rightarrow> bool" where
  "going_on rd \<longleftrightarrow> \<not> fst rd \<and> fst (snd rd) \<noteq> ReadError"

lemma reader_loop_append:
  "list_all going_on rs \<Longrightarrow> reader_loop f (rs @ rs') a = reader_loop f rs' (reader_loop f rs a)"
  by (induction f rs a rule: reader_loop.induct) (auto simp: going_on_def split: read_result.splits)

section \<open>The invariant\<close>

definition reader_ok :: "'a user \<Rightarrow> 'a \<Rightarrow> 'a reader \<Rightarrow> bool" where
  "reader_ok f a r \<longleftrightarrow>
     finished_chan r = (reader_at r = ReaderExited) \<and> result r = reader_loop f (rounds r) a \<and>
     (reader_at r \<noteq> ReaderExited \<longrightarrow> list_all going_on (rounds r))"

text \<open>What the one who stops may assume of reader i.\<close>

fun queue_stage :: "nat list \<Rightarrow> nat \<Rightarrow> 'a reader \<Rightarrow> bool" where
  "queue_stage is i r \<longleftrightarrow>
     (if i \<in> set is then done_chan r = 0 \<and> tp_closes r = 0 else done_chan r = 1 \<and> tp_closes r = 1 \<and> finished_chan r)"

fun stage_ok :: "stop_readers_pc \<Rightarrow> nat \<Rightarrow> 'a reader \<Rightarrow> bool" where
  "stage_ok Armed i r \<longleftrightarrow> done_chan r = 0 \<and> tp_closes r = 0"
| "stage_ok (StopNext is) i r \<longleftrightarrow> queue_stage is i r"
| "stage_ok (StopAwait j is) i r \<longleftrightarrow>
     (if i = j then done_chan r = 1 \<and> tp_closes r = 0 else queue_stage is i r)"
| "stage_ok (StopRelease j is) i r \<longleftrightarrow>
     (if i = j then done_chan r = 1 \<and> tp_closes r = 0 \<and> finished_chan r else queue_stage is i r)"
| "stage_ok AllStopped i r \<longleftrightarrow> done_chan r = 1 \<and> tp_closes r = 1 \<and> finished_chan r"

fun queue_ok :: "nat set \<Rightarrow> stop_readers_pc \<Rightarrow> bool" where
  "queue_ok I (StopNext is) \<longleftrightarrow> distinct is \<and> set is \<subseteq> I"
| "queue_ok I (StopAwait j is) \<longleftrightarrow> distinct (j # is) \<and> set (j # is) \<subseteq> I"
| "queue_ok I (StopRelease j is) \<longleftrightarrow> distinct (j # is) \<and> set (j # is) \<subseteq> I"
| "queue_ok I pc \<longleftrightarrow> True"

definition bench_inv :: "'a user \<Rightarrow> nat set \<Rightarrow> 'a \<Rightarrow> 'a bench \<Rightarrow> bool" where
  "bench_inv f I a b \<longleftrightarrow> dom (readers b) = I \<and> queue_ok I (stopper b) \<and>
     (\<forall>i r. readers b i = Some r \<longrightarrow> reader_ok f a r \<and> stage_ok (stopper b) i r)"

lemma put_reader_sel [simp]: "readers (put_reader i r b) = (readers b)(i \<mapsto> r)" "stopper (put_reader i r b) = stopper b"
  by (simp_all add: put_reader_def)

lemma reader_exit_sel [simp]:
  "reader_at (reader_exit rd r) = ReaderExited" "result (reader_exit rd r) = result r"
  "done_chan (reader_exit rd r) = done_chan r" "finished_chan (reader_exit rd r)"
  "tp_closes (reader_exit rd r) = tp_closes r" "rounds (reader_exit rd r) = rounds r @ [rd]"
  by (simp_all add: reader_exit_def)

lemma reader_step_ok: "reader_step f r r' \<Longrightarrow> reader_ok f a r \<Longrightarrow> reader_ok f a r'"
  by (induction rule: reader_step.induct) (auto simp: reader_ok_def reader_loop_append going_on_def)

lemma reader_step_frame:
  "reader_step f r r' \<Longrightarrow> done_chan r' = done_chan r \<and> tp_closes r' = tp_closes r \<and> (finished_chan r \<longrightarrow> finished_chan r')"
  by (induction rule: reader_step.induct) auto

lemma reader_step_exited: "reader_step f r r' \<Longrightarrow> reader_at r \<noteq> ReaderExited"
  by (induction rule: reader_step.induct) auto

lemma stage_ok_mono:
  "stage_ok pc i r \<Longrightarrow> done_chan r' = done_chan r \<Longrightarrow> tp_closes r' = tp_closes r \<Longrightarrow>
     (finished_chan r \<longrightarrow> finished_chan r') \<Longrightarrow> stage_ok pc i r'"
  by (cases pc) (auto split: if_splits)

lemma reader_ok_chans [simp]:
  "reader_ok f a (r\<lparr>done_chan := n\<rparr>) = reader_ok f a r" "reader_ok f a (r\<lparr>tp_closes := n\<rparr>) = reader_ok f a r"
  by (simp_all add: reader_ok_def)

lemma bench_step_inv: "bench_step f b b' \<Longrightarrow> bench_inv f I a b \<Longrightarrow> bench_inv f I a b'"
proof (induction rule: bench_step.induct)
  case (run b i r r')
  then show ?case
    using reader_step_frame [OF run(2)] by (auto simp: bench_inv_def reader_step_ok intro: stage_ok_mono)
qed (auto simp: bench_inv_def split: if_splits)

lemma bench_reach_inv: "bench_reach f I a b \<Longrightarrow> bench_inv f I a b"
proof (induction rule: bench_reach.induct)
  case init
  show ?case by (auto simp: armed_def bench_inv_def new_reader_def reader_ok_def split: if_splits)
qed (blast intro: bench_step_inv)

lemma bench_reach_run: "(bench_step f)\<^sup>*\<^sup>* b b' \<Longrightarrow> bench_reach f I a b \<Longrightarrow> bench_reach f I a b'"
  by (induction rule: rtranclp_induct) (auto intro: bench_reach.step)

lemma bench_reader:
  assumes "bench_reach f I a b" and "readers b i = Some r"
  shows "reader_ok f a r" and "stage_ok (stopper b) i r"
  using bench_reach_inv [OF assms(1)] assms(2) by (simp_all add: bench_inv_def)

lemma stage_ok_closes:
  "stage_ok pc i r \<Longrightarrow> done_chan r \<le> 1 \<and> tp_closes r \<le> 1 \<and> (0 < tp_closes r \<longrightarrow> finished_chan r)"
  by (cases pc) (auto split: if_splits)

section \<open>Stopping comes to an end\<close>

text \<open>
  Reads may fail at any time in \<open>reader_step\<close>, which frees a loop without anybody stopping it. To show
  that stopping does not rest on such luck, the runs that end it are calm: a read in progress times
  out, as the poll time-out set on every socket makes it, or gives a frame, but does not fail.
\<close>

definition no_fault :: "'a reader \<Rightarrow> 'a reader \<Rightarrow> bool" where
  "no_fault r r' \<longleftrightarrow> \<not> (reader_at r = ReaderRead \<and> reader_at r' = ReaderExited)"

definition calm_reader_step :: "'a user \<Rightarrow> 'a reader \<Rightarrow> 'a reader \<Rightarrow> bool" where
  "calm_reader_step f r r' \<longleftrightarrow> reader_step f r r' \<and> no_fault r r'"

definition calm_bench_step :: "'a user \<Rightarrow> 'a bench \<Rightarrow> 'a bench \<Rightarrow> bool" where
  "calm_bench_step f b b' \<longleftrightarrow> bench_step f b b' \<and>
     (\<forall>i r r'. readers b i = Some r \<and> readers b' i = Some r' \<longrightarrow> no_fault r r')"

lemma no_fault_same [simp]: "reader_at r' = reader_at r \<Longrightarrow> no_fault r r'"
  by (auto simp: no_fault_def)

lemma calm_run_bench: "(calm_bench_step f)\<^sup>*\<^sup>* b b' \<Longrightarrow> (bench_step f)\<^sup>*\<^sup>* b b'"
  by (rule rtranclp_mono [THEN predicate2D]) (auto simp: calm_bench_step_def)

fun reader_rank :: "reader_pc \<Rightarrow> nat" where
  "reader_rank ReaderRead = 3"
| "reader_rank (ReaderHave b now) = 2"
| "reader_rank ReaderCheck = 1"
| "reader_rank ReaderExited = 0"

lemma reader_rank_3: "reader_rank pc \<le> 3"
  by (cases pc) simp_all

text \<open>Once \<open>done\<close> is closed every step of the loop brings it nearer to its end.\<close>

lemma signalled_step:
  "reader_step f r r' \<Longrightarrow> 0 < done_chan r \<Longrightarrow> reader_rank (reader_at r') < reader_rank (reader_at r)"
  by (induction rule: reader_step.induct) auto

lemma signalled_run:
  "(reader_step f ^^ n) r r' \<Longrightarrow> 0 < done_chan r \<Longrightarrow>
     n + reader_rank (reader_at r') \<le> reader_rank (reader_at r) \<and> 0 < done_chan r'"
proof (induction n arbitrary: r')
  case (Suc n)
  from Suc.prems(1) obtain s where s: "(reader_step f ^^ n) r s" "reader_step f s r'" by auto
  with Suc.IH [OF s(1) Suc.prems(2)] signalled_step [OF s(2)] reader_step_frame [OF s(2)] show ?case by simp
qed simp

lemma reader_can_step: "reader_at r \<noteq> ReaderExited \<Longrightarrow> \<exists>r'. calm_reader_step f r r'"
proof (cases "reader_at r")
  case ReaderCheck
  then show ?thesis
    using see_done [OF ReaderCheck] go_on [OF ReaderCheck] by (cases "done_chan r = 0") (auto simp: calm_reader_step_def no_fault_def)
next
  case ReaderRead
  from timeout [OF this] show ?thesis by (force simp: calm_reader_step_def no_fault_def)
next
  case (ReaderHave b now)
  from use_data [OF this] show ?thesis using ReaderHave by (force simp: calm_reader_step_def no_fault_def)
qed simp

lemma signalled_exits:
  "0 < done_chan r \<Longrightarrow> \<exists>r'. (calm_reader_step f)\<^sup>*\<^sup>* r r' \<and> reader_at r' = ReaderExited"
proof (induction "reader_rank (reader_at r)" arbitrary: r rule: less_induct)
  case less
  show ?case
  proof (cases "reader_at r = ReaderExited")
    case False
    then obtain r1 where r1: "calm_reader_step f r r1" using reader_can_step by blast
    then have step: "reader_step f r r1" by (simp add: calm_reader_step_def)
    with less.prems have "0 < done_chan r1" using reader_step_frame [OF step] by simp
    from less.hyps [OF signalled_step [OF step less.prems] this] r1 show ?thesis
      by (blast intro: converse_rtranclp_into_rtranclp)
  qed blast
qed

lemma put_reader_put [simp]: "put_reader i r (put_reader i r' b) = put_reader i r b"
  by (simp add: put_reader_def)

lemma put_reader_same: "readers b i = Some r \<Longrightarrow> put_reader i r b = b"
  by (simp add: put_reader_def fun_upd_idem)

lemma run_reader:
  "(reader_step f)\<^sup>*\<^sup>* r r' \<Longrightarrow> readers b i = Some r \<Longrightarrow> (bench_step f)\<^sup>*\<^sup>* b (put_reader i r' b)"
proof (induction rule: rtranclp_induct)
  case (step r1 r2)
  have "bench_step f (put_reader i r1 b) (put_reader i r2 (put_reader i r1 b))"
    by (rule run [OF _ step(2)]) simp
  with step show ?case by (simp add: rtranclp.rtrancl_into_rtrancl)
qed (simp add: put_reader_same)

lemma run_reader_calm:
  "(calm_reader_step f)\<^sup>*\<^sup>* r r' \<Longrightarrow> readers b i = Some r \<Longrightarrow> (calm_bench_step f)\<^sup>*\<^sup>* b (put_reader i r' b)"
proof (induction rule: rtranclp_induct)
  case (step r1 r2)
  have "bench_step f (put_reader i r1 b) (put_reader i r2 (put_reader i r1 b))"
    by (rule run [where r = r1]) (use step(2) in \<open>simp_all add: calm_reader_step_def\<close>)
  then have "calm_bench_step f (put_reader i r1 b) (put_reader i r2 b)"
    using step(2) by (auto simp: calm_bench_step_def calm_reader_step_def)
  with step show ?case by (simp add: rtranclp.rtrancl_into_rtrancl)
qed (simp add: put_reader_same)

lemma stopper_step_calm:
  assumes "bench_step f b b'" and "\<And>i r'. readers b' i = Some r' \<Longrightarrow> \<exists>r. readers b i = Some r \<and> reader_at r' = reader_at r"
  shows "calm_bench_step f b b'"
  using assms by (fastforce simp: calm_bench_step_def)

lemma bench_reach_readers: "bench_reach f I a b \<Longrightarrow> i \<in> I \<Longrightarrow> \<exists>r. readers b i = Some r"
  using bench_reach_inv [of f I a b] by (auto simp: bench_inv_def)

lemma stop_queue: "bench_reach f I a b \<Longrightarrow> queue_ok I (stopper b)"
  using bench_reach_inv [of f I a b] by (simp add: bench_inv_def)

lemma calm_reach_run: "(calm_bench_step f)\<^sup>*\<^sup>* b b' \<Longrightarrow> bench_reach f I a b \<Longrightarrow> bench_reach f I a b'"
  by (rule bench_reach_run [OF calm_run_bench])

lemma calm_reach_step: "calm_bench_step f b b' \<Longrightarrow> bench_reach f I a b \<Longrightarrow> bench_reach f I a b'"
  by (auto simp: calm_bench_step_def intro: bench_reach.step)

lemma release_to_next:
  assumes "bench_reach f I a b" and "stopper b = StopRelease i is"
  shows "\<exists>b'. calm_bench_step f b b' \<and> stopper b' = StopNext is"
proof -
  obtain r where "readers b i = Some r" using bench_reach_readers [OF assms(1), of i] stop_queue [OF assms(1)] assms(2) by auto
  then show ?thesis
    by (intro exI [of _ "(put_reader i (r\<lparr>tp_closes := tp_closes r + 1\<rparr>) b)\<lparr>stopper := StopNext is\<rparr>"] conjI
        stopper_step_calm [OF stop_release [OF assms(2)]]) (auto split: if_splits)
qed

lemma await_to_release:
  assumes "bench_reach f I a b" and "stopper b = StopAwait i is"
  shows "\<exists>b'. (calm_bench_step f)\<^sup>*\<^sup>* b b' \<and> stopper b' = StopRelease i is"
proof -
  obtain r where r: "readers b i = Some r" using bench_reach_readers [OF assms(1), of i] stop_queue [OF assms(1)] assms(2) by auto
  then have "0 < done_chan r" using bench_reader(2) [OF assms(1)] assms(2) by fastforce
  then obtain r' where r': "(calm_reader_step f)\<^sup>*\<^sup>* r r'" "reader_at r' = ReaderExited" using signalled_exits by blast
  let ?b = "put_reader i r' b"
  have run: "(calm_bench_step f)\<^sup>*\<^sup>* b ?b" by (rule run_reader_calm [OF r'(1) r])
  have "reader_ok f a r'" using bench_reader(1) [OF calm_reach_run [OF run assms(1)], of i] by simp
  then have "calm_bench_step f ?b (?b\<lparr>stopper := StopRelease i is\<rparr>)"
    using assms(2) r'(2) by (intro stopper_step_calm stop_await [where r = r']) (auto simp: reader_ok_def)
  with run show ?thesis by (intro exI [of _ "?b\<lparr>stopper := StopRelease i is\<rparr>"]) auto
qed

lemma next_to_await:
  assumes "bench_reach f I a b" and "stopper b = StopNext (i # is)"
  shows "\<exists>b'. calm_bench_step f b b' \<and> stopper b' = StopAwait i is"
proof -
  obtain r where "readers b i = Some r" using bench_reach_readers [OF assms(1), of i] stop_queue [OF assms(1)] assms(2) by auto
  then show ?thesis
    by (intro exI [of _ "(put_reader i (r\<lparr>done_chan := done_chan r + 1\<rparr>) b)\<lparr>stopper := StopAwait i is\<rparr>"] conjI
        stopper_step_calm [OF stop_signal [OF assms(2)]]) (auto split: if_splits)
qed

definition can_stop :: "'a user \<Rightarrow> 'a bench \<Rightarrow> bool" where
  "can_stop f b \<longleftrightarrow> (\<exists>b'. (calm_bench_step f)\<^sup>*\<^sup>* b b' \<and> stopper b' = AllStopped)"

lemma can_stop_run: "(calm_bench_step f)\<^sup>*\<^sup>* b b' \<Longrightarrow> can_stop f b' \<Longrightarrow> can_stop f b"
  unfolding can_stop_def by (blast intro: rtranclp_trans)

lemma stop_next_ends: "bench_reach f I a b \<Longrightarrow> stopper b = StopNext is \<Longrightarrow> can_stop f b"
proof (induction "is" arbitrary: b)
  case Nil
  from stopper_step_calm [OF stop_return [OF Nil(2)]] show ?case
    unfolding can_stop_def by (intro exI [of _ "b\<lparr>stopper := AllStopped\<rparr>"]) auto
next
  case (Cons i "is")
  obtain b1 where b1: "calm_bench_step f b b1" "stopper b1 = StopAwait i is" using next_to_await [OF Cons.prems] by blast
  note r1 = calm_reach_step [OF b1(1) Cons.prems(1)]
  obtain b2 where b2: "(calm_bench_step f)\<^sup>*\<^sup>* b1 b2" "stopper b2 = StopRelease i is" using await_to_release [OF r1 b1(2)] by blast
  note r2 = calm_reach_run [OF b2(1) r1]
  obtain b3 where b3: "calm_bench_step f b2 b3" "stopper b3 = StopNext is" using release_to_next [OF r2 b2(2)] by blast
  have "can_stop f b3" by (rule Cons.IH [OF calm_reach_step [OF b3(1) r2] b3(2)])
  with b1(1) b2(1) b3(1) show ?case by (meson can_stop_run r_into_rtranclp)
qed

lemma stopping_ends:
  assumes reach: "bench_reach f I a b" and "stopper b \<noteq> Armed"
  shows "can_stop f b"
proof (cases "stopper b")
  case (StopNext "is")
  then show ?thesis by (rule stop_next_ends [OF reach])
next
  case (StopRelease i "is")
  then obtain b1 where b1: "calm_bench_step f b b1" "stopper b1 = StopNext is" using release_to_next [OF reach] by blast
  then have "can_stop f b1" by (intro stop_next_ends [OF calm_reach_step [OF _ reach]])
  with b1(1) show ?thesis by (blast intro: can_stop_run)
next
  case (StopAwait i "is")
  then obtain b2 where b2: "(calm_bench_step f)\<^sup>*\<^sup>* b b2" "stopper b2 = StopRelease i is" using await_to_release [OF reach] by blast
  note r2 = calm_reach_run [OF b2(1) reach]
  obtain b3 where b3: "calm_bench_step f b2 b3" "stopper b3 = StopNext is" using release_to_next [OF r2 b2(2)] by blast
  then have "can_stop f b3" by (intro stop_next_ends [OF calm_reach_step [OF _ r2]])
  with b2(1) b3(1) show ?thesis by (meson can_stop_run r_into_rtranclp)
qed (use assms in \<open>auto simp: can_stop_def\<close>)

lemma stopping_can_begin:
  assumes "bench_reach f I a b" and "stopper b = Armed" and "finite I"
  shows "can_stop f b"
proof -
  obtain "is" where "is": "set is = dom (readers b)" "distinct is"
    using bench_reach_inv [OF assms(1)] finite_distinct_list [OF assms(3)] by (auto simp: bench_inv_def)
  let ?b = "b\<lparr>stopper := StopNext is\<rparr>"
  have step: "calm_bench_step f b ?b" by (rule stopper_step_calm [OF stop_call [OF assms(2) "is"]]) simp
  have "can_stop f ?b" by (rule stop_next_ends [OF calm_reach_step [OF step assms(1)]]) simp
  with step show ?thesis by (blast intro: can_stop_run)
qed

section \<open>What was read\<close>

lemma all_stopped_stuck:
  assumes "bench_reach f I a b" and "stopper b = AllStopped"
  shows "\<not> bench_step f b b'"
proof
  assume "bench_step f b b'"
  then show False
  proof cases
    case (run i r r')
    then show False
      using bench_reader [OF assms(1) run(2)] assms(2) reader_step_exited by (fastforce simp: reader_ok_def)
  qed (use assms(2) in simp_all)
qed

lemma all_stopped_final: "(bench_step f)\<^sup>*\<^sup>* b b' \<Longrightarrow> bench_reach f I a b \<Longrightarrow> stopper b = AllStopped \<Longrightarrow> b' = b"
  by (induction rule: rtranclp_induct) (auto dest: all_stopped_stuck)

definition is_data :: "clocked_round \<Rightarrow> bool" where
  "is_data rd \<longleftrightarrow> (case fst (snd rd) of ReadData b \<Rightarrow> True | _ \<Rightarrow> False)"

lemma count_step:
  "reader_step count_one r r' \<Longrightarrow> result r = length (filter is_data (rounds r)) \<Longrightarrow> result r' = length (filter is_data (rounds r'))"
  by (induction rule: reader_step.induct) (auto simp: count_one_def is_data_def)

lemma count_reach:
  "bench_reach count_one I 0 b \<Longrightarrow> readers b i = Some r \<Longrightarrow> result r = length (filter is_data (rounds r))"
proof (induction arbitrary: i r rule: bench_reach.induct)
  case init
  then show ?case by (auto simp: armed_def new_reader_def split: if_splits)
next
  case (step b b')
  from step(2,1,3,4) show ?case by cases (auto split: if_splits dest: count_step)
qed

lemma reader_step_rounds: "reader_step f r r' \<Longrightarrow> \<exists>new. rounds r' = rounds r @ new"
  by (induction rule: reader_step.induct) auto

lemma bench_run_rounds:
  "(bench_step f)\<^sup>*\<^sup>* b b' \<Longrightarrow> readers b i = Some r \<Longrightarrow> \<exists>r' new. readers b' i = Some r' \<and> rounds r' = rounds r @ new"
proof (induction rule: rtranclp_induct)
  case (step b1 b2)
  then obtain r1 new where r1: "readers b1 i = Some r1" "rounds r1 = rounds r @ new" by blast
  from step(2) r1 show ?case
    by cases (auto dest!: reader_step_rounds)
qed simp

section \<open>An example run\<close>

text \<open>A counter of host 2 that reads one frame and is stopped.\<close>

lemma counter_run:
  "\<exists>b1 b2 r1 r2. bench_reach count_one {2} 0 b1 \<and> readers b1 2 = Some r1 \<and> (bench_step count_one)\<^sup>*\<^sup>* b1 b2 \<and>
     stopper b2 = AllStopped \<and> readers b2 2 = Some r2 \<and> [] \<noteq> filter is_data (rounds r2)"
proof -
  let ?b = "armed {2} 0 :: nat bench" and ?r = "new_reader 0 :: nat reader"
  note init = bench_reach.init [of count_one "{2}" "0 :: nat"]
  have r: "readers ?b 2 = Some ?r" by (simp add: armed_def)
  let ?r1 = "?r\<lparr>reader_at := ReaderRead\<rparr>"
  let ?r2 = "?r1\<lparr>reader_at := ReaderHave [] 0\<rparr>"
  let ?r3 = "?r2\<lparr>reader_at := ReaderCheck, result := count_one 0 [] (result ?r2), rounds := rounds ?r2 @ [(False, ReadData [], 0)]\<rparr>"
  have "reader_step count_one ?r ?r1" by (rule go_on) (simp_all add: new_reader_def)
  moreover have "reader_step count_one ?r1 ?r2" by (rule read_data) simp
  moreover have "reader_step count_one ?r2 ?r3" by (rule use_data) simp
  ultimately have "(reader_step count_one)\<^sup>*\<^sup>* ?r ?r3"
    by (intro converse_rtranclp_into_rtranclp [of _ ?r ?r1] converse_rtranclp_into_rtranclp [of _ ?r1 ?r2] r_into_rtranclp)
  from run_reader [OF this r] have run: "(bench_step count_one)\<^sup>*\<^sup>* ?b (put_reader 2 ?r3 ?b)" .
  note reach = bench_reach_run [OF run init]
  have "can_stop count_one (put_reader 2 ?r3 ?b)" by (rule stopping_can_begin [OF reach]) (simp_all add: armed_def)
  then obtain b2 where b2: "(bench_step count_one)\<^sup>*\<^sup>* (put_reader 2 ?r3 ?b) b2" "stopper b2 = AllStopped"
    by (auto simp: can_stop_def dest: calm_run_bench)
  obtain r2 new where r2: "readers b2 2 = Some r2" "rounds r2 = rounds ?r3 @ new"
    using bench_run_rounds [OF b2(1), of 2 ?r3] by auto
  have "filter is_data (rounds r2) \<noteq> []" by (simp add: r2(2) is_data_def)
  with r init b2 r2(1) rtranclp_trans [OF run b2(1)] show ?thesis
    by - (rule exI [of _ ?b], rule exI [of _ b2], rule exI [of _ ?r], rule exI [of _ r2], simp)
qed

section \<open>Properties\<close>

text \<open>
  C37: The harness never reads from a closed handle. However the reading loops, the traffic and the one
  who stops them interleave, \<open>done\<close> and the handle of each reader are closed at most once, and the
  handle only after the loop has exited, so never while the loop reads or uses what it has read; when
  all have been stopped, every handle has been closed and every loop has exited.
\<close>
theorem readers_released_after_exit:
  assumes "bench_reach f I a b" and "readers b i = Some r"
  shows "done_chan r \<le> 1 \<and> tp_closes r \<le> 1 \<and> (0 < tp_closes r \<longrightarrow> reader_at r = ReaderExited) \<and>
         (stopper b = AllStopped \<longrightarrow> tp_closes r = 1 \<and> reader_at r = ReaderExited)"
  using bench_reader [OF assms] stage_ok_closes [OF bench_reader(2) [OF assms]] by (auto simp: reader_ok_def)

theorem readers_released_after_exit_witness:
  "\<exists>b r. bench_reach count_one {2} 0 b \<and> readers b 2 = Some r \<and> tp_closes r = 1 \<and> reader_at r = ReaderExited"
proof -
  obtain b1 b2 r2 where "bench_reach count_one {2} 0 b1" "(bench_step count_one)\<^sup>*\<^sup>* b1 b2" "stopper b2 = AllStopped"
    "readers b2 2 = Some r2" using counter_run by (elim exE conjE)
  note b2 = bench_reach_run [OF this(2,1)] and r2 = this(3,4)
  show ?thesis using readers_released_after_exit [OF b2 r2(2)] b2 r2 by (intro exI [of _ b2] exI [of _ r2]) simp
qed

text \<open>
  C38: Stopping terminates, and does not rest on a read that happens to fail. From every reachable state,
  and in whatever order the readers are taken, \<open>Close\<close> or \<open>stop\<close> can run to its return while every read
  in progress times out or gives a frame. While it waits for a reader, that reader makes at most three
  more steps however it goes on, and where it has not yet exited it has a next step that is no fault.
\<close>
theorem stopping_terminates:
  assumes "finite I" and "bench_reach f I a b"
  shows "(\<exists>b'. (calm_bench_step f)\<^sup>*\<^sup>* b b' \<and> stopper b' = AllStopped) \<and>
         (\<forall>i is r n r'. stopper b = StopAwait i is \<and> readers b i = Some r \<and> (reader_step f ^^ n) r r' \<longrightarrow>
            n \<le> 3 \<and> (reader_at r' \<noteq> ReaderExited \<longrightarrow> (\<exists>r''. calm_reader_step f r' r'')))"
proof (intro conjI allI impI)
  have "can_stop f b"
    using assms by (cases "stopper b = Armed") (simp_all add: stopping_ends [of f I a b] stopping_can_begin [of f I a b])
  then show "\<exists>b'. (calm_bench_step f)\<^sup>*\<^sup>* b b' \<and> stopper b' = AllStopped" by (simp add: can_stop_def)
next
  fix i "is" r n r'
  assume a: "stopper b = StopAwait i is \<and> readers b i = Some r \<and> (reader_step f ^^ n) r r'"
  then have "0 < done_chan r" using bench_reader(2) [OF assms(2), of i r] by auto
  then show "n \<le> 3" using signalled_run [of n f r r'] a reader_rank_3 [of "reader_at r"] by linarith
  show "\<exists>r''. calm_reader_step f r' r''" if "reader_at r' \<noteq> ReaderExited" using reader_can_step [OF that] .
qed

theorem stopping_terminates_witness:
  "\<exists>b'. (calm_bench_step keep_copy)\<^sup>*\<^sup>* (armed {2, 3, 4} []) b' \<and> stopper b' = AllStopped"
  using stopping_terminates [of "{2, 3, 4}" keep_copy "[]" "armed {2, 3, 4} []"]
    bench_reach.init [of keep_copy "{2, 3, 4}" "[]"] by simp

text \<open>
  What the readers collected is what the sequential loops compute from the rounds they made: the
  captured frames, the count and the latency samples, in every reachable state; and once a bench has
  been stopped nothing in it changes any more.
\<close>
theorem readers_compute_loops:
  assumes "bench_reach keep_copy I [] caps" and "readers caps i = Some cap"
    and "bench_reach count_one I 0 counters" and "readers counters i = Some cnt"
    and "bench_reach (add_sample layers) I [] receivers" and "readers receivers i = Some rx"
  shows "result cap = capture_loop (map (\<lambda>(d, r, now). (d, r)) (rounds cap)) [] \<and>
         result cnt = counter_loop (map (\<lambda>(d, r, now). (d, r)) (rounds cnt)) 0 \<and>
         sort_Slice sint (result rx) = Latency layers (rounds rx) \<and>
         (stopper caps = AllStopped \<longrightarrow> (\<forall>caps'. (bench_step keep_copy)\<^sup>*\<^sup>* caps caps' \<longrightarrow> caps' = caps))"
  using bench_reader(1) [OF assms(1,2)] bench_reader(1) [OF assms(3,4)] bench_reader(1) [OF assms(5,6)]
    all_stopped_final [OF _ assms(1)]
  by (auto simp: reader_ok_def capture_loop_reader counter_loop_reader latency_loop_reader Latency_def)

theorem readers_compute_loops_witness:
  "\<exists>b r. bench_reach count_one {2} 0 b \<and> stopper b = AllStopped \<and> readers b 2 = Some r \<and>
     result r = counter_loop (map (\<lambda>(d, r, now). (d, r)) (rounds r)) 0 \<and> 0 < result r"
proof -
  obtain b1 b2 r2 where r: "bench_reach count_one {2} 0 b1" "(bench_step count_one)\<^sup>*\<^sup>* b1 b2" "stopper b2 = AllStopped"
    "readers b2 2 = Some r2" "[] \<noteq> filter is_data (rounds r2)" using counter_run by (elim exE conjE)
  note b2 = bench_reach_run [OF r(2,1)]
  have "0 < result r2" using count_reach [OF b2 r(4)] r(5) by simp
  moreover have "result r2 = counter_loop (map (\<lambda>(d, r, now). (d, r)) (rounds r2)) 0"
    using readers_compute_loops [OF bench_reach.init _ b2 r(4) bench_reach.init, where cap = "new_reader []" and
        layers = wire_layers_of and rx = "new_reader []"]
    by (simp add: armed_def)
  ultimately show ?thesis using b2 r by (intro exI [of _ b2] exI [of _ r2]) simp
qed

text \<open>
  The throughput window. The received count of a run is the number of frames the counter read
  after its first reading of the count and before it was stopped, whatever had been counted before
  (modulo \<open>2 ^ 64\<close>): the frames of the warm-up that were counted in time are left out.
\<close>
theorem throughput_counts_window:
  assumes "bench_reach count_one I 0 b1" and "readers b1 i = Some r1" and "(bench_step count_one)\<^sup>*\<^sup>* b1 b2"
    and "stopper b2 = AllStopped" and "readers b2 i = Some r2"
  shows "\<exists>new. rounds r2 = rounds r1 @ new \<and>
     RX (Throughput frameSize d targetPPS full tick paced (of_nat (result r1)) (of_nat (result r2)) elapsed) =
       of_nat (length (filter is_data new))"
proof -
  obtain new where "rounds r2 = rounds r1 @ new" using bench_run_rounds [OF assms(3,2)] assms(5) by auto
  then show ?thesis
    using count_reach [OF assms(1,2)] count_reach [OF bench_reach_run [OF assms(3,1)] assms(5)]
    by (simp add: Throughput_def Let_def)
qed

theorem throughput_counts_window_witness:
  "\<exists>b1 b2 r1 r2 new. bench_reach count_one {2} 0 b1 \<and> readers b1 2 = Some r1 \<and>
     (bench_step count_one)\<^sup>*\<^sup>* b1 b2 \<and> readers b2 2 = Some r2 \<and> stopper b2 = AllStopped \<and> rounds r2 = rounds r1 @ new \<and>
     RX (Throughput 64 1000 0 [(0, True)] 0 [] (of_nat (result r1)) (of_nat (result r2)) 1000) = of_nat (length (filter is_data new))"
proof -
  obtain b1 b2 r1 r2 where r: "bench_reach count_one {2} 0 b1" "readers b1 2 = Some r1" "(bench_step count_one)\<^sup>*\<^sup>* b1 b2"
    "stopper b2 = AllStopped" "readers b2 2 = Some r2" using counter_run by (elim exE conjE)
  obtain new where "rounds r2 = rounds r1 @ new"
    "RX (Throughput 64 1000 0 [(0, True)] 0 [] (of_nat (result r1)) (of_nat (result r2)) 1000) = of_nat (length (filter is_data new))"
    using throughput_counts_window [OF r, of 64 1000 0 "[(0, True)]" 0 "[]" 1000] by (elim exE conjE)
  with r show ?thesis by - (rule exI [of _ b1], rule exI [of _ b2], rule exI [of _ r1], rule exI [of _ r2], rule exI [of _ new], intro conjI)
qed

end
