(* ===== verification/BenchCalls.thy ===== *)
theory BenchCalls
  imports Topology Reader
begin

text \<open>
  The sockets of the probes and measurements, as traces of system calls in the manner of theory \<open>Os\<close>:
  \<open>Inject\<close>, \<open>Capture\<close> and \<open>Captures.Close\<close> (\<open>internal/harness/probe.go\<close>), \<open>newSender\<close>, \<open>newCounter\<close>, \<open>stop\<close>
  and the outlines of \<open>Throughput\<close> and \<open>Latency\<close> (\<open>perf.go\<close>). \<open>None\<close> or \<open>False\<close> is \<open>t.Fatalf\<close>: the test's
  goroutine ends, after its deferred calls. How long the loops send is decided elsewhere (theory
  \<open>Perf\<close>); here the number of writes is an argument. What the readers do with their sockets is the
  subject of theory \<open>Reader\<close>.
\<close>

section \<open>Probes\<close>

definition captureOpts :: "string \<Rightarrow> tp_opt list" where
  "captureOpts ifname =
     [OptInterface ifname, OptFrameSize 4096, OptBlockSize (4096 * 8), OptNumBlocks 8, OptBlockTimeout 10,
      OptPollTimeout 10, OptAddVLANHeader True]"

definition Inject_calls :: "os_oracle \<Rightarrow> Topology \<Rightarrow> nat \<Rightarrow> frame \<Rightarrow> trace \<Rightarrow> bool \<times> trace" where
  "Inject_calls orc topo hostIdx frm tr =
     (case find_host topo hostIdx of
        None \<Rightarrow> (False, tr)
      | Some h \<Rightarrow>
          (case openInNetns orc (NS h) [OptInterface (IfName h)] tr of
             (None, tr1) \<Rightarrow> (False, tr1)
           | (Some tp, tr1) \<Rightarrow> (let (ok, tr2) = call orc (WriteTP tp frm) tr1 in (ok, tr2 @ [CloseTP tp]))))"

text \<open>A host, its namespace, a socket with these options and a filter.\<close>

definition open_filtered ::
  "os_oracle \<Rightarrow> Topology \<Rightarrow> nat \<Rightarrow> (string \<Rightarrow> tp_opt list) \<Rightarrow> bpf_insn list \<Rightarrow> trace \<Rightarrow> nat option \<times> trace" where
  "open_filtered orc topo i opts prog tr =
     (case find_host topo i of
        None \<Rightarrow> (None, tr)
      | Some h \<Rightarrow>
          (case openInNetns orc (NS h) (opts (IfName h)) tr of
             (None, tr1) \<Rightarrow> (None, tr1)
           | (Some tp, tr1) \<Rightarrow>
               (let (ok, tr2) = call orc (SetBPF tp prog) tr1 in ((if ok then Some tp else None), tr2))))"

fun Capture_calls ::
  "os_oracle \<Rightarrow> Topology \<Rightarrow> nat list \<Rightarrow> (nat \<rightharpoonup> nat) \<Rightarrow> trace \<Rightarrow> (nat \<rightharpoonup> nat) option \<times> trace" where
  "Capture_calls orc topo [] caps tr = (Some caps, tr)"
| "Capture_calls orc topo (i # is) caps tr =
     (case open_filtered orc topo i captureOpts inboundFilter tr of
        (None, tr1) \<Rightarrow> (None, tr1)
      | (Some tp, tr1) \<Rightarrow> Capture_calls orc topo is (caps(i \<mapsto> tp)) tr1)"

definition Captures_Close_calls :: "(nat \<rightharpoonup> nat) \<Rightarrow> nat list \<Rightarrow> trace \<Rightarrow> trace" where
  "Captures_Close_calls caps order tr = close_all (map (\<lambda>i. the (caps i)) order) tr"

section \<open>Measurements\<close>

definition senderOpts :: "string \<Rightarrow> tp_opt list" where
  "senderOpts ifname =
     [OptInterface ifname, OptFrameSize 2048, OptBlockSize 4096, OptNumBlocks 4, OptBlockTimeout 10, OptPollTimeout 10]"

definition counterOpts :: "string \<Rightarrow> tp_opt list" where
  "counterOpts ifname = [OptInterface ifname, OptPollTimeout 20]"

definition latencyOpts :: "string \<Rightarrow> tp_opt list" where
  "latencyOpts ifname =
     [OptInterface ifname, OptTPacketVersion 2, OptFrameSize 2048, OptBlockSize 4096, OptNumBlocks 64,
      OptBlockTimeout 1, OptPollTimeout 2]"

definition newSender_calls :: "os_oracle \<Rightarrow> Topology \<Rightarrow> nat \<Rightarrow> trace \<Rightarrow> nat option \<times> trace" where
  "newSender_calls orc topo i tr =
     (case find_host topo i of
        None \<Rightarrow> (None, tr)
      | Some h \<Rightarrow> openInNetns orc (NS h) (senderOpts (IfName h)) tr)"

definition newCounter_calls :: "os_oracle \<Rightarrow> Topology \<Rightarrow> nat \<Rightarrow> trace \<Rightarrow> nat option \<times> trace" where
  "newCounter_calls orc topo i tr = open_filtered orc topo i counterOpts perfBPF tr"

text \<open>Sending ignores errors but counts the successes.\<close>

fun write_frames :: "os_oracle \<Rightarrow> nat \<Rightarrow> frame list \<Rightarrow> trace \<Rightarrow> nat \<times> trace" where
  "write_frames orc tp [] tr = (0, tr)"
| "write_frames orc tp (b # bs) tr =
     (let (ok, tr1) = call orc (WriteTP tp b) tr;
          (tx, tr2) = write_frames orc tp bs tr1
      in ((if ok then tx + 1 else tx), tr2))"

definition Throughput_calls ::
  "os_oracle \<Rightarrow> Topology \<Rightarrow> nat \<Rightarrow> nat \<Rightarrow> frame \<Rightarrow> nat \<Rightarrow> trace \<Rightarrow> nat option \<times> trace" where
  "Throughput_calls orc topo srcIdx dstIdx frm sends tr =
     (case newSender_calls orc topo srcIdx tr of
        (None, tr1) \<Rightarrow> (None, tr1)
      | (Some s, tr1) \<Rightarrow>
          (case newCounter_calls orc topo dstIdx tr1 of
             (None, tr2) \<Rightarrow> (None, tr2)
           | (Some c, tr2) \<Rightarrow>
               (let (_, tr3) = write_frames orc s (replicate 200 frm) tr2;
                    (tx, tr4) = write_frames orc s (replicate sends frm) tr3
                in (Some tx, tr4 @ [CloseTP c, CloseTP s]))))"

definition Latency_calls ::
  "os_oracle \<Rightarrow> Topology \<Rightarrow> nat \<Rightarrow> nat \<Rightarrow> frame list \<Rightarrow> trace \<Rightarrow> bool \<times> trace" where
  "Latency_calls orc topo srcIdx dstIdx frames tr =
     (case newSender_calls orc topo srcIdx tr of
        (None, tr1) \<Rightarrow> (False, tr1)
      | (Some s, tr1) \<Rightarrow>
          (case open_filtered orc topo dstIdx latencyOpts perfBPF tr1 of
             (None, tr2) \<Rightarrow> (False, tr2)
           | (Some rx, tr2) \<Rightarrow>
               (let (_, tr3) = write_frames orc s frames tr2 in (True, tr3 @ [CloseTP rx, CloseTP s]))))"

section \<open>Balance\<close>

text \<open>Between two points of a trace, the sockets opened and those closed.\<close>

definition opens_closes :: "os_oracle \<Rightarrow> trace \<Rightarrow> trace \<Rightarrow> nat list \<Rightarrow> nat list \<Rightarrow> bool" where
  "opens_closes orc tr tr' new old \<longleftrightarrow> opened orc tr' = opened orc tr @ new \<and> closed_by tr' = closed_by tr @ old"

definition balanced :: "os_oracle \<Rightarrow> trace \<Rightarrow> trace \<Rightarrow> bool" where
  "balanced orc tr tr' \<longleftrightarrow> (\<exists>new old. opens_closes orc tr tr' new old \<and> mset old = mset new)"

lemma balancedI: "opens_closes orc tr tr' new old \<Longrightarrow> mset old = mset new \<Longrightarrow> balanced orc tr tr'"
  by (auto simp: balanced_def)

lemma opens_closes_refl [simp]: "opens_closes orc tr tr [] []"
  by (simp add: opens_closes_def)

lemma opens_closes_trans:
  "opens_closes orc tr1 tr2 n1 o1 \<Longrightarrow> opens_closes orc tr2 tr3 n2 o2 \<Longrightarrow> opens_closes orc tr1 tr3 (n1 @ n2) (o1 @ o2)"
  by (simp add: opens_closes_def)

lemma opens_closes_calls:
  "\<not> is_open c \<Longrightarrow> opens_closes orc tr (tr @ [c]) [] (closes_of c)"
  by (simp add: opens_closes_def)

lemma opens_closes_closing: "opens_closes orc tr (close_all hs tr) [] hs"
  by (simp add: opens_closes_def)

lemma opens_closes_2: "opens_closes orc tr (tr @ [CloseTP a, CloseTP b]) [] [a, b]"
  using opens_closes_closing [of orc tr "[a, b]"] by (simp add: close_all_def)

lemma openInNetns_opens:
  "openInNetns orc ns opts tr = (r, tr') \<Longrightarrow> opens_closes orc tr tr' (case r of None \<Rightarrow> [] | Some h \<Rightarrow> [h]) []"
  using openInNetns_cases [of orc ns opts tr r tr'] by (simp add: opens_closes_def)

lemma open_filtered_opens:
  "open_filtered orc topo i opts prog tr = (Some tp, tr') \<Longrightarrow> opens_closes orc tr tr' [tp] []"
  by (auto simp: open_filtered_def Let_def opens_closes_def dest: openInNetns_cases split: option.splits prod.splits if_splits)

lemma newSender_opens: "newSender_calls orc topo i tr = (Some tp, tr') \<Longrightarrow> opens_closes orc tr tr' [tp] []"
  using openInNetns_opens by (fastforce simp: newSender_calls_def split: option.splits)

lemma write_frames_opens: "write_frames orc tp bs tr = (n, tr') \<Longrightarrow> opens_closes orc tr tr' [] []"
proof (induction bs arbitrary: n tr)
  case (Cons b bs)
  obtain m where w: "write_frames orc tp bs (tr @ [WriteTP tp b]) = (m, tr')"
    using Cons.prems by (auto simp: call_def Let_def split: prod.splits)
  have "opens_closes orc tr (tr @ [WriteTP tp b]) [] []" using opens_closes_calls [of "WriteTP tp b" orc tr] by simp
  from opens_closes_trans [OF this Cons.IH [OF w]] show ?case by simp
qed simp

lemma map_upds_lookup:
  "distinct is \<Longrightarrow> length is = length hs \<Longrightarrow> map (\<lambda>i. the ((m(is [\<mapsto>] hs)) i)) is = hs"
proof (induction "is" hs arbitrary: m rule: list_induct2')
  case (4 i "is" h hs)
  then have "map (\<lambda>j. the (if j = i then Some h else (m(is [\<mapsto>] hs)) j)) is = map (\<lambda>j. the ((m(is [\<mapsto>] hs)) j)) is"
    by (intro map_cong) auto
  with 4 show ?case by (simp add: map_upds_twist)
qed simp_all

lemma Capture_opens:
  "Capture_calls orc topo is caps tr = (Some caps', tr') \<Longrightarrow>
     \<exists>hs. opens_closes orc tr tr' hs [] \<and> length hs = length is \<and> caps' = caps(is [\<mapsto>] hs)"
proof (induction "is" arbitrary: caps tr)
  case (Cons i "is")
  then obtain tp tr1 where o: "open_filtered orc topo i captureOpts inboundFilter tr = (Some tp, tr1)"
      "Capture_calls orc topo is (caps(i \<mapsto> tp)) tr1 = (Some caps', tr')"
    by (auto split: prod.splits option.splits)
  obtain hs where "opens_closes orc tr1 tr' hs []" "length hs = length is" "caps' = caps(i \<mapsto> tp, is [\<mapsto>] hs)"
    using Cons.IH [OF o(2)] by blast
  with opens_closes_trans [OF open_filtered_opens [OF o(1)]] show ?case by (intro exI [of _ "tp # hs"]) fastforce
qed simp

lemma Inject_balanced: "balanced orc tr (snd (Inject_calls orc topo i frm tr))"
proof (cases "find_host topo i")
  case (Some h)
  obtain r tr1 where o: "openInNetns orc (NS h) [OptInterface (IfName h)] tr = (r, tr1)" by fastforce
  note opens = openInNetns_opens [OF o]
  show ?thesis
  proof (cases r)
    case None
    with opens show ?thesis by (auto simp: Inject_calls_def Some o balanced_def)
  next
    case (Some tp)
    have "opens_closes orc tr1 ((tr1 @ [WriteTP tp frm]) @ [CloseTP tp]) [] [tp]"
      by (simp add: opens_closes_def del: append_assoc)
    from opens_closes_trans [OF opens this] \<open>find_host topo i = Some h\<close> Some o show ?thesis
      by (auto simp: Inject_calls_def call_def Let_def balanced_def)
  qed
qed (auto simp: Inject_calls_def balanced_def opens_closes_def)

lemma Throughput_balanced:
  assumes "Throughput_calls orc topo a b frm sends tr = (Some tx, tr')"
  shows "balanced orc tr tr'"
proof -
  obtain s tr1 where s: "newSender_calls orc topo a tr = (Some s, tr1)"
    using assms by (auto simp: Throughput_calls_def split: prod.splits option.splits)
  obtain c tr2 where c: "newCounter_calls orc topo b tr1 = (Some c, tr2)"
    using assms s by (auto simp: Throughput_calls_def split: prod.splits option.splits)
  obtain n tr3 where w: "write_frames orc s (replicate 200 frm) tr2 = (n, tr3)" by fastforce
  obtain m tr4 where w': "write_frames orc s (replicate sends frm) tr3 = (m, tr4)" by fastforce
  have tr': "tr' = tr4 @ [CloseTP c, CloseTP s]"
    using assms by (simp add: Throughput_calls_def s c w w' Let_def)
  have "opens_closes orc tr tr' ([s] @ [c] @ [] @ [] @ []) ([] @ [] @ [] @ [] @ [c, s])"
    unfolding tr'
    by (intro opens_closes_trans [OF newSender_opens [OF s]] opens_closes_trans [OF open_filtered_opens [OF c [unfolded newCounter_calls_def]]]
        opens_closes_trans [OF write_frames_opens [OF w]] opens_closes_trans [OF write_frames_opens [OF w']] opens_closes_2)
  then show ?thesis by (rule balancedI) (simp add: add_mset_commute)
qed

lemma Latency_balanced:
  assumes "Latency_calls orc topo a b frames tr = (True, tr')"
  shows "balanced orc tr tr'"
proof -
  obtain s tr1 where s: "newSender_calls orc topo a tr = (Some s, tr1)"
    using assms by (auto simp: Latency_calls_def split: prod.splits option.splits)
  obtain c tr2 where c: "open_filtered orc topo b latencyOpts perfBPF tr1 = (Some c, tr2)"
    using assms s by (auto simp: Latency_calls_def split: prod.splits option.splits)
  obtain n tr3 where w: "write_frames orc s frames tr2 = (n, tr3)" by fastforce
  have tr': "tr' = tr3 @ [CloseTP c, CloseTP s]" using assms by (simp add: Latency_calls_def s c w)
  have "opens_closes orc tr tr' ([s] @ [c] @ [] @ []) ([] @ [] @ [] @ [c, s])"
    unfolding tr'
    by (intro opens_closes_trans [OF newSender_opens [OF s]] opens_closes_trans [OF open_filtered_opens [OF c]]
        opens_closes_trans [OF write_frames_opens [OF w]] opens_closes_2)
  then show ?thesis by (rule balancedI) (simp add: add_mset_commute)
qed

lemma Captures_balanced:
  assumes "Capture_calls orc topo is Map.empty tr = (Some caps, tr1)" and "distinct is"
    and "set order = dom caps" and "distinct order"
  shows "balanced orc tr (Captures_Close_calls caps order tr1)"
proof -
  obtain hs where hs: "opens_closes orc tr tr1 hs []" "length hs = length is" "caps = [is [\<mapsto>] hs]"
    using Capture_opens [OF assms(1)] by blast
  have "dom caps = set is" using hs by simp
  then have "mset order = mset is" using assms by (simp add: set_eq_iff_mset_eq_distinct)
  then have "mset (map (\<lambda>i. the (caps i)) order) = mset (map (\<lambda>i. the (caps i)) is)" by (metis mset_map)
  also have "\<dots> = mset hs" using map_upds_lookup [OF assms(2), of hs Map.empty] hs by simp
  finally show ?thesis
    unfolding Captures_Close_calls_def
    by (intro balancedI [OF opens_closes_trans [OF hs(1) opens_closes_closing]]) simp
qed

section \<open>Properties\<close>


definition all_ok :: os_oracle where
  "all_ok tr c \<longleftrightarrow> True"

definition two_hosts :: Topology where
  "two_hosts = NewTopology 1 1 [\<lparr>spec_IP = [], spec_AccessVID = 0, spec_Trunk = []\<rparr>, \<lparr>spec_IP = [], spec_AccessVID = 0, spec_Trunk = []\<rparr>]"

lemma find_two_hosts:
  "find_host two_hosts (Suc 0) = Some (new_host (topo_prefix 1 1) 0 \<lparr>spec_IP = [], spec_AccessVID = 0, spec_Trunk = []\<rparr>)"
  "find_host two_hosts 2 = Some (new_host (topo_prefix 1 1) 1 \<lparr>spec_IP = [], spec_AccessVID = 0, spec_Trunk = []\<rparr>)"
  unfolding two_hosts_def by (simp_all add: find_host_new)


text \<open>
  A test that fails inside \<open>Capture\<close> leaves sockets open: when the filter of the second capture cannot be
  installed, neither the socket it was for nor that of the first capture, whose loop keeps reading,
  is closed by anyone. The same holds of the sender when \<open>newCounter\<close> fails.
\<close>

definition second_filter_fails :: os_oracle where
  "second_filter_fails tr c \<longleftrightarrow> c \<noteq> SetBPF 11 inboundFilter"

lemma failed_capture_leaks:
  "fst (Capture_calls second_filter_fails two_hosts [1, 2] Map.empty []) = None \<and>
   opened second_filter_fails (snd (Capture_calls second_filter_fails two_hosts [1, 2] Map.empty [])) = [3, 11] \<and>
   closed_by (snd (Capture_calls second_filter_fails two_hosts [1, 2] Map.empty [])) = []"
  by (simp add: open_filtered_def find_two_hosts openInNetns_def call_def Let_def second_filter_fails_def
      opened_append [where tr = "[]", simplified] inboundFilter_def)

end
