(* ===== verification/Tagging.thy ===== *)
theory Tagging
  imports Runs
begin

text \<open>
  Tags on egress, for any packet library that meets the contract \<open>frame_codec\<close>: what a receiver
  decodes from the bytes the engine writes. The lemma about one egress frame is proved inside the
  contract; the properties of the engine follow with \<open>forward_refines\<close>.
\<close>

section \<open>One egress frame\<close>

definition carries :: "frameParser \<Rightarrow> u16 \<Rightarrow> byte list \<Rightarrow> bool" where
  "carries fp t pl \<longleftrightarrow>
     (if LayerTypeDot1Q \<in> set (dec fp)
      then Dot1Q_Type (dot1q fp) = t \<and> take (length pl) (dot1q_Payload (dot1q fp)) = pl
      else EthernetType (eth fp) = t \<and> take (length pl) (eth_Payload (eth fp)) = pl)"

definition decoded_as :: "portRole \<Rightarrow> frameParser \<Rightarrow> frameView \<Rightarrow> u16 \<Rightarrow> bool" where
  "decoded_as r fp fv vid \<longleftrightarrow>
     (if r = roleTrunk then decoded_tagged fp (dst fv) (src fv) vid
      else decoded_untagged fp (dst fv) (src fv)) \<and> carries fp (innerType fv) (payload fv)"

lemma ingress_view:
  assumes "ingress decode p frm = Some (vid, fv)"
  shows "fv = view_of (decode (parser p) frm) (LayerTypeDot1Q \<in> set (dec (decode (parser p) frm))) frm"
    "LayerTypeEthernet \<in> set (dec (decode (parser p) frm))"
  using assms by (auto simp: ingress_def Let_def split: if_splits)

context frame_codec
begin

lemma ingress_decoded:
  assumes "ingress decode p frm = Some (vid, fv)"
  shows "hasTag fv \<Longrightarrow> decoded_tagged (decode fp frm) (dst fv) (src fv) (tagVID fv)"
    and "\<not> hasTag fv \<Longrightarrow> decoded_untagged (decode fp frm) (dst fv) (src fv)"
    and "carries (decode fp frm) (innerType fv) (payload fv)"
proof -
  note v = ingress_view [OF assms]
  show "decoded_tagged (decode fp frm) (dst fv) (src fv) (tagVID fv)" if "hasTag fv"
    by (rule decoded_tagged_reset [of "parser p"])
      (use that v in \<open>auto simp: decoded_tagged_def\<close>)
  show "decoded_untagged (decode fp frm) (dst fv) (src fv)" if "\<not> hasTag fv"
    by (rule decoded_untagged_reset [of "parser p"])
      (use that v in \<open>auto simp: decoded_untagged_def\<close>)
  have "carries (decode (parser p) frm) (innerType fv) (payload fv)"
    using v by (auto simp: carries_def view_of_def Let_def)
  then show "carries (decode fp frm) (innerType fv) (payload fv)"
    using decode_reset [of "parser p" frm fp] v(2) by (auto simp: carries_def split: if_splits)
qed

lemma egress_frame_decoded:
  assumes acc: "ingress decode p frm = Some (vid, fv)"
    and opaque: "0x600 \<le> innerType fv" "\<not> vlan_type (innerType fv)"
    and trunk: "r = roleTrunk \<Longrightarrow> vid < 0x1000" "r = roleTrunk \<Longrightarrow> hasTag fv \<Longrightarrow> tagVID fv = vid"
  shows "decoded_as r (decode fp (egress_frame ser r fv vid)) fv vid"
proof -
  have len: "length (dst fv) = 6" "length (src fv) = 6" and raw: "raw fv = frm"
    using ingress_SomeD [OF acc] by simp_all
  consider (verbatim) "(r = roleTrunk) = hasTag fv"
    | (tag) "r = roleTrunk" "\<not> hasTag fv" | (untag) "r \<noteq> roleTrunk" "hasTag fv" by blast
  then show ?thesis
  proof cases
    case verbatim
    then have "egress_frame ser r fv vid = frm" by (simp add: egress_frame_def raw Let_def)
    then show ?thesis
      using ingress_decoded [OF acc, of fp] verbatim trunk by (auto simp: decoded_as_def)
  next
    case tag
    let ?b = "egress_frame ser r fv vid"
    have b: "?b = buildTagged ser (dst fv) (src fv) vid (innerType fv) (payload fv)"
      using tag by (simp add: egress_frame_def Let_def)
    have "decoded_tagged (decode fp ?b) (dst fv) (src fv) vid \<and>
        Dot1Q_Type (dot1q (decode fp ?b)) = innerType fv \<and>
        take (length (payload fv)) (dot1q_Payload (dot1q (decode fp ?b))) = payload fv"
      by (rule decode_ser_tagged [OF len trunk(1) opaque])
        (use tag b in \<open>simp_all add: buildTagged_def\<close>)
    then show ?thesis using tag by (auto simp: decoded_as_def carries_def decoded_tagged_def)
  next
    case untag
    let ?b = "egress_frame ser r fv vid"
    have b: "?b = buildUntagged ser (dst fv) (src fv) (innerType fv) (payload fv)"
      using untag by (simp add: egress_frame_def Let_def)
    have "decoded_untagged (decode fp ?b) (dst fv) (src fv) \<and>
        EthernetType (eth (decode fp ?b)) = innerType fv \<and>
        take (length (payload fv)) (eth_Payload (eth (decode fp ?b))) = payload fv"
      by (rule decode_ser_untagged [OF len opaque]) (use b in \<open>simp add: buildUntagged_def\<close>)
    then show ?thesis using untag by (auto simp: decoded_as_def carries_def decoded_untagged_def)
  qed
qed

lemma egress_verbatim_decoded:
  assumes acc: "ingress decode p frm = Some (vid, fv)" and same: "(r = roleTrunk) = hasTag fv"
    and tag: "hasTag fv \<Longrightarrow> tagVID fv = vid"
  shows "egress_frame ser r fv vid = frm" and "decoded_as r (decode fp frm) fv vid"
  using ingress_decoded [OF acc, of fp] ingress_SomeD [OF acc] same tag by (auto simp: egress_frame_def decoded_as_def)

end

section \<open>The engine\<close>

lemma forward_writes:
  assumes "engine_wf e" and "forward decode ser ops i frm now e = Some e'"
    and "ingress decode (ports e ! i) frm = Some (vid, fv)"
    and "wire e' = wire e @ ws" and "(j, pkt, ok) \<in> set ws"
  shows "pkt = egress_frame ser (role (ports e ! j)) fv vid" and "j < length (ports e)"
proof -
  have acc: "untimed ws = wire_frames ser e fv vid (destinations e i vid fv now)"
    using assms(1,2) by (cases rule: forward_Some_cases) (use assms(3,4) in auto)
  have "(j, pkt) \<in> set (untimed ws)" using assms(5) by (force simp: untimed_def)
  then have w: "(j, pkt) \<in> set (wire_frames ser e fv vid (destinations e i vid fv now))" by (simp add: acc)
  then show "pkt = egress_frame ser (role (ports e ! j)) fv vid" by (auto simp: wire_frames_def)
  have "j \<in> set (destinations e i vid fv now)" using w by (auto simp: wire_frames_def)
  then have "in_vlan e vid j"
    using destinations_in_vlan(1) [OF assms(1) ingress_in_vlan [OF forward_index [OF assms(2)] assms(3)]] by blast
  then show "j < length (ports e)" by (simp add: in_vlan_def)
qed

text \<open>
  C16: Tags on egress. On a VLAN-aware switch every copy of an accepted frame leaves through a trunk
  port or an access port. When the frame arrived in the form its egress port wants (tagged for a
  trunk, untagged for an access port) the copy is the frame received, byte for byte; otherwise it is
  rebuilt, with the tag of the frame's VLAN or without a tag. A receiver decodes the copy as the
  port's role demands, with the addresses, the inner EtherType and the payload of the frame received,
  when the copy is not rebuilt; or when it is, the VLAN fits 12 bits, and the inner EtherType is a
  protocol number (at least 0x600, so the frame is not in 802.3 length format) and not that of a
  further tag. The packet library is assumed to meet its codec contract.
\<close>

theorem egress_tag_matches_role:
  assumes codec: "frame_codec decode ser vlan_type" and wf: "engine_wf e" and aware: "vlanAware e"
    and fwd: "forward decode ser ops i frm now e = Some e'"
    and acc: "ingress decode (ports e ! i) frm = Some (vid, fv)"
    and wire: "wire e' = wire e @ ws" "(j, pkt, ok) \<in> set ws"
  shows "(role (ports e ! j) = roleTrunk \<or> role (ports e ! j) = roleAccess) \<and>
     pkt = (if role (ports e ! j) = roleTrunk \<and> \<not> hasTag fv
              then buildTagged ser (dst fv) (src fv) vid (innerType fv) (payload fv)
            else if role (ports e ! j) = roleAccess \<and> hasTag fv
              then buildUntagged ser (dst fv) (src fv) (innerType fv) (payload fv)
            else frm) \<and>
     ((role (ports e ! j) = roleTrunk) = hasTag fv \<or> vid < 0x1000 \<and> 0x600 \<le> innerType fv \<and> \<not> vlan_type (innerType fv) \<longrightarrow>
        (role (ports e ! j) = roleTrunk \<longrightarrow> decoded_tagged (decode fp pkt) (dst fv) (src fv) vid) \<and>
        (role (ports e ! j) = roleAccess \<longrightarrow> decoded_untagged (decode fp pkt) (dst fv) (src fv)) \<and>
        carries (decode fp pkt) (innerType fv) (payload fv))"
proof -
  note w = forward_writes [OF wf fwd acc wire]
  have roles: "role (ports e ! j) \<noteq> rolePlain" "role (ports e ! i) \<noteq> rolePlain"
    using engine_wf_role [OF wf] aware w(2) forward_index [OF fwd] by blast+
  then have r: "role (ports e ! j) = roleTrunk \<or> role (ports e ! j) = roleAccess" by (cases "role (ports e ! j)") simp_all
  have tag: "hasTag fv \<Longrightarrow> tagVID fv = vid"
    using classify_tagged [of "ports e ! i" "tagVID fv" vid] ingress_SomeD(5) [OF acc] roles(2) by simp
  have "decoded_as (role (ports e ! j)) (decode fp pkt) fv vid"
    if "(role (ports e ! j) = roleTrunk) = hasTag fv \<or> vid < 0x1000 \<and> 0x600 \<le> innerType fv \<and> \<not> vlan_type (innerType fv)"
  proof (cases "(role (ports e ! j) = roleTrunk) = hasTag fv")
    case True
    from frame_codec.egress_verbatim_decoded [OF codec acc this tag] show ?thesis by (simp add: w(1))
  next
    case False
    with that show ?thesis
      unfolding w(1) by (intro frame_codec.egress_frame_decoded [OF codec acc _ _ _ tag]) simp_all
  qed
  moreover have "raw fv = frm" using ingress_SomeD [OF acc] by simp
  ultimately show ?thesis using r by (auto simp: w(1) egress_frame_def decoded_as_def)
qed

lemma example_aware: "vlanAware vlan_engine" "\<not> vlanAware plain_engine"
  by code_simp+

theorem egress_tag_matches_role_witness:
  "\<exists>e' ws. forward wire_decode wire_ser mtu_io 3 (tagged_frame broadcast (station 4) 10) 7 vlan_engine = Some e' \<and>
     wire e' = wire vlan_engine @ ws \<and> map fst ws = [0, 1, 4] \<and>
     (\<forall>(j, pkt, ok) \<in> set ws.
        role (ports vlan_engine ! j) = roleTrunk \<and> decoded_tagged (wire_decode newFrameParser pkt) broadcast (station 4) 10 \<or>
        role (ports vlan_engine ! j) = roleAccess \<and> decoded_untagged (wire_decode newFrameParser pkt) broadcast (station 4))"
proof -
  let ?fv = "\<lparr>dst = broadcast, src = station 4, hasTag = True, tagVID = 10, innerType = 0x88B5,
               payload = replicate 46 0, raw = tagged_frame broadcast (station 4) 10\<rparr>"
  obtain e' ws where e': "forward wire_decode wire_ser mtu_io 3 (tagged_frame broadcast (station 4) 10) 7 vlan_engine = Some e'"
    "wire e' = wire vlan_engine @ ws" "untimed ws = wire_frames wire_ser vlan_engine ?fv 10 [0, 1, 4]"
    using forward_step [of vlan_engine 3 wire_decode wire_ser mtu_io "tagged_frame broadcast (station 4) 10" 7]
      example_ingress_vlan example_destinations by auto
  have "map fst ws = [0, 1, 4]" by (simp only: map_fst_untimed e'(3) map_fst_wire_frames)
  moreover have "role (ports vlan_engine ! j) = roleTrunk \<and> decoded_tagged (wire_decode newFrameParser pkt) (dst ?fv) (src ?fv) 10 \<or>
         role (ports vlan_engine ! j) = roleAccess \<and> decoded_untagged (wire_decode newFrameParser pkt) (dst ?fv) (src ?fv)"
    if "(j, pkt, ok) \<in> set ws" for j pkt ok
  proof -
    note e = egress_tag_matches_role [OF wire.frame_codec_axioms example_engines(2) example_aware(1) e'(1) example_ingress_vlan e'(2) that,
        of newFrameParser]
    have "\<not> wire_vlan_type (innerType ?fv)" by (simp add: wire_vlan_type_def EthernetTypeDot1Q_def)
    with e show ?thesis by auto
  qed
  ultimately show ?thesis
    using e'(1,2) by (intro exI [of _ e'] exI [of _ ws]) auto
qed

text \<open>
  C17: Plain ports are not transparent to tags. On a switch of plain ports, documented as
  transparent L2 with no VLAN awareness, a tagged frame is accepted, but every copy written
  leaves untagged: it differs from the frame received and decodes without a tag.
\<close>

theorem plain_ports_strip_tags:
  assumes codec: "frame_codec decode ser vlan_type" and wf: "engine_wf e" and plain: "\<not> vlanAware e"
    and fwd: "forward decode ser ops i frm now e = Some e'"
    and acc: "ingress decode (ports e ! i) frm = Some (vid, fv)" and tagged: "hasTag fv"
    and opaque: "0x600 \<le> innerType fv" "\<not> vlan_type (innerType fv)"
    and wire: "wire e' = wire e @ ws" "(j, pkt, ok) \<in> set ws"
  shows "pkt \<noteq> frm \<and> decoded_untagged (decode fp pkt) (dst fv) (src fv)"
proof -
  note w = forward_writes [OF wf fwd acc wire]
  have role: "role (ports e ! j) = rolePlain"
    using engine_wf_role [OF wf w(2)] plain by simp
  have "decoded_as rolePlain (decode fp pkt) fv vid" for fp
    unfolding w(1) role by (rule frame_codec.egress_frame_decoded [OF codec acc opaque]) simp_all
  then have un: "decoded_untagged (decode fp pkt) (dst fv) (src fv)" for fp
    by (simp add: decoded_as_def)
  have "decoded_tagged (decode newFrameParser frm) (dst fv) (src fv) (tagVID fv)"
    using frame_codec.ingress_decoded(1) [OF codec acc tagged] .
  with un [of newFrameParser] have "pkt \<noteq> frm"
    by (auto simp: decoded_tagged_def decoded_untagged_def)
  with un show ?thesis by blast
qed

theorem plain_ports_strip_tags_witness:
  "\<exists>e' ws. forward wire_decode wire_ser mtu_io 0 (tagged_frame broadcast (station 1) 10) 7 plain_engine = Some e' \<and>
     wire e' = wire plain_engine @ ws \<and> map fst ws = [1, 2] \<and>
     (\<forall>(j, pkt, ok) \<in> set ws. pkt \<noteq> tagged_frame broadcast (station 1) 10 \<and>
        decoded_untagged (wire_decode newFrameParser pkt) broadcast (station 1))"
proof -
  let ?frm = "tagged_frame broadcast (station 1) 10"
  let ?fv = "\<lparr>dst = broadcast, src = station 1, hasTag = True, tagVID = 10, innerType = 0x88B5,
               payload = replicate 46 0, raw = ?frm\<rparr>"
  have acc: "ingress wire_decode (ports plain_engine ! 0) ?frm = Some (0, ?fv)" by code_simp
  have dest: "destinations plain_engine 0 0 ?fv 7 = [1, 2]" by code_simp
  obtain e' ws where e': "forward wire_decode wire_ser mtu_io 0 ?frm 7 plain_engine = Some e'"
    "wire e' = wire plain_engine @ ws" "untimed ws = wire_frames wire_ser plain_engine ?fv 0 [1, 2]"
    using forward_step [of plain_engine 0 wire_decode wire_ser mtu_io ?frm 7] acc dest by auto
  have "map fst ws = [1, 2]" by (simp only: map_fst_untimed e'(3) map_fst_wire_frames)
  moreover have "pkt \<noteq> ?frm \<and> decoded_untagged (wire_decode newFrameParser pkt) (dst ?fv) (src ?fv)"
    if "(j, pkt, ok) \<in> set ws" for j pkt ok
    by (rule plain_ports_strip_tags [OF wire.frame_codec_axioms _ _ e'(1) acc _ _ _ e'(2) that])
      (simp_all add: wire_vlan_type_def EthernetTypeDot1Q_def example_aware)
  ultimately show ?thesis
    using e'(1,2) by (intro exI [of _ e'] exI [of _ ws]) auto
qed

end
