(* ===== verification/Delivery.thy ===== *)
theory Delivery
  imports BenchCalls Tagging
begin

text \<open>
  The bench against the switch: what the test frames of \<open>internal/harness/probe.go\<close> become on their way
  through the engine, and what a capture that reads them reports. This is the composition the
  integration tests (\<open>src/test\<close>) check on a running system. \<open>sent_on k\<close> is what the engine handed to
  the socket of port k without an error; the other end of a cable reads exactly that, which is for the
  kernel to do. Test frames are unpadded here; the padding is beyond what \<open>frame_codec\<close> describes.
\<close>

section \<open>Test frames at the ingress\<close>

definition sent_on :: "nat \<Rightarrow> (nat \<times> frame \<times> bool) list \<Rightarrow> frame list" where
  "sent_on k ws = map (\<lambda>(j, pkt, ok). pkt) (filter (\<lambda>(j, pkt, ok). j = k \<and> ok) ws)"

lemma sent_on_simps [simp]:
  "sent_on k [] = []" "sent_on k ((j, pkt, ok) # ws) = (if j = k \<and> ok then pkt # sent_on k ws else sent_on k ws)"
  by (simp_all add: sent_on_def)

lemma sent_on_wire_frames:
  "untimed ws = wire_frames ser e fv vid outs \<Longrightarrow> \<forall>(j, pkt, ok) \<in> set ws. ok \<Longrightarrow> distinct outs \<Longrightarrow>
     sent_on k ws = (if k \<in> set outs then [egress_frame ser (role (ports e ! k)) fv vid] else [])"
proof (induction outs arbitrary: ws)
  case Nil
  then show ?case by (simp add: wire_frames_def untimed_def)
next
  case (Cons j outs)
  then obtain pkt ok ws' where ws: "ws = (j, pkt, ok) # ws'" "pkt = egress_frame ser (role (ports e ! j)) fv vid"
      "untimed ws' = wire_frames ser e fv vid outs"
    by (cases ws) (auto simp: wire_frames_def)
  with Cons.prems Cons.IH [OF ws(3)] show ?case by auto
qed

text \<open>What a test frame looks like after decoding.\<close>

definition test_view :: "mac \<Rightarrow> mac \<Rightarrow> u16 \<Rightarrow> byte list \<Rightarrow> frameView \<Rightarrow> bool" where
  "test_view s d v pl fv \<longleftrightarrow>
     dst fv = d \<and> src fv = s \<and> hasTag fv = (v \<noteq> 0) \<and> tagVID fv = v \<and> innerType fv = TestType \<and>
     take (4 + length pl) (payload fv) = magic @ pl \<and> 4 + length pl \<le> length (payload fv)"

lemma TestType_opaque: "0x600 \<le> TestType"
  by (simp add: TestType_def)

lemma length_magic [simp]: "length magic = 4"
  by (simp add: magic_def)

lemma take_all_prefix: "take n xs = ys \<Longrightarrow> length ys = n \<Longrightarrow> n \<le> length xs"
  by auto

context frame_codec
begin

lemma ingress_test_frame:
  assumes "length d = 6" and "length s = 6" and "v < 0x1000" and "\<not> vlan_type TestType"
  shows "\<exists>fv. test_view s d v pl fv \<and> raw fv = BuildVLANFrame ser s d v pl 0 \<and>
     ingress decode p (BuildVLANFrame ser s d v pl 0) = map_option (\<lambda>vid. (vid, fv)) (classify p (v \<noteq> 0) v)"
proof (cases "v = 0")
  case True
  let ?b = "BuildVLANFrame ser s d v pl 0" and ?fp = "decode (parser p) (BuildVLANFrame ser s d v pl 0)"
  have d: "decoded_untagged ?fp d s \<and> EthernetType (eth ?fp) = TestType \<and>
      take (length (magic @ pl)) (eth_Payload (eth ?fp)) = magic @ pl"
    by (rule decode_ser_untagged [OF assms(1,2) TestType_opaque assms(4)])
      (simp add: True BuildVLANFrame_def serialize_def Let_def)
  with assms True take_all_prefix [of "4 + length pl" "eth_Payload (eth ?fp)" "magic @ pl"] show ?thesis
    by (intro exI [of _ "view_of ?fp False ?b"])
      (auto simp: decoded_untagged_def test_view_def ingress_def view_of_def Let_def)
next
  case False
  let ?b = "BuildVLANFrame ser s d v pl 0" and ?fp = "decode (parser p) (BuildVLANFrame ser s d v pl 0)"
  have d: "decoded_tagged ?fp d s v \<and> Dot1Q_Type (dot1q ?fp) = TestType \<and>
      take (length (magic @ pl)) (dot1q_Payload (dot1q ?fp)) = magic @ pl"
    by (rule decode_ser_tagged [OF assms(1-3) TestType_opaque assms(4)])
      (simp add: False BuildVLANFrame_def serialize_def Let_def)
  with assms False take_all_prefix [of "4 + length pl" "dot1q_Payload (dot1q ?fp)" "magic @ pl"] show ?thesis
    by (intro exI [of _ "view_of ?fp True ?b"])
      (auto simp: decoded_tagged_def test_view_def ingress_def view_of_def Let_def)
qed

end

section \<open>Test frames at the egress\<close>

text \<open>What a capture reports of a test frame that left through a port of this role.\<close>

definition arrived :: "portRole \<Rightarrow> mac \<Rightarrow> mac \<Rightarrow> u16 \<Rightarrow> byte list \<Rightarrow> FrameInfo \<Rightarrow> bool" where
  "arrived r s d vid pl fi \<longleftrightarrow>
     Src fi = s \<and> Dst fi = d \<and> HasVLAN fi = (r = roleTrunk) \<and> (r = roleTrunk \<longrightarrow> VLANID fi = vid) \<and>
     take (4 + length pl) (Payload fi) = magic @ pl"

lemma test_payload:
  assumes "take (4 + length pl) xs = magic @ pl" and "4 + length pl \<le> length xs" and "take (length xs) ys = xs"
  shows "take (4 + length pl) ys = magic @ pl" and "4 \<le> length ys" and "take 4 ys = magic"
proof -
  have "take (4 + length pl) (take (length xs) ys) = take (4 + length pl) ys" using assms(2) by (simp add: min_def)
  then show t: "take (4 + length pl) ys = magic @ pl" using assms(1,3) by simp
  have "length (take (4 + length pl) ys) = 4 + length pl" by (simp add: t)
  then show "4 \<le> length ys" by simp
  have "take 4 (take (4 + length pl) ys) = take 4 (magic @ pl)" by (simp add: t)
  then show "take 4 ys = magic" by simp
qed

context packet_view
begin

lemma Parse_buildTagged:
  assumes "length d = 6" and "length s = 6" and "vid < 0x1000"
    and "take (4 + length pl) xs = magic @ pl" and "4 + length pl \<le> length xs"
  shows "\<exists>fi. Parse layers (buildTagged ser d s vid TestType xs) = Some fi \<and> isTest fi \<and> arrived roleTrunk s d vid pl fi"
proof -
  let ?b = "buildTagged ser d s vid TestType xs"
  obtain e q where l: "layers (?b @ []) = (e, q)" by fastforce
  from layers_tagged [OF assms(1-3), of xs "[]" e q] l obtain e' q' where "e = Some e'" "q = Some q'" "SrcMAC e' = s"
      "DstMAC e' = d" "VLANIdentifier q' = vid" "Dot1Q_Type q' = TestType" "take (length xs) (dot1q_Payload q') = xs"
    by (auto simp: buildTagged_def)
  with l test_payload [OF assms(4,5), of "dot1q_Payload q'"] show ?thesis
    by (auto simp: Parse_def isTest_def arrived_def Let_def)
qed

lemma Parse_buildUntagged:
  assumes "length d = 6" and "length s = 6" and "r \<noteq> roleTrunk"
    and "take (4 + length pl) xs = magic @ pl" and "4 + length pl \<le> length xs"
  shows "\<exists>fi. Parse layers (buildUntagged ser d s TestType xs) = Some fi \<and> isTest fi \<and> arrived r s d vid pl fi"
proof -
  let ?b = "buildUntagged ser d s TestType xs"
  obtain e q where l: "layers (?b @ []) = (e, q)" by fastforce
  from layers_untagged [OF assms(1,2), of xs "[]" e q] l obtain e' where "e = Some e'" "q = None" "SrcMAC e' = s"
      "DstMAC e' = d" "EthernetType e' = TestType" "take (length xs) (eth_Payload e') = xs"
    by (auto simp: buildUntagged_def)
  with l assms(3) test_payload [OF assms(4,5), of "eth_Payload e'"] show ?thesis
    by (auto simp: Parse_def isTest_def arrived_def Let_def)
qed

lemma Parse_egress:
  assumes "length d = 6" and "length s = 6" and "v < 0x1000" and "vid < 0x1000"
    and view: "test_view s d v pl fv" and raw: "raw fv = BuildVLANFrame ser s d v pl 0"
    and trunk: "r = roleTrunk \<Longrightarrow> v \<noteq> 0 \<Longrightarrow> v = vid"
  shows "\<exists>fi. Parse layers (egress_frame ser r fv vid) = Some fi \<and> isTest fi \<and> arrived r s d vid pl fi"
proof -
  note fv = view [unfolded test_view_def]
  consider (verbatim) "(r = roleTrunk) = (v \<noteq> 0)" | (tag) "r = roleTrunk" "v = 0" | (untag) "r \<noteq> roleTrunk" "v \<noteq> 0" by blast
  then show ?thesis
  proof cases
    case verbatim
    then have "egress_frame ser r fv vid = serialize ser s d v pl 0"
      using fv raw by (simp add: egress_frame_def Let_def BuildVLANFrame_def)
    with test_frame_read_back [OF assms(1-3), of pl 0] verbatim trunk show ?thesis by (auto simp: arrived_def)
  next
    case tag
    then have "egress_frame ser r fv vid = buildTagged ser d s vid TestType (payload fv)"
      using fv by (simp add: egress_frame_def Let_def)
    with Parse_buildTagged [OF assms(1,2,4), of pl "payload fv"] fv tag(1) show ?thesis by simp
  next
    case untag
    then have "egress_frame ser r fv vid = buildUntagged ser d s TestType (payload fv)"
      using fv by (simp add: egress_frame_def Let_def)
    with Parse_buildUntagged [OF assms(1,2) untag(1), of pl "payload fv" vid] fv show ?thesis by simp
  qed
qed

end

section \<open>From host to host\<close>

lemma Received_one: "Parse layers b = Some fi \<Longrightarrow> isTest fi \<Longrightarrow> Received layers [b] = [fi]"
  by (simp add: Received_def)

lemma Received_Nil [simp]: "Received layers [] = []"
  by (simp add: Received_def)

definition delivered :: "packet_layers \<Rightarrow> 'h engine \<Rightarrow> mac \<Rightarrow> mac \<Rightarrow> u16 \<Rightarrow> byte list \<Rightarrow> nat list \<Rightarrow> (nat \<times> frame \<times> bool) list \<Rightarrow> bool" where
  "delivered layers e s d vid pl outs ws \<longleftrightarrow>
     (\<forall>k. if k \<in> set outs
          then \<exists>fi. Received layers (sent_on k ws) = [fi] \<and> arrived (role (ports e ! k)) s d vid pl fi
          else Received layers (sent_on k ws) = [])"

lemma test_frame_delivered:
  assumes codec: "frame_codec decode ser vlan_type" and view: "packet_view layers ser" and opaque: "\<not> vlan_type TestType"
    and wf: "engine_wf e" and fwd: "forward decode ser ops i (BuildVLANFrame ser s d v pl 0) now e = Some e'"
    and len: "length d = 6" "length s = 6" and v: "v < 0x1000" "vid < 0x1000"
    and cls: "classify (ports e ! i) (v \<noteq> 0) v = Some vid"
    and ws: "wire e' = wire e @ ws" "\<forall>(j, pkt, ok) \<in> set ws. ok"
  shows "\<exists>fv. test_view s d v pl fv \<and> ingress decode (ports e ! i) (BuildVLANFrame ser s d v pl 0) = Some (vid, fv) \<and>
           delivered layers e s d vid pl (destinations e i vid fv now) ws"
proof -
  obtain fv where fv: "test_view s d v pl fv" "raw fv = BuildVLANFrame ser s d v pl 0"
    and acc: "ingress decode (ports e ! i) (BuildVLANFrame ser s d v pl 0) = Some (vid, fv)"
    using frame_codec.ingress_test_frame [OF codec len v(1) opaque, of pl "ports e ! i"] cls by auto
  note i = forward_index [OF fwd]
  let ?outs = "destinations e i vid fv now"
  have w: "untimed ws = wire_frames ser e fv vid ?outs"
    using wf fwd by (cases rule: forward_Some_cases) (use acc ws in auto)
  have "Received layers (sent_on k ws) = []" if "k \<notin> set ?outs" for k
    using that sent_on_wire_frames [OF w ws(2) distinct_destinations] by simp
  moreover have "\<exists>fi. Received layers (sent_on k ws) = [fi] \<and> arrived (role (ports e ! k)) s d vid pl fi" if k: "k \<in> set ?outs" for k
  proof -
    have "in_vlan e vid k" using destinations_in_vlan(1) [OF wf ingress_in_vlan [OF i acc] k] .
    then have "v = vid" if "role (ports e ! k) = roleTrunk" "v \<noteq> 0"
      using that engine_wf_role [OF wf i] engine_wf_role [OF wf, of k] classify_tagged [of "ports e ! i" v vid] cls
      by (auto simp: in_vlan_def)
    then obtain fi where "Parse layers (egress_frame ser (role (ports e ! k)) fv vid) = Some fi" "isTest fi"
        "arrived (role (ports e ! k)) s d vid pl fi"
      using packet_view.Parse_egress [OF view len v fv] by blast
    with k sent_on_wire_frames [OF w ws(2) distinct_destinations, of k] show ?thesis by (simp add: Received_one)
  qed
  ultimately show ?thesis using fv(1) acc by (auto simp: delivered_def)
qed

lemma broadcast_delivered:
  assumes "frame_codec decode ser vlan_type" and "packet_view layers ser" and "\<not> vlan_type TestType"
    and "engine_wf e" and "forward decode ser ops i (BuildVLANFrame ser s d v pl 0) now e = Some e'"
    and "length d = 6" and "length s = 6" and "v < 0x1000" and "vid < 0x1000" and "group_address d"
    and "classify (ports e ! i) (v \<noteq> 0) v = Some vid"
    and "wire e' = wire e @ ws" and "\<forall>(j, pkt, ok) \<in> set ws. ok"
  shows "if k \<noteq> i \<and> in_vlan e vid k
         then \<exists>fi. Received layers (sent_on k ws) = [fi] \<and> arrived (role (ports e ! k)) s d vid pl fi
         else Received layers (sent_on k ws) = []"
proof -
  obtain fv where fv: "test_view s d v pl fv" "delivered layers e s d vid pl (destinations e i vid fv now) ws"
    using test_frame_delivered [OF assms(1-9,11-13)] by blast
  have "set (destinations e i vid fv now) = {k. k \<noteq> i \<and> in_vlan e vid k}"
    using fv(1) assms(10) by (auto simp: destinations_def known_port_def test_view_def in_vlan_def)
  with fv(2) show ?thesis by (simp add: delivered_def)
qed

section \<open>The switch of a topology\<close>

text \<open>What a host's specification says about its port: role, VLANs, and the VLAN of a frame with tag v (0: no tag).\<close>

definition spec_role :: "HostSpec \<Rightarrow> portRole" where
  "spec_role s = roleOf (spec_AccessVID s) (spec_Trunk s)"

definition spec_member :: "HostSpec \<Rightarrow> u16 \<Rightarrow> bool" where
  "spec_member s v \<longleftrightarrow>
     (case spec_role s of rolePlain \<Rightarrow> v = 0 | roleAccess \<Rightarrow> v = spec_AccessVID s | roleTrunk \<Rightarrow> v \<in> set (spec_Trunk s))"

definition spec_vlan :: "HostSpec \<Rightarrow> u16 \<Rightarrow> u16 option" where
  "spec_vlan s v =
     (case spec_role s of
        rolePlain \<Rightarrow> Some 0
      | roleAccess \<Rightarrow> (if v = 0 then Some (spec_AccessVID s) else None)
      | roleTrunk \<Rightarrow> (if v \<noteq> 0 \<and> v \<in> set (spec_Trunk s) then Some v else None))"

lemma spec_port:
  "role (make_port i c h) = spec_role s" "classify (make_port i c h) (v \<noteq> 0) v = spec_vlan s v"
  "vlan_member (make_port i c h) v = spec_member s v"
  if "AccessVID c = spec_AccessVID s" "Trunk c = spec_Trunk s"
  using that
  by (auto simp: spec_role_def spec_vlan_def spec_member_def classify_def vlan_member_def make_port_def Let_def
      allowed_def roleOf_iffs split: portRole.splits)

lemma topology_engine:
  assumes "GoSwitch_Start orc swNS (topo_ports (NewTopology pid sq specs)) tr = (Some e, tr1)"
  shows "engine_wf e" and "length (ports e) = length specs"
    and "i < length specs \<Longrightarrow> role (ports e ! i) = spec_role (specs ! i)"
    and "i < length specs \<Longrightarrow> classify (ports e ! i) (v \<noteq> 0) v = spec_vlan (specs ! i) v"
    and "in_vlan e v i \<longleftrightarrow> i < length specs \<and> spec_member (specs ! i) v"
proof -
  let ?ps = "topo_ports (NewTopology pid sq specs)"
  obtain ios where ne: "NewEngine (map port_config ?ps) ios = Inr e"
    using assms by (auto simp: GoSwitch_Start_def split: prod.splits sum.splits)
  then show "engine_wf e" by (auto simp: NewEngine_Inr_iff intro: engine_wf_built)
  have ps: "length ?ps = length specs" "\<And>i. i < length specs \<Longrightarrow> port_AccessVID (?ps ! i) = spec_AccessVID (specs ! i)"
    "\<And>i. i < length specs \<Longrightarrow> port_Trunk (?ps ! i) = spec_Trunk (specs ! i)"
    by (simp_all add: topo_ports_def Hosts_new new_host_def Let_def)
  show len: "length (ports e) = length specs" using built_port(2) [OF ne, of 0] ne ps(1) by (auto simp: NewEngine_Inr_iff built_def)
  have p: "ports e ! i = make_port i (port_config (?ps ! i)) (ios ! i)" if "i < length specs" for i
    using built_port(1) [OF ne] that ps(1) by simp
  have c: "AccessVID (port_config (?ps ! i)) = spec_AccessVID (specs ! i)" "Trunk (port_config (?ps ! i)) = spec_Trunk (specs ! i)"
    if "i < length specs" for i using ps that by (simp_all add: port_config_def)
  show "i < length specs \<Longrightarrow> role (ports e ! i) = spec_role (specs ! i)"
    using spec_port(1) [OF c] by (simp add: p)
  show "i < length specs \<Longrightarrow> classify (ports e ! i) (v \<noteq> 0) v = spec_vlan (specs ! i) v"
    using spec_port(2) [OF c] by (simp add: p)
  show "in_vlan e v i \<longleftrightarrow> i < length specs \<and> spec_member (specs ! i) v"
    using spec_port(3) [OF c, of i i "ios ! i" v] by (cases "i < length specs") (simp_all add: in_vlan_def len p)
qed

section \<open>Properties\<close>

text \<open>
  C9: A broadcast between the hosts of a topology, end to end (the integration tests of flooding,
  reflection, trunk passthrough, access egress and PVID). Whatever the switch has learned since
  GoSwitch.Start built its engine, when host i injects a test frame to a group address and its own
  specification accepts the frame's tag, the capture of every other host whose specification is in
  that VLAN reports exactly one frame, with the addresses and the payload injected, tagged with
  the VLAN for trunks and untagged for all others; the captures of the others and of host i report
  none.
\<close>
theorem broadcast_end_to_end:
  assumes codec: "frame_codec decode ser vlan_type" and view: "packet_view layers ser" and opaque: "\<not> vlan_type TestType"
    and start: "GoSwitch_Start orc swNS (topo_ports (NewTopology pid sq specs)) tr = (Some e0, tr1)"
    and e: "engine_wf e" "same_config e0 e"
    and fwd: "forward decode ser ops i (BuildVLANFrame ser s d v pl 0) now e = Some e'"
    and frm: "length d = 6" "length s = 6" "v < 0x1000" "vid < 0x1000" "group_address d"
    and accepted: "spec_vlan (specs ! i) v = Some vid" and k: "k < length specs"
    and ws: "wire e' = wire e @ ws" "\<forall>(j, pkt, ok) \<in> set ws. ok"
  shows "if k \<noteq> i \<and> spec_member (specs ! k) vid
         then \<exists>fi. Received layers (sent_on k ws) = [fi] \<and> arrived (spec_role (specs ! k)) s d vid pl fi
         else Received layers (sent_on k ws) = []"
proof -
  note topo = topology_engine [OF start] and sc = e(2)
  have i: "i < length specs" using forward_index [OF fwd] same_config_length [OF sc] topo(2) by simp
  have "classify (ports e ! i) (v \<noteq> 0) v = Some vid"
    using topo(4) [OF i, of v] accepted port_cfg_fields(5) [OF same_config_nth [OF sc]] i topo(2) by simp
  from broadcast_delivered [OF codec view opaque e(1) fwd frm this ws, of k] show ?thesis
    using k topo(2,3,5) same_config_in_vlan [OF sc] same_config_role [OF sc, of k] by (simp split: if_splits)
qed

text \<open>The VLAN topology of the integration tests, and handles that accept every write.\<close>

definition vlan_hosts :: "HostSpec list" where
  "vlan_hosts =
     [\<lparr>spec_IP = ''10.0.0.1'', spec_AccessVID = 10, spec_Trunk = []\<rparr>,
      \<lparr>spec_IP = ''10.0.0.2'', spec_AccessVID = 10, spec_Trunk = []\<rparr>,
      \<lparr>spec_IP = ''10.0.0.3'', spec_AccessVID = 20, spec_Trunk = []\<rparr>,
      \<lparr>spec_IP = [], spec_AccessVID = 0, spec_Trunk = [10, 20]\<rparr>,
      \<lparr>spec_IP = [], spec_AccessVID = 0, spec_Trunk = [10, 20]\<rparr>]"

definition accepting_io :: "'h PacketIO" where
  "accepting_io = \<lparr>ReadPacketData = (\<lambda>h. (ReadTimeout, h)), WritePacketData = (\<lambda>h pkt. (True, h)), CloseIO = (\<lambda>h. h)\<rparr>"

lemma vlan_hosts_start:
  "\<exists>e tr. GoSwitch_Start all_ok ''sw'' (topo_ports (NewTopology 1 1 vlan_hosts)) [] = (Some e, tr)"
proof -
  let ?ps = "topo_ports (NewTopology 1 1 vlan_hosts)"
  have opn: "\<exists>h tr'. open_switch_port all_ok ns n tr = (Some h, tr')" for ns n tr
    by (simp add: open_switch_port_def openInNetns_def call_def Let_def all_ok_def)
  have "\<exists>hs tr'. open_all (open_switch_port all_ok ''sw'') ns ios tr = (Inr hs, tr')" for ns ios tr
  proof (induction ns arbitrary: ios tr)
    case (Cons n ns)
    obtain h tr' where "open_switch_port all_ok ''sw'' n tr = (Some h, tr')" using opn by blast
    with Cons [of "ios @ [h]" tr'] show ?case by simp
  qed simp
  then obtain ios tr where o: "open_all (open_switch_port all_ok ''sw'') (map SwIf ?ps) [] [] = (Inr ios, tr)" by blast
  have "length ios = length ?ps" using harness_opener.open_all_ok [OF o] by simp
  moreover have "acceptable (map port_config ?ps)" by code_simp
  ultimately show ?thesis using o by (simp add: GoSwitch_Start_def NewEngine_Inr_iff [THEN iffD2])
qed

lemma emit_accepting:
  "emit ser accepting_io j fv vid e = Some e' \<Longrightarrow> \<exists>pkt. wire e' = wire e @ [(j, pkt, True)]"
  by (auto simp: emit_def accepting_io_def Let_def split: option.splits)

lemma forward_accepting:
  assumes wf: "engine_wf e" and i: "i < length (ports e)"
  shows "\<exists>e' ws. forward decode ser accepting_io i frm now e = Some e' \<and> engine_wf e' \<and> wire e' = wire e @ ws \<and>
           (\<forall>(j, pkt, ok) \<in> set ws. ok)"
proof -
  obtain e' where e': "forward decode ser accepting_io i frm now e = Some e'" "engine_wf e'"
    using forward_step [OF wf i, of decode ser accepting_io frm now] by blast
  have "\<exists>ws. wire e' = wire e @ ws \<and> (\<forall>(j, pkt, ok) \<in> set ws. ok)"
  proof (cases "ingress decode (ports e ! i) frm")
    case None
    with e'(1) forward_dropped [OF i None] show ?thesis by auto
  next
    case (Some a)
    then obtain vid fv where acc: "ingress decode (ports e ! i) frm = Some (vid, fv)" by (cases a) auto
    let ?I = "\<lambda>s. \<exists>ws. wire s = wire e @ ws \<and> (\<forall>(j, pkt, ok) \<in> set ws. ok)"
    show ?thesis
      by (rule foldM_invariant [where I = ?I, OF _ _ e'(1) [unfolded forward_ready [OF wf i acc]]])
        (auto dest!: emit_accepting)
  qed
  with e' show ?thesis by blast
qed

lemma example_addresses:
  "length (station n) = 6" "length broadcast = 6" "group_address broadcast" "\<not> wire_vlan_type TestType"
  by (simp_all add: station_def broadcast_def group_address_def wire_vlan_type_def TestType_def EthernetTypeDot1Q_def)

theorem broadcast_end_to_end_witness:
  "\<exists>e e' ws tr. GoSwitch_Start all_ok ''sw'' (topo_ports (NewTopology 1 1 vlan_hosts)) [] = (Some e, tr) \<and>
     forward wire_decode wire_ser accepting_io 3 (BuildVLANFrame wire_ser (station 4) broadcast 10 [1, 2] 0) 7 e = Some e' \<and>
     wire e' = wire e @ ws \<and> (\<exists>fi. Received wire_layers_of (sent_on 4 ws) = [fi] \<and> HasVLAN fi \<and> VLANID fi = 10) \<and>
     Received wire_layers_of (sent_on 2 ws) = []"
proof -
  obtain e tr where e: "GoSwitch_Start all_ok ''sw'' (topo_ports (NewTopology 1 1 vlan_hosts)) [] = (Some e, tr)"
    using vlan_hosts_start by blast
  note topo = topology_engine [OF e]
  obtain e' ws where f: "forward wire_decode wire_ser accepting_io 3 (BuildVLANFrame wire_ser (station 4) broadcast 10 [1, 2] 0) 7 e = Some e'"
      "wire e' = wire e @ ws" "\<forall>(j, pkt, ok) \<in> set ws. ok"
    using forward_accepting [OF topo(1), of 3 wire_decode wire_ser "BuildVLANFrame wire_ser (station 4) broadcast 10 [1, 2] 0" 7] topo(2)
    by (auto simp: vlan_hosts_def)
  have spec: "spec_vlan (vlan_hosts ! 3) 10 = Some 10" "spec_member (vlan_hosts ! 4) 10" "\<not> spec_member (vlan_hosts ! 2) 10"
    "spec_role (vlan_hosts ! 4) = roleTrunk" "length vlan_hosts = 5" by code_simp+
  note b = broadcast_end_to_end [OF wire.frame_codec_axioms wire_view.packet_view_axioms example_addresses(4) e topo(1)
      same_config_refl f(1) example_addresses(2,1) _ _ example_addresses(3) spec(1) _ f(2,3)]
  from b [of 4] b [of 2] spec e f(1,2) show ?thesis by (auto simp: arrived_def)
qed

text \<open>
  C10: Learning and ageing between hosts, end to end (the tests of known unicast and of ageing). Host j
  has sent a test frame in a VLAN; when host i then sends one to the address of j in that VLAN, the
  capture of host j alone reports it, once; unless the entry has aged: then the captures of all
  hosts of the VLAN but the sender do.
\<close>
theorem unicast_end_to_end:
  assumes codec: "frame_codec decode ser vlan_type" and view: "packet_view layers ser" and opaque: "\<not> vlan_type TestType"
    and wf: "engine_wf e" and fwd1: "forward decode ser ops j (BuildVLANFrame ser sj dj vj plj 0) t e = Some e1"
    and fwd2: "forward decode ser ops i (BuildVLANFrame ser si sj vi pli 0) now e1 = Some e2"
    and len: "length sj = 6" "length dj = 6" "length si = 6" and v: "vj < 0x1000" "vi < 0x1000" "vid < 0x1000"
    and hosts: "i \<noteq> j" "si \<noteq> sj" "\<not> group_address sj"
    and cls: "classify (ports e ! j) (vj \<noteq> 0) vj = Some vid" "classify (ports e ! i) (vi \<noteq> 0) vi = Some vid"
    and time: "0 \<le> sint t" "sint t \<le> sint now"
    and ws: "wire e2 = wire e1 @ ws" "\<forall>(j, pkt, ok) \<in> set ws. ok"
  shows "if (if 0 < sint (ageing (fdb e)) \<and> sint (ageing (fdb e)) < sint now - sint t then k \<noteq> i \<and> in_vlan e vid k else k = j)
         then \<exists>fi. Received layers (sent_on k ws) = [fi] \<and> arrived (role (ports e ! k)) si sj vid pli fi
         else Received layers (sent_on k ws) = []"
proof -
  obtain fvj where j: "test_view sj dj vj plj fvj"
      "ingress decode (ports e ! j) (BuildVLANFrame ser sj dj vj plj 0) = Some (vid, fvj)"
    using frame_codec.ingress_test_frame [OF codec len(2,1) v(1) opaque, of plj "ports e ! j"] cls(1) by auto
  have srcj: "src fvj = sj" using j(1) by (simp add: test_view_def)
  have sc: "same_config e e1" and wf1: "engine_wf e1"
    using wf fwd1 by (cases rule: forward_Some_cases; simp)+
  have i: "i < length (ports e)" using forward_index [OF fwd2] same_config_length [OF sc] by simp
  have "classify (ports e1 ! i) (vi \<noteq> 0) vi = Some vid"
    using cls(2) port_cfg_fields [OF same_config_nth [OF sc i]] by (simp add: classify_def)
  then obtain fv where fv: "test_view si sj vi pli fv" "delivered layers e1 si sj vid pli (destinations e1 i vid fv now) ws"
    using test_frame_delivered [OF codec view opaque wf1 fwd2 len(1,3) v(2,3) _ ws] by blast
  let ?outs = "destinations e1 i vid fv now"
  have "?outs = (if 0 < sint (ageing (fdb e)) \<and> sint (ageing (fdb e)) < sint now - sint t
        then filter (\<lambda>k. k \<noteq> i \<and> in_vlan e vid k) [0..<length (ports e)] else [j])"
    by (rule learned_destinations(3) [OF wf fwd1 j(2) _ i hosts(1) _ _ time])
      (use fv(1) hosts srcj in \<open>simp_all add: test_view_def\<close>)
  then have outs: "k \<in> set ?outs \<longleftrightarrow>
      (if 0 < sint (ageing (fdb e)) \<and> sint (ageing (fdb e)) < sint now - sint t then k \<noteq> i \<and> in_vlan e vid k else k = j)"
    by (auto simp: in_vlan_def)
  then have role: "k \<in> set ?outs \<Longrightarrow> role (ports e1 ! k) = role (ports e ! k)"
    using forward_index [OF fwd1] by (intro same_config_role [OF sc]) (auto simp: in_vlan_def split: if_splits)
  show ?thesis
    unfolding outs [symmetric] using role fv(2) [unfolded delivered_def, rule_format, of k] by (cases "k \<in> set ?outs") simp_all
qed

theorem unicast_end_to_end_witness:
  "\<exists>e1 e2 ws. forward wire_decode wire_ser accepting_io 1 (BuildVLANFrame wire_ser (station 2) broadcast 0 [1] 0) 5 plain_engine = Some e1 \<and>
     forward wire_decode wire_ser accepting_io 0 (BuildVLANFrame wire_ser (station 1) (station 2) 0 [2] 0) 9 e1 = Some e2 \<and>
     wire e2 = wire e1 @ ws \<and> (\<exists>fi. Received wire_layers_of (sent_on 1 ws) = [fi] \<and> Src fi = station 1) \<and>
     Received wire_layers_of (sent_on 2 ws) = []"
proof -
  obtain e1 where f1: "forward wire_decode wire_ser accepting_io 1 (BuildVLANFrame wire_ser (station 2) broadcast 0 [1] 0) 5 plain_engine = Some e1"
      "engine_wf e1"
    using forward_accepting [OF example_engines(1), of 1 wire_decode wire_ser "BuildVLANFrame wire_ser (station 2) broadcast 0 [1] 0" 5]
    by auto
  have "same_config plain_engine e1"
    using forward_step [OF example_engines(1), of 1 wire_decode wire_ser accepting_io "BuildVLANFrame wire_ser (station 2) broadcast 0 [1] 0" 5] f1
    by auto
  then have "0 < length (ports e1)" using same_config_length by fastforce
  then obtain e2 ws where f2: "forward wire_decode wire_ser accepting_io 0 (BuildVLANFrame wire_ser (station 1) (station 2) 0 [2] 0) 9 e1 = Some e2"
      "wire e2 = wire e1 @ ws" "\<forall>(j, pkt, ok) \<in> set ws. ok"
    using forward_accepting [OF f1(2), of 0 wire_decode wire_ser "BuildVLANFrame wire_ser (station 1) (station 2) 0 [2] 0" 9] by blast
  have c: "classify (ports plain_engine ! 1) ((0 :: u16) \<noteq> 0) 0 = Some 0" "classify (ports plain_engine ! 0) ((0 :: u16) \<noteq> 0) 0 = Some 0"
    "station 1 \<noteq> station 2" "\<not> group_address (station 2)" "ageing (fdb plain_engine) = 0" by code_simp+
  note u = unicast_end_to_end [OF wire.frame_codec_axioms wire_view.packet_view_axioms example_addresses(4) example_engines(1) f1(1) f2(1)
      example_addresses(1,2,1) _ _ _ _ c(3,4,1,2) _ _ f2(2,3)]
  from u [of 1] u [of 2] c(5) f1(1) f2(1,2) show ?thesis by (auto simp: arrived_def)
qed

end
