(* ===== verification/Spec2Isabelle.thy ===== *)
theory Spec2Isabelle
  imports System ServerLoop Delivery
begin

text \<open>
  A verification development of vibe-switch, a user-space L2/VLAN switch written in Go.

  \<^bold>\<open>The program.\<close> \<open>cmd/vibe-switch/main.go\<close> reads the ports from the command line, opens an AF_PACKET
  handle for each (\<open>internal/goswitch/afpacket.go\<close>), builds an engine (\<open>engine.go\<close>) and serves its
  snapshots (\<open>stats.go\<close>) on a Unix socket (\<open>internal/control/service.go\<close>), which the \<open>ctl\<close> subcommand
  queries (\<open>client.go\<close>). The engine runs a receive loop per port and a collector. Every frame goes
  through \<open>forward\<close>: it is decoded, classified into a VLAN by the role of the ingress port (\<open>vlan.go\<close>),
  its source is learned in the forwarding database (\<open>fdb.go\<close>), and it is sent to the port the database
  gives for its destination or flooded in the VLAN; \<open>emit\<close> adds or removes the 802.1Q tag.
  \<open>internal/harness\<close> holds the test bench: topologies of network namespaces, the reference bridge, probes
  and measurements.

  \<^bold>\<open>Theories, in the order of the code.\<close>
  \<^item> \<open>Prelude\<close>: machine integers as words, slice reads and loops that can panic, list facts.
  \<^item> \<open>Vlan\<close> (\<open>vlan.go\<close>): roles and ingress classification. \<open>Port\<close> (\<open>engine.go\<close>, \<open>stats.go\<close>): the port struct
    and its counters. \<open>Packet\<close>: the packet library as two parameters, a decoder and a serializer, with
    their contract \<open>frame_codec\<close>; \<open>Codec\<close> is a reference codec that meets it.
  \<^item> \<open>Fdb\<close> (\<open>fdb.go\<close>): each method as an atomic transformation, the abstract meaning of a table (when a
    station is fresh and where), and what reaping may and may not change.
  \<^item> \<open>FdbRace\<close> (\<open>fdb.go\<close>): the same methods as pointer-level steps of interleaved threads with the
    read-write lock: mutual exclusion, freedom from deadlock, safety of \<open>Lookup\<close>, refinement of the atomic
    methods when undisturbed, and two executions that show races.
  \<^item> \<open>Engine\<close> (\<open>engine.go\<close>, \<open>buildTagged\<close> and \<open>buildUntagged\<close> of \<open>vlan.go\<close>): \<open>NewEngine\<close>, \<open>forward\<close>, \<open>emit\<close>,
    \<open>SetAgeing\<close> and a collector tick, with the transport as a record of functions on handles.
    \<open>Construction\<close>: when \<open>NewEngine\<close> succeeds and what it builds, \<open>engine_wf\<close> of the result.
    \<open>Forwarding\<close>: one frame against the specification of the outcome. \<open>Switch\<close>: the properties of one
    frame over the specification. \<open>Runs\<close>: sequences of operations. \<open>Tagging\<close>: what leaves a port, decoded.
  \<^item> \<open>Concur\<close> (\<open>forward\<close>, \<open>emit\<close> of \<open>engine.go\<close>, \<open>FDBSnapshot\<close> of \<open>stats.go\<close>): the receive goroutines of all ports
    at once over the table of \<open>FdbRace\<close>, one atomic addition, one write or one table step at a time, with
    the collector, ageing changes and snapshots beside them. \<open>ConcurSafety\<close>: isolation, exact counters and
    consistent snapshots as invariants. \<open>ConcurRefine\<close>: an undisturbed goroutine against the atomic
    \<open>forward\<close>, with a ranking function. \<open>ConcurProps\<close> and \<open>ConcurLive\<close>: the properties, and that all work
    begun can be finished.
  \<^item> \<open>Lifecycle\<close> (\<open>Start\<close>, \<open>Stop\<close>, \<open>gcLoop\<close> of \<open>engine.go\<close>, \<open>rxLoop\<close> of \<open>afpacket.go\<close>): the goroutines as a step
    relation with the wait group, the done channel and \<open>stopOnce\<close>, over the atomic \<open>forward\<close>. \<open>System\<close>: the
    switch as a whole, the control steps of \<open>Lifecycle\<close> with the data path of \<open>Concur\<close>.
  \<^item> \<open>Text\<close>, \<open>Float64\<close>, \<open>Flags\<close>: the parts of Go's library the rest uses (strings, decimal numbers, \<open>float64\<close>
    as rationals rounded to 53 bits, the \<open>flag\<close> package).
  \<^item> \<open>Stats\<close> (\<open>stats.go\<close>): snapshots. \<open>Client\<close> (\<open>client.go\<close>): rendering, queries and the shell over a client
    whose calls are parameters. \<open>Service\<close> (\<open>service.go\<close>): the server on a file system of sockets, and the
    client connected to an engine. \<open>ServerLoop\<close>: the accept loop, connections, clients and the callers of
    \<open>Close\<close> as interleaved steps.
  \<^item> \<open>Bpf\<close>: the packet filters of the switch and the bench, run on a filter machine. \<open>Os\<close>: system calls as a
    trace, their outcomes decided by an oracle that sees the trace; \<open>port_opener\<close> is the contract of a
    function that opens a handle or leaves none. \<open>Afpacket\<close>: opening a port, in both programs. \<open>Cmd\<close>
    (\<open>main.go\<close>): flags, the run of the switch, dispatch.
  \<^item> \<open>Topology\<close> (\<open>harness/topology.go\<close>, \<open>harness/switch.go\<close>): the commands that build a topology and the
    reference bridge, the engine's adapter. \<open>Probe\<close> (\<open>harness/probe.go\<close>): test frames and captures. \<open>Perf\<close>
    (\<open>harness/perf.go\<close>): throughput, latency, percentiles. \<open>Reader\<close>: the reading goroutines of both and how
    they are stopped, as interleaved steps. \<open>BenchCalls\<close>: their sockets as traces of calls. \<open>Delivery\<close>: from
    the frame one host injects, through the switch, to what the captures of the others report.

  \<^bold>\<open>State and effects.\<close> A Go struct is a record of the same fields, a machine integer a word of its width
  (wrap-around included), an error a value of a sum or option type, a run-time panic \<open>None\<close>. The engine is
  one value passed through every operation. A slice index that could be out of range is read through
  \<open>nth_opt\<close>, so "does not panic" is a theorem. Ports are identified by position, as the code does. Clock
  readings, the order in which Go ranges over a map, what a read returns and whether a call succeeds are
  arguments, over which the properties quantify.

  \<^bold>\<open>Interfaces.\<close> \<open>frame_codec\<close> and \<open>packet_view\<close> (the packet library towards the engine and the bench),
  \<open>bpf_semantics\<close> (the kernel's filter machine), \<open>port_opener\<close> (opening a port) and \<open>slice_sort\<close>
  (\<open>sort.Slice\<close>) are locales, each interpreted on the development's own definitions.

  \<^bold>\<open>What the properties show.\<close> Of one frame: it never panics, keeps the invariant, and reaches exactly the
  ports the specification names; VLANs are isolated; counters and tags agree with the outcome. Of runs:
  the invariant holds at every point and a learned port always has an origin. Of concurrency: with
  every frame in flight at once VLANs stay isolated and no counter update is lost, snapshots are
  consistent, nobody waits for ever, and a goroutine left alone computes the atomic \<open>forward\<close>; the table
  is safe under every interleaving, up to the two races shown. Of the whole switch: no panic, Stop can
  always finish and closes each handle once, and a closed switch is silent. Of the control server:
  Close can always finish and nothing is accepted after it. Of the surroundings: handles and sockets
  never leak, the bench never reads a closed handle, command lines and test frames round-trip, the
  configurations parsed are well typed, what \<open>ctl\<close> prints does not depend on map order, the reference
  bridge is configured alike, measurements compute what they claim, and test frames arrive where, and
  only where, the topology says.

  \<^bold>\<open>Fuel and bounds.\<close> No definition runs on fuel: loops over lists are structural, the others (\<open>Itoa\<close>,
  \<open>trim_left\<close>, \<open>parse_flags\<close>, \<open>bpf_run\<close>) have termination proofs. A receive or accept loop may
  run for ever; it consumes a finite list of what the environment offered, or is a step relation.
  Floats are exact up to rounding; exponents, which the values never leave, are not bounded. Properties
  about \<open>float64\<close> of a count ask it to be below \<open>2 ^ 53\<close>.

  \<^bold>\<open>Not modelled.\<close> Packet parsing and serialization, net/rpc, iproute2 and the kernel (parameters or
  traces of calls); texts of warnings and errors; real time (how long a ticker, a poll or a drain
  lasts); the Go memory model: a step reads and writes shared memory in program order, so the data
  races on \<open>portIdx\<close> and on the counter of \<open>Throughput\<close> are noted, not given a weaker semantics; a second
  call of \<open>Start\<close> in \<open>System\<close> (two receive loops would share one parser); the tests themselves, which
  need network namespaces, though the delivery they check is proved.

  \<^bold>\<open>Next.\<close> The control server's handlers as the snapshot threads of \<open>System\<close>; the rate view of the client
  over the counters of a running switch; padded test frames in \<open>Delivery\<close>.
\<close>

end
